(* ===== verification/Prelude.thy ===== *)
theory Prelude
  imports Main "HOL-Library.Word" "HOL-Library.Multiset"
begin

text \<open>
  Shared vocabulary of the development: the Go machine types, the fact collections that
  the component theories fill, and generic lemmas on signed words, lists and folds.

  Go's \<open>int64\<close>, \<open>int32\<close> and \<open>uint64\<close> are words of that width; a signed comparison
  reads both sides through \<^const>\<open>sint\<close>. A Go \<open>string\<close> is a sequence of bytes, as a HOL
  \<^typ>\<open>string\<close> is; a \<open>[]byte\<close> is a list of 8-bit words (the code never tells a nil
  slice from an empty one).
\<close>

type_synonym int64 = "64 word"
type_synonym int32 = "32 word"
type_synonym uint64 = "64 word"
type_synonym byte = "8 word"
type_synonym bytes = "byte list"
type_synonym key = string

named_theorems store_simps \<open>lookups after an operation of the store\<close>
named_theorems handler_defs \<open>definitions of the request handlers\<close>
named_theorems frame_simps \<open>components of a state that an operation leaves alone\<close>

section \<open>Signed words\<close>

text \<open>Two words of the same width that read as the same signed number are equal.\<close>

lemma sint_eq_iff: "sint a = sint b \<longleftrightarrow> a = (b :: 'a::len word)"
  by (rule signed_word_eqI [THEN iffI]) auto

lemma sint32_lower: "- (2 ^ 31) \<le> sint (a :: int32)"
  using sint_greater_eq [of a] by simp

lemma sint32_upper: "sint (a :: int32) < 2 ^ 31"
  using sint_lt [of a] by simp

text \<open>The increment of a counter below the top of its range does not wrap around.\<close>

lemma sint_succ32: "sint (a + 1) = sint a + 1" if "sint (a :: int32) < 2147483647"
proof -
  have "sint (a + 1) = signed_take_bit 31 (sint a + 1)"
    by (simp add: sint_word_ariths)
  also have "\<dots> = sint a + 1"
    using that sint32_lower [of a] by (intro signed_take_bit_int_eq_self) simp_all
  finally show ?thesis .
qed

lemma sint_max32: "sint (2147483647 :: int32) = 2147483647"
  by simp

section \<open>Lists and folds\<close>

text \<open>
  A left fold whose step commutes on the elements it meets does not depend on their order.
\<close>

lemma fold_mset_eq:
  assumes "mset xs = mset ys"
    and "\<And>x y s. x \<in> set xs \<Longrightarrow> y \<in> set xs \<Longrightarrow> f x (f y s) = f y (f x s)"
  shows "fold f xs s = fold f ys s"
proof -
  have "fold f xs = fold f ys"
    using assms by (intro fold_multiset_equiv) (auto simp: fun_eq_iff)
  then show ?thesis by simp
qed

text \<open>Writing below a boundary leaves the part of the list above it alone.\<close>

lemma drop_list_update_below: "i < n \<Longrightarrow> drop n (xs[i := x]) = drop n xs"
  by simp

lemma filter_not_all_shorter:
  "x \<in> set xs \<Longrightarrow> \<not> P x \<Longrightarrow> length (filter P xs) < length xs"
  by (induction xs) (auto simp: le_imp_less_Suc)

lemma all_same_iff: "(\<exists>x. \<forall>a \<in> A. f a = x) \<longleftrightarrow> (\<forall>a \<in> A. \<forall>b \<in> A. f a = f b)"
proof (cases "A = {}")
  case False
  then obtain a where "a \<in> A" by blast
  then show ?thesis by (auto intro!: exI [of _ "f a"])
qed simp

text \<open>Sub-bags, with one element on one side only.\<close>

lemma add_mset_subset_drop:
  assumes "add_mset p N \<subseteq># M"
  shows "N \<subseteq># M"
proof -
  have "N \<subseteq># add_mset p N" by (simp add: subseteq_mset_def)
  then show ?thesis using assms by (rule subset_mset.order_trans)
qed

lemma subset_add_mset_notin:
  assumes "M \<subseteq># add_mset p N" and "p \<notin># M"
  shows "M \<subseteq># N"
  unfolding subseteq_mset_def
proof
  fix a
  show "count M a \<le> count N a"
  proof (cases "a = p")
    case True
    with assms(2) show ?thesis by (simp add: not_in_iff)
  next
    case False
    with mset_subset_eq_count [OF assms(1), of a] show ?thesis by simp
  qed
qed

end
