(* ===== verification/HLC.thy ===== *)
theory HLC
  imports Prelude
begin

text \<open>
  The hybrid logical clock of \<open>internal/hlc/hlc.go\<close>: timestamps and their three-way
  comparison, and the clock with its two stamping operations. The reading of the physical
  clock (\<open>wallNow\<close>) is an argument of the operations, so that every theorem holds for every
  behaviour of the machine's clock, standing still and running backwards included.
\<close>

section \<open>Timestamps\<close>

datatype Timestamp = Timestamp (WallTime: int64) (Logical: int32)

definition zero_Timestamp :: Timestamp where
  "zero_Timestamp = Timestamp 0 0"

definition maxLogical :: int32 where
  "maxLogical = 2147483647"

definition Compare :: "Timestamp \<Rightarrow> Timestamp \<Rightarrow> int" where
  "Compare a b =
     (if sint (WallTime a) < sint (WallTime b) then -1
      else if sint (WallTime a) > sint (WallTime b) then 1
      else if sint (Logical a) < sint (Logical b) then -1
      else if sint (Logical a) > sint (Logical b) then 1
      else 0)"

definition Before :: "Timestamp \<Rightarrow> Timestamp \<Rightarrow> bool" where
  "Before t other \<longleftrightarrow> Compare t other < 0"

definition After :: "Timestamp \<Rightarrow> Timestamp \<Rightarrow> bool" where
  "After t other \<longleftrightarrow> Compare t other > 0"

definition Equal :: "Timestamp \<Rightarrow> Timestamp \<Rightarrow> bool" where
  "Equal t other \<longleftrightarrow> Compare t other = 0"

definition AfterOrEqual :: "Timestamp \<Rightarrow> Timestamp \<Rightarrow> bool" where
  "AfterOrEqual t other \<longleftrightarrow> Compare t other \<ge> 0"

section \<open>The contract of a three-way comparison\<close>

text \<open>
  What the store, the buffer and the handlers rely on when they branch on the sign of
  \<^const>\<open>Compare\<close>: it takes three values, is antisymmetric and transitive, and 0 is equality.
\<close>

locale three_way =
  fixes cmp :: "'a \<Rightarrow> 'a \<Rightarrow> int"
  assumes cmp_range: "cmp a b \<in> {-1, 0, 1}"
    and cmp_antisym: "cmp b a = - cmp a b"
    and cmp_trans: "cmp a b \<le> 0 \<Longrightarrow> cmp b c \<le> 0 \<Longrightarrow> cmp a c \<le> 0"
    and cmp_zero: "cmp a b = 0 \<longleftrightarrow> a = b"
begin

lemma refl_zero: "cmp a a = 0"
  by (simp add: cmp_zero)

lemma total: "cmp a b \<le> 0 \<or> cmp b a \<le> 0"
  using cmp_antisym [of a b] by linarith

lemma le_antisym: "cmp a b \<le> 0 \<Longrightarrow> cmp b a \<le> 0 \<Longrightarrow> a = b"
  using cmp_antisym [of a b] cmp_zero [of a b] by linarith

lemma lt_iff: "cmp a b < 0 \<longleftrightarrow> cmp a b \<le> 0 \<and> \<not> cmp b a \<le> 0"
  using cmp_antisym [of a b] by linarith

lemma trichotomy: "cmp a b < 0 \<or> a = b \<or> cmp b a < 0"
  using total [of a b] cmp_zero [of a b] cmp_antisym [of a b] by linarith

end

text \<open>The nested comparison of two pairs of integers, as \<^const>\<open>Compare\<close> spells it out.\<close>

lemma lex_cmp_zero:
  "(if a < b then -1 else if a > b then 1 else if c < d then -1 else if c > d then 1 else 0 :: int) = 0
     \<longleftrightarrow> a = (b :: int) \<and> c = (d :: int)"
  by auto

lemma lex_cmp_le:
  "(if a < b then -1 else if a > b then 1 else if c < d then -1 else if c > d then 1 else 0 :: int) \<le> 0
     \<longleftrightarrow> a < (b :: int) \<or> a = b \<and> c \<le> (d :: int)"
  by auto

lemma lex_cmp_lt:
  "(if a < b then -1 else if a > b then 1 else if c < d then -1 else if c > d then 1 else 0 :: int) < 0
     \<longleftrightarrow> a < (b :: int) \<or> a = b \<and> c < (d :: int)"
  by auto

lemma lex_le_trans:
  fixes a b c d e f :: int
  assumes "a < b \<or> a = b \<and> c \<le> d" and "b < e \<or> b = e \<and> d \<le> f"
  shows "a < e \<or> a = e \<and> c \<le> f"
  using assms by (elim disjE conjE) simp_all

lemma Compare_range: "Compare a b \<in> {-1, 0, 1}"
  by (simp add: Compare_def)

lemma Compare_antisym: "Compare b a = - Compare a b"
  by (auto simp: Compare_def)

lemma Compare_zero: "Compare a b = 0 \<longleftrightarrow> a = b"
proof -
  have "Compare a b = 0 \<longleftrightarrow>
      sint (WallTime a) = sint (WallTime b) \<and> sint (Logical a) = sint (Logical b)"
    unfolding Compare_def by (rule lex_cmp_zero)
  then show ?thesis by (cases a; cases b) (simp add: sint_eq_iff)
qed

lemma Compare_trans:
  assumes "Compare a b \<le> 0" and "Compare b c \<le> 0"
  shows "Compare a c \<le> 0"
  using assms unfolding Compare_def lex_cmp_le by (rule lex_le_trans)

interpretation hlc_cmp: three_way Compare
  by (unfold_locales;
      (rule Compare_range Compare_antisym Compare_zero | erule (1) Compare_trans))

text \<open>The order that the comparison decides makes timestamps a linear order of the library.\<close>

instantiation Timestamp :: linorder
begin

definition less_eq_Timestamp :: "Timestamp \<Rightarrow> Timestamp \<Rightarrow> bool" where
  "less_eq_Timestamp a b \<longleftrightarrow> Compare a b \<le> 0"

definition less_Timestamp :: "Timestamp \<Rightarrow> Timestamp \<Rightarrow> bool" where
  "less_Timestamp a b \<longleftrightarrow> Compare a b < 0"

instance
proof
  fix x y z :: Timestamp
  show "x < y \<longleftrightarrow> x \<le> y \<and> \<not> y \<le> x"
    unfolding less_eq_Timestamp_def less_Timestamp_def by (rule hlc_cmp.lt_iff)
  show "x \<le> x"
    by (simp add: less_eq_Timestamp_def hlc_cmp.refl_zero)
  show "x \<le> y \<Longrightarrow> y \<le> z \<Longrightarrow> x \<le> z"
    unfolding less_eq_Timestamp_def by (rule hlc_cmp.cmp_trans)
  show "x \<le> y \<Longrightarrow> y \<le> x \<Longrightarrow> x = y"
    unfolding less_eq_Timestamp_def by (rule hlc_cmp.le_antisym)
  show "x \<le> y \<or> y \<le> x"
    unfolding less_eq_Timestamp_def by (rule hlc_cmp.total)
qed

end

lemma less_Timestamp_iff:
  "a < b \<longleftrightarrow> sint (WallTime a) < sint (WallTime b) \<or>
     (WallTime a = WallTime b \<and> sint (Logical a) < sint (Logical b))"
proof -
  have "WallTime a = WallTime b \<longleftrightarrow> sint (WallTime a) = sint (WallTime b)"
    by (simp add: sint_eq_iff)
  then show ?thesis unfolding less_Timestamp_def Compare_def lex_cmp_lt by simp
qed

lemma less_eq_Timestamp_iff:
  "a \<le> b \<longleftrightarrow> sint (WallTime a) < sint (WallTime b) \<or>
     (WallTime a = WallTime b \<and> sint (Logical a) \<le> sint (Logical b))"
proof -
  have "WallTime a = WallTime b \<longleftrightarrow> sint (WallTime a) = sint (WallTime b)"
    by (simp add: sint_eq_iff)
  then show ?thesis unfolding less_eq_Timestamp_def Compare_def lex_cmp_le by simp
qed

lemma Compare_le_0: "Compare a b \<le> 0 \<longleftrightarrow> a \<le> b"
  by (simp add: less_eq_Timestamp_def)

lemma Compare_lt_0: "Compare a b < 0 \<longleftrightarrow> a < b"
  by (simp add: less_Timestamp_def)

lemma Compare_ge_0: "Compare a b \<ge> 0 \<longleftrightarrow> b \<le> a"
  by (simp add: less_eq_Timestamp_def Compare_antisym [of a b])

lemma Compare_gt_0: "Compare a b > 0 \<longleftrightarrow> b < a"
  by (simp add: less_Timestamp_def Compare_antisym [of a b])

lemmas Compare_order = Compare_le_0 Compare_lt_0 Compare_ge_0 Compare_gt_0 Compare_zero

lemma AfterOrEqual_iff: "AfterOrEqual t other \<longleftrightarrow> other \<le> t"
  by (simp add: AfterOrEqual_def Compare_order)

section \<open>The clock\<close>

datatype hlc_error = LogicalOverflow | InvalidLogical

record Clock =
  clk_l :: int64
  clk_c :: int32

definition Clock_New :: "int64 \<Rightarrow> Clock" where
  "Clock_New now = \<lparr>clk_l = now, clk_c = 0\<rparr>"

definition Clock_Now :: "Clock \<Rightarrow> Timestamp" where
  "Clock_Now clk = Timestamp (clk_l clk) (clk_c clk)"

text \<open>
  The variadic \<open>max64\<close> reads \<open>vals[0]\<close>; its callers pass at least two values, so it takes the
  first one apart. The loop replaces the running maximum on a strictly greater value only.
\<close>

fun max64_loop :: "int64 \<Rightarrow> int64 list \<Rightarrow> int64" where
  "max64_loop m [] = m"
| "max64_loop m (v # vs) = max64_loop (if sint v > sint m then v else m) vs"

definition max64 :: "int64 \<Rightarrow> int64 list \<Rightarrow> int64" where
  "max64 v vs = max64_loop v vs"

definition Clock_Send :: "int64 \<Rightarrow> Clock \<Rightarrow> (hlc_error + Timestamp) \<times> Clock" where
  "Clock_Send now clk =
     (let lPrime = max64 (clk_l clk) [now] in
      if lPrime = clk_l clk then
        if sint (clk_c clk) \<ge> sint maxLogical then (Inl LogicalOverflow, clk)
        else (let c' = clk_c clk + 1
              in (Inr (Timestamp lPrime c'), \<lparr>clk_l = lPrime, clk_c = c'\<rparr>))
      else (Inr (Timestamp lPrime 0), \<lparr>clk_l = lPrime, clk_c = 0\<rparr>))"

definition Clock_Receive :: "int64 \<Rightarrow> Timestamp \<Rightarrow> Clock \<Rightarrow> (hlc_error + Timestamp) \<times> Clock" where
  "Clock_Receive now msg clk =
     (if sint (Logical msg) < 0 then (Inl InvalidLogical, clk)
      else
        let lPrime = max64 (clk_l clk) [WallTime msg, now] in
        if lPrime = clk_l clk then
          if sint (clk_c clk) \<ge> sint maxLogical then (Inl LogicalOverflow, clk)
          else (let c' = clk_c clk + 1
                in (Inr (Timestamp lPrime c'), \<lparr>clk_l = lPrime, clk_c = c'\<rparr>))
        else if lPrime = WallTime msg then
          if sint (Logical msg) \<ge> sint maxLogical then (Inl LogicalOverflow, clk)
          else (let c' = Logical msg + 1
                in (Inr (Timestamp lPrime c'), \<lparr>clk_l = lPrime, clk_c = c'\<rparr>))
        else (Inr (Timestamp lPrime 0), \<lparr>clk_l = lPrime, clk_c = 0\<rparr>))"

text \<open>A run of the clock: each operation with the physical time it reads.\<close>

datatype clock_op = SendOp int64 | ReceiveOp int64 Timestamp

fun clock_step :: "clock_op \<Rightarrow> Clock \<Rightarrow> (hlc_error + Timestamp) \<times> Clock" where
  "clock_step (SendOp now) clk = Clock_Send now clk"
| "clock_step (ReceiveOp now msg) clk = Clock_Receive now msg clk"

fun clock_run :: "clock_op list \<Rightarrow> Clock \<Rightarrow> Timestamp list \<times> Clock" where
  "clock_run [] clk = ([], clk)"
| "clock_run (op # ops) clk =
     (case clock_step op clk of
        (Inl _, clk') \<Rightarrow> clock_run ops clk'
      | (Inr ts, clk') \<Rightarrow> (case clock_run ops clk' of (tss, clk'') \<Rightarrow> (ts # tss, clk'')))"

section \<open>What the maximum loop computes\<close>

lemma sint_max64_loop: "sint (max64_loop m vs) = fold (\<lambda>v. max (sint v)) vs (sint m)"
  by (induction m vs rule: max64_loop.induct) (auto simp: max_def)

lemma sint_max64_2: "sint (max64 a [b]) = max (sint a) (sint b)"
  by (simp add: max64_def sint_max64_loop max_def)

lemma sint_max64_3: "sint (max64 a [b, d]) = max (sint a) (max (sint b) (sint d))"
  by (simp add: max64_def sint_max64_loop max_def)

lemma max64_eq_iff: "max64 a vs = b \<longleftrightarrow> sint (max64 a vs) = sint b"
  by (simp add: sint_eq_iff)

lemmas max64_simps = max64_eq_iff sint_max64_2 sint_max64_3

section \<open>The branches of the two stamping operations\<close>

lemma sint_maxLogical: "sint maxLogical = 2147483647"
  by (simp add: maxLogical_def)

text \<open>
  One equation per operation, over the signed readings: the branch taken depends only on which
  of the clock, the message and the physical clock is furthest ahead, and no increment wraps.
\<close>

lemma Clock_Send_cases:
  "Clock_Send now clk =
     (if sint now \<le> sint (clk_l clk) then
        if sint (clk_c clk) = 2147483647 then (Inl LogicalOverflow, clk)
        else (Inr (Timestamp (clk_l clk) (clk_c clk + 1)), \<lparr>clk_l = clk_l clk, clk_c = clk_c clk + 1\<rparr>)
      else (Inr (Timestamp now 0), \<lparr>clk_l = now, clk_c = 0\<rparr>))"
proof -
  have top: "sint (clk_c clk) \<ge> 2147483647 \<longleftrightarrow> sint (clk_c clk) = 2147483647"
    using sint32_upper [of "clk_c clk"] by auto
  have "max64 (clk_l clk) [now] = (if sint now \<le> sint (clk_l clk) then clk_l clk else now)"
    by (simp add: max64_def)
  then show ?thesis
    by (auto simp: Clock_Send_def Let_def sint_maxLogical top)
qed

lemma Clock_Receive_cases:
  "Clock_Receive now msg clk =
     (let m = max (sint (WallTime msg)) (sint now) in
      if sint (Logical msg) < 0 then (Inl InvalidLogical, clk)
      else if m \<le> sint (clk_l clk) then
        if sint (clk_c clk) = 2147483647 then (Inl LogicalOverflow, clk)
        else (Inr (Timestamp (clk_l clk) (clk_c clk + 1)), \<lparr>clk_l = clk_l clk, clk_c = clk_c clk + 1\<rparr>)
      else if sint now \<le> sint (WallTime msg) then
        if sint (Logical msg) = 2147483647 then (Inl LogicalOverflow, clk)
        else (Inr (Timestamp (WallTime msg) (Logical msg + 1)),
              \<lparr>clk_l = WallTime msg, clk_c = Logical msg + 1\<rparr>)
      else (Inr (Timestamp now 0), \<lparr>clk_l = now, clk_c = 0\<rparr>))"
proof -
  have top: "sint x \<ge> 2147483647 \<longleftrightarrow> sint x = 2147483647" for x :: int32
    using sint32_upper [of x] by auto
  have "max64 (clk_l clk) [WallTime msg, now] =
      (if max (sint (WallTime msg)) (sint now) \<le> sint (clk_l clk) then clk_l clk
       else if sint now \<le> sint (WallTime msg) then WallTime msg else now)"
    by (auto simp: max64_def)
  then show ?thesis
    by (auto simp: Clock_Receive_def Let_def sint_maxLogical top max_def)
qed

section \<open>Monotonicity of the clock\<close>

lemma Clock_Now_simp: "Clock_Now \<lparr>clk_l = w, clk_c = i\<rparr> = Timestamp w i"
  by (simp add: Clock_Now_def)

lemma logical_below_top: "sint (x :: int32) \<noteq> 2147483647 \<Longrightarrow> sint x < 2147483647"
  using sint32_upper [of x] by simp

lemma Clock_Send_ok:
  assumes "Clock_Send now clk = (Inr ts, clk')"
  shows "Clock_Now clk < ts" and "Clock_Now clk' = ts" and "sint now \<le> sint (WallTime ts)"
  using assms
  by (auto simp: Clock_Send_cases Clock_Now_def less_Timestamp_iff sint_succ32 logical_below_top
      split: if_splits)

lemma Clock_Send_error: "Clock_Send now clk = (Inl e, clk') \<Longrightarrow> clk' = clk \<and> e = LogicalOverflow"
  by (auto simp: Clock_Send_cases split: if_splits)

lemma Clock_Receive_ok:
  assumes "Clock_Receive now msg clk = (Inr ts, clk')"
  shows "Clock_Now clk < ts" and "Clock_Now clk' = ts" and "sint now \<le> sint (WallTime ts)"
    and "sint (WallTime msg) \<le> sint (WallTime ts)"
  using assms
  by (auto simp: Clock_Receive_cases Clock_Now_def less_Timestamp_iff sint_succ32 logical_below_top
      Let_def split: if_splits)

lemma Clock_Receive_error: "Clock_Receive now msg clk = (Inl e, clk') \<Longrightarrow> clk' = clk"
  by (auto simp: Clock_Receive_cases Let_def split: if_splits)

text \<open>
  The case the switch of \<open>Receive\<close> does not treat apart: the clock and the message tie for the
  furthest wall time and the message's counter is ahead of the clock's.
\<close>

definition tied_behind :: "int64 \<Rightarrow> Timestamp \<Rightarrow> Clock \<Rightarrow> bool" where
  "tied_behind now msg clk \<longleftrightarrow>
     WallTime msg = clk_l clk \<and> sint now \<le> sint (clk_l clk) \<and> sint (clk_c clk) < sint (Logical msg)"

lemma Clock_Receive_dominates:
  assumes "Clock_Receive now msg clk = (Inr ts, clk')" and "\<not> tied_behind now msg clk"
  shows "msg < ts"
proof -
  have "WallTime msg = clk_l clk \<longleftrightarrow> sint (WallTime msg) = sint (clk_l clk)"
    by (simp add: sint_eq_iff)
  then show ?thesis
    using assms
    by (auto simp: Clock_Receive_cases tied_behind_def less_Timestamp_iff sint_succ32
        logical_below_top Let_def split: if_splits)
qed

lemma clock_step_ok:
  assumes "clock_step op clk = (Inr ts, clk')"
  shows "Clock_Now clk < ts" and "Clock_Now clk' = ts"
  using assms by (cases op; auto dest: Clock_Send_ok Clock_Receive_ok)+

lemma clock_step_error: "clock_step op clk = (Inl e, clk') \<Longrightarrow> clk' = clk"
  by (cases op) (auto dest: Clock_Send_error Clock_Receive_error)

definition logical_nonneg :: "Clock \<Rightarrow> bool" where
  "logical_nonneg clk \<longleftrightarrow> 0 \<le> sint (clk_c clk)"

lemma clock_step_nonneg:
  assumes "clock_step op clk = (r, clk')" and "logical_nonneg clk"
  shows "logical_nonneg clk'"
proof -
  have succ: "0 \<le> sint (x + 1)" if "0 \<le> sint x" "sint x \<noteq> 2147483647" for x :: int32
    using that by (simp add: sint_succ32 logical_below_top)
  show ?thesis
    using assms succ
    by (cases op) (auto simp: logical_nonneg_def Clock_Send_cases Clock_Receive_cases Let_def
        split: if_splits)
qed

text \<open>The wall times that an operation brings; and those of the operations that a run accepts.\<close>

fun clock_readings :: "clock_op \<Rightarrow> int list" where
  "clock_readings (SendOp now) = [sint now]"
| "clock_readings (ReceiveOp now msg) = [sint now, sint (WallTime msg)]"

fun accepted_readings :: "clock_op list \<Rightarrow> Clock \<Rightarrow> int list" where
  "accepted_readings [] clk = []"
| "accepted_readings (op # ops) clk =
     (case clock_step op clk of
        (Inl _, clk') \<Rightarrow> accepted_readings ops clk'
      | (Inr _, clk') \<Rightarrow> clock_readings op @ accepted_readings ops clk')"

lemma clock_step_wall:
  "clock_step op clk = (Inr ts, clk') \<Longrightarrow> sint (clk_l clk') = Max (set (sint (clk_l clk) # clock_readings op))"
  by (cases op) (auto simp: Clock_Send_cases Clock_Receive_cases Let_def split: if_splits)

lemma Max_set_append: "Max (set (Max (set (x # xs)) # ys)) = Max (set (x # xs @ ys))"
  by (cases "ys = []") (simp_all add: Max_Un Max_insert max.assoc [symmetric], cases "xs = []",
    simp_all add: Max_Un max.assoc)

section \<open>Properties\<close>

text \<open>
  C14: Every timestamp the clock issues is strictly greater than all timestamps it issued before
  and than its starting point, whatever the operations, the messages and the readings of the
  physical clock (which may stand still or jump backwards); an operation that fails is skipped;
  and the clock ends at the last timestamp it issued.
\<close>

theorem clock_run_increasing:
  "case clock_run ops clk of (tss, clk') \<Rightarrow>
     sorted_wrt (<) (Clock_Now clk # tss) \<and> Clock_Now clk' = last (Clock_Now clk # tss)"
proof (induction ops arbitrary: clk)
  case Nil
  show ?case by simp
next
  case (Cons op ops)
  obtain r clk1 where step: "clock_step op clk = (r, clk1)" by fastforce
  obtain tss clk2 where run: "clock_run ops clk1 = (tss, clk2)" by fastforce
  have IH: "sorted_wrt (<) (Clock_Now clk1 # tss)" "Clock_Now clk2 = last (Clock_Now clk1 # tss)"
    using Cons.IH [of clk1] run by auto
  show ?case
  proof (cases r)
    case (Inl e)
    with step run IH show ?thesis by (auto dest: clock_step_error)
  next
    case (Inr ts)
    with step have "Clock_Now clk < ts" "Clock_Now clk1 = ts"
      by (auto dest: clock_step_ok)
    with IH Inr step run show ?thesis by (auto intro: less_trans)
  qed
qed

text \<open>
  A successful \<open>Receive\<close> strictly advances the local clock and reaches the physical clock,
  and its result exceeds the received timestamp except in exactly one case: the message has the
  clock's own wall time, the physical clock is not ahead of it, and the message's logical counter
  is ahead of the clock's. There the first case of the switch ignores the message's counter.
\<close>

theorem Receive_exceeds_message_iff:
  assumes "Clock_Receive now msg clk = (Inr ts, clk')"
  shows "Clock_Now clk < ts \<and> Clock_Now clk' = ts \<and> sint now \<le> sint (WallTime ts) \<and>
    (msg < ts \<longleftrightarrow> \<not> tied_behind now msg clk)"
proof -
  have "ts \<le> msg" if "tied_behind now msg clk"
    using that assms
    by (auto simp: tied_behind_def Clock_Receive_cases less_eq_Timestamp_iff sint_succ32
        logical_below_top split: if_splits)
  with Clock_Receive_ok [OF assms] Clock_Receive_dominates [OF assms] show ?thesis
    by (auto simp: not_less [symmetric])
qed

theorem Receive_exceeds_message_iff_witness:
  "Clock_Receive 90 (Timestamp 100 5) \<lparr>clk_l = 100, clk_c = 0\<rparr> =
     (Inr (Timestamp 100 1), \<lparr>clk_l = 100, clk_c = 1\<rparr>) \<and>
   \<not> Timestamp 100 5 < Timestamp 100 1"
proof -
  have run: "Clock_Receive 90 (Timestamp 100 5) \<lparr>clk_l = 100, clk_c = 0\<rparr> =
      (Inr (Timestamp 100 1), \<lparr>clk_l = 100, clk_c = 1\<rparr>)"
    by (simp add: Clock_Receive_cases)
  have "tied_behind 90 (Timestamp 100 5) \<lparr>clk_l = 100, clk_c = 0\<rparr>"
    by (simp add: tied_behind_def)
  with run Receive_exceeds_message_iff [OF run] show ?thesis by simp
qed

text \<open>The counter that an operation needs, as an integer; a message may bring one out of range.\<close>

fun next_counter :: "clock_op \<Rightarrow> Clock \<Rightarrow> int" where
  "next_counter (SendOp now) clk = (if sint now \<le> sint (clk_l clk) then sint (clk_c clk) + 1 else 0)"
| "next_counter (ReceiveOp now msg) clk =
     (if max (sint (WallTime msg)) (sint now) \<le> sint (clk_l clk) then sint (clk_c clk) + 1
      else if sint now \<le> sint (WallTime msg) then sint (Logical msg) + 1 else 0)"

fun invalid_op :: "clock_op \<Rightarrow> bool" where
  "invalid_op (SendOp now) = False"
| "invalid_op (ReceiveOp now msg) = (sint (Logical msg) < 0)"

text \<open>
  C40: The logical counter never wraps around, and the clock refuses exactly what it must. On a clock
  with a non-negative counter a message with a negative counter is refused as invalid; any other
  \<open>Send\<close> or \<open>Receive\<close> whose next counter, as an integer, does not fit into 32 bits is refused with the
  overflow error; both leave the clock as it is. Every other operation succeeds, with exactly that
  counter, which is not negative either.
\<close>

theorem logical_counter_bounds:
  assumes "0 \<le> sint (clk_c clk)"
  shows "if invalid_op op then clock_step op clk = (Inl InvalidLogical, clk)
    else if next_counter op clk > 2 ^ 31 - 1 then clock_step op clk = (Inl LogicalOverflow, clk)
    else \<exists>ts clk'. clock_step op clk = (Inr ts, clk') \<and> clk_c clk' = Logical ts \<and>
      sint (Logical ts) = next_counter op clk \<and> 0 \<le> next_counter op clk"
proof -
  have top: "sint x = 2147483647 \<longleftrightarrow> sint x + 1 > 2147483647" for x :: int32
    using sint32_upper [of x] by auto
  show ?thesis
    using assms
    by (cases op) (auto simp: Clock_Send_cases Clock_Receive_cases Let_def top sint_succ32)
qed

theorem logical_counter_bounds_witness:
  "clock_step (SendOp 7) \<lparr>clk_l = 9, clk_c = 2147483647\<rparr> = (Inl LogicalOverflow, \<lparr>clk_l = 9, clk_c = 2147483647\<rparr>) \<and>
   clock_step (ReceiveOp 7 (Timestamp 8 3)) \<lparr>clk_l = 9, clk_c = 2147483647\<rparr> =
     (Inl LogicalOverflow, \<lparr>clk_l = 9, clk_c = 2147483647\<rparr>)"
proof -
  let ?clk = "\<lparr>clk_l = 9, clk_c = 2147483647\<rparr> :: Clock"
  have "0 \<le> sint (clk_c ?clk)" by simp
  from logical_counter_bounds [OF this, of "SendOp 7"] logical_counter_bounds [OF this, of "ReceiveOp 7 (Timestamp 8 3)"]
  show ?thesis by simp
qed

text \<open>
  C15: The clock never runs ahead: after any run its wall time is the largest of its first one and
  the physical readings and message wall times of the operations it accepted, and an operation it
  refused had brought nothing larger, unless it was a message with a counter out of range.
\<close>

theorem clock_tracks_maximum:
  "sint (clk_l (snd (clock_run ops clk))) = Max (set (sint (clk_l clk) # accepted_readings ops clk)) \<and>
   (case clock_step op clk of
      (Inl e, clk') \<Rightarrow> clk' = clk \<and>
        (Max (set (clock_readings op)) \<le> sint (clk_l clk) \<or>
         (\<exists>now msg. op = ReceiveOp now msg \<and> (sint (Logical msg) < 0 \<or> sint (Logical msg) = 2147483647)))
    | (Inr ts, clk') \<Rightarrow> sint (WallTime ts) = Max (set (sint (clk_l clk) # clock_readings op)))"
proof
  show "sint (clk_l (snd (clock_run ops clk))) = Max (set (sint (clk_l clk) # accepted_readings ops clk))"
  proof (induction ops arbitrary: clk)
    case Nil
    show ?case by simp
  next
    case (Cons op ops)
    obtain r clk1 where step: "clock_step op clk = (r, clk1)" by (rule prod.exhaust)
    show ?case
    proof (cases r)
      case (Inl e)
      with step Cons.IH [of clk] show ?thesis by (auto dest: clock_step_error)
    next
      case (Inr ts)
      with step have wall: "sint (clk_l clk1) = Max (set (sint (clk_l clk) # clock_readings op))"
        by (intro clock_step_wall) simp
      from step Inr Cons.IH [of clk1] Max_set_append [of "sint (clk_l clk)" "clock_readings op"] show ?thesis
        unfolding wall by (simp add: split_beta)
    qed
  qed
  show "case clock_step op clk of
      (Inl e, clk') \<Rightarrow> clk' = clk \<and>
        (Max (set (clock_readings op)) \<le> sint (clk_l clk) \<or>
         (\<exists>now msg. op = ReceiveOp now msg \<and> (sint (Logical msg) < 0 \<or> sint (Logical msg) = 2147483647)))
    | (Inr ts, clk') \<Rightarrow> sint (WallTime ts) = Max (set (sint (clk_l clk) # clock_readings op))"
    by (cases op) (auto simp: Clock_Send_cases Clock_Receive_cases Let_def)
qed

end
