(* ===== verification/Store.thy ===== *)
theory Store
  imports HLC
begin

text \<open>
  The versioned store of \<open>internal/store/store.go\<close>. Every operation of the source holds the
  store's lock from its first to its last statement, so each is one function from the state
  before to the state after. A lookup that reports \<open>(zero, false)\<close> in Go is \<^const>\<open>None\<close>.
\<close>

record Dependency =
  DepKey :: key
  MinTS :: Timestamp

record Value =
  Data :: bytes
  ValTS :: Timestamp
  Deps :: "Dependency list"
  Deleted :: bool

record Store =
  store_data :: "key \<rightharpoonup> Value"

definition Store_New :: Store where
  "Store_New = \<lparr>store_data = Map.empty\<rparr>"

definition Store_Put :: "key \<Rightarrow> Value \<Rightarrow> Store \<Rightarrow> Store" where
  "Store_Put k v s = s\<lparr>store_data := (store_data s)(k \<mapsto> v)\<rparr>"

definition Store_Apply :: "key \<Rightarrow> Value \<Rightarrow> Store \<Rightarrow> bool \<times> Store" where
  "Store_Apply k v s =
     (case store_data s k of
        Some cur \<Rightarrow>
          if Compare (ValTS v) (ValTS cur) \<le> 0 then (False, s)
          else (True, s\<lparr>store_data := (store_data s)(k \<mapsto> v)\<rparr>)
      | None \<Rightarrow> (True, s\<lparr>store_data := (store_data s)(k \<mapsto> v)\<rparr>))"

definition Store_Get :: "key \<Rightarrow> Store \<Rightarrow> Value option" where
  "Store_Get k s =
     (case store_data s k of
        None \<Rightarrow> None
      | Some v \<Rightarrow> if Deleted v then None else Some v)"

definition Store_GetVersion :: "key \<Rightarrow> Store \<Rightarrow> Timestamp option" where
  "Store_GetVersion k s = map_option ValTS (store_data s k)"

definition tombstone :: "Timestamp \<Rightarrow> Value" where
  "tombstone ts = \<lparr>Data = [], ValTS = ts, Deps = [], Deleted = True\<rparr>"

definition Store_Delete :: "key \<Rightarrow> Timestamp \<Rightarrow> Store \<Rightarrow> Store" where
  "Store_Delete k ts s = s\<lparr>store_data := (store_data s)(k \<mapsto> tombstone ts)\<rparr>"

definition Store_ApplyDelete :: "key \<Rightarrow> Timestamp \<Rightarrow> Store \<Rightarrow> bool \<times> Store" where
  "Store_ApplyDelete k ts s =
     (let v = tombstone ts in
      case store_data s k of
        Some cur \<Rightarrow>
          if Compare ts (ValTS cur) \<le> 0 then (False, s)
          else (True, s\<lparr>store_data := (store_data s)(k \<mapsto> v)\<rparr>)
      | None \<Rightarrow> (True, s\<lparr>store_data := (store_data s)(k \<mapsto> v)\<rparr>))"

section \<open>The last-writer-wins contract\<close>

text \<open>
  What the buffer and the replication handler rely on when they apply a replicated write:
  the entry of the key becomes the newer of the current one and the incoming one, where an
  incoming write that ties with the current entry loses, and no other key changes. \<open>mk\<close> is the
  form in which an incoming write is stored.
\<close>

locale lww_register =
  fixes lookup :: "'s \<Rightarrow> 'k \<Rightarrow> 'v option"
    and apply_write :: "'k \<Rightarrow> 'w \<Rightarrow> 's \<Rightarrow> 's"
    and mk :: "'w \<Rightarrow> 'v"
    and ts :: "'v \<Rightarrow> 't::linorder"
  assumes lookup_same: "lookup (apply_write k w s) k =
      (case lookup s k of
         None \<Rightarrow> Some (mk w)
       | Some cur \<Rightarrow> Some (if ts (mk w) \<le> ts cur then cur else mk w))"
    and lookup_other: "k' \<noteq> k \<Longrightarrow> lookup (apply_write k w s) k' = lookup s k'"
    and lookup_ext: "(\<And>k. lookup s k = lookup s' k) \<Longrightarrow> s = s'"
begin

text \<open>The version of a key; an absent key is below every timestamp.\<close>

definition version :: "'s \<Rightarrow> 'k \<Rightarrow> 't option" where
  "version s k = map_option ts (lookup s k)"

definition at_least :: "'s \<Rightarrow> 'k \<Rightarrow> 't \<Rightarrow> bool" where
  "at_least s k t \<longleftrightarrow> (\<exists>t'. version s k = Some t' \<and> t \<le> t')"

lemma at_least_refl: "version s k = Some t \<Longrightarrow> at_least s k t"
  by (simp add: at_least_def)

lemma apply_at_least: "at_least (apply_write k w s) k (ts (mk w))"
  by (auto simp: at_least_def version_def lookup_same split: option.splits)

lemma apply_mono: "at_least s k' t \<Longrightarrow> at_least (apply_write k w s) k' t"
  by (cases "k' = k")
    (auto simp: at_least_def version_def lookup_same lookup_other split: option.splits)

lemma apply_idem: "apply_write k w (apply_write k w s) = apply_write k w s"
proof (rule lookup_ext)
  fix k'
  show "lookup (apply_write k w (apply_write k w s)) k' = lookup (apply_write k w s) k'"
    by (cases "k' = k") (auto simp: lookup_same lookup_other split: option.splits)
qed

text \<open>Two writes commute unless they write one key with one timestamp and different contents.\<close>

definition compatible :: "'k \<times> 'w \<Rightarrow> 'k \<times> 'w \<Rightarrow> bool" where
  "compatible x y \<longleftrightarrow>
     (fst x = fst y \<and> ts (mk (snd x)) = ts (mk (snd y)) \<longrightarrow> mk (snd x) = mk (snd y))"

lemma lookup_twice_same:
  assumes "ts (mk w1) = ts (mk w2) \<longrightarrow> mk w1 = mk w2"
  shows "lookup (apply_write k w1 (apply_write k w2 s)) k =
         lookup (apply_write k w2 (apply_write k w1 s)) k"
proof (cases "ts (mk w1)" "ts (mk w2)" rule: linorder_cases)
  case less
  then show ?thesis by (cases "lookup s k") (auto simp: lookup_same)
next
  case equal
  with assms show ?thesis by (cases "lookup s k") (simp_all add: lookup_same)
next
  case greater
  then show ?thesis by (cases "lookup s k") (auto simp: lookup_same)
qed

lemma lookup_twice_other:
  assumes "k1 \<noteq> k2"
  shows "lookup (apply_write k1 w1 (apply_write k2 w2 s)) k =
         lookup (apply_write k2 w2 (apply_write k1 w1 s)) k"
proof -
  consider "k = k1" | "k = k2" | "k \<noteq> k1" "k \<noteq> k2" by blast
  then show ?thesis
  proof cases
    case 1
    with assms show ?thesis by (simp add: lookup_same lookup_other)
  next
    case 2
    with assms show ?thesis by (simp add: lookup_same lookup_other)
  next
    case 3
    then show ?thesis by (simp add: lookup_other)
  qed
qed

lemma apply_commute:
  assumes "compatible (k1, w1) (k2, w2)"
  shows "apply_write k1 w1 (apply_write k2 w2 s) = apply_write k2 w2 (apply_write k1 w1 s)"
proof (rule lookup_ext)
  fix k
  show "lookup (apply_write k1 w1 (apply_write k2 w2 s)) k =
        lookup (apply_write k2 w2 (apply_write k1 w1 s)) k"
  proof (cases "k1 = k2 \<and> k = k2")
    case True
    with assms have "ts (mk w1) = ts (mk w2) \<longrightarrow> mk w1 = mk w2"
      by (simp add: compatible_def)
    from lookup_twice_same [OF this] True show ?thesis by simp
  next
    case False
    then show ?thesis by (cases "k1 = k2") (simp_all add: lookup_other lookup_twice_other)
  qed
qed

text \<open>The order on stores in which every key's version may only grow.\<close>

definition dominated :: "'s \<Rightarrow> 's \<Rightarrow> bool" where
  "dominated s s' \<longleftrightarrow> (\<forall>k t. at_least s k t \<longrightarrow> at_least s' k t)"

lemma dominatedD: "dominated s s' \<Longrightarrow> at_least s k t \<Longrightarrow> at_least s' k t"
  by (simp add: dominated_def)

lemma dominated_refl: "dominated s s"
  by (simp add: dominated_def)

lemma dominated_trans: "dominated s s' \<Longrightarrow> dominated s' s'' \<Longrightarrow> dominated s s''"
  by (simp add: dominated_def)

lemma dominated_apply: "dominated s (apply_write k w s)"
  by (simp add: dominated_def apply_mono)

lemma apply_dominated:
  assumes "dominated s s'" and "at_least s' k (ts (mk w))"
  shows "dominated (apply_write k w s) s'"
  unfolding dominated_def
proof (intro allI impI)
  fix k' t
  assume le: "at_least (apply_write k w s) k' t"
  show "at_least s' k' t"
  proof (cases "k' = k \<and> version (apply_write k w s) k' = Some (ts (mk w))")
    case True
    with le assms(2) show ?thesis by (auto simp: at_least_def intro: order_trans)
  next
    case False
    then have "version (apply_write k w s) k' = version s k'"
      by (cases "k' = k")
        (auto simp: version_def lookup_same lookup_other split: option.splits if_splits)
    with le have "at_least s k' t" by (simp add: at_least_def)
    with assms(1) show ?thesis by (rule dominatedD)
  qed
qed

lemma dominated_antisym:
  assumes "dominated s s'" and "dominated s' s"
  shows "version s k = version s' k"
proof (cases "version s k")
  case None
  show ?thesis
  proof (cases "version s' k")
    case (Some t)
    then have "at_least s k t" using assms(2) at_least_refl by (auto simp: dominated_def)
    with None show ?thesis by (simp add: at_least_def)
  qed (use None in simp)
next
  case (Some t)
  then have "at_least s' k t" using assms(1) at_least_refl by (auto simp: dominated_def)
  then obtain t' where t': "version s' k = Some t'" "t \<le> t'" by (auto simp: at_least_def)
  then have "at_least s k t'" using assms(2) at_least_refl by (auto simp: dominated_def)
  with Some t' show ?thesis by (simp add: at_least_def)
qed

definition apply_all :: "('k \<times> 'w) list \<Rightarrow> 's \<Rightarrow> 's" where
  "apply_all ws = fold (\<lambda>(k, w). apply_write k w) ws"

lemma apply_all_simps:
  "apply_all [] s = s"
  "apply_all (x # ws) s = apply_all ws (apply_write (fst x) (snd x) s)"
  by (simp_all add: apply_all_def split_beta)

text \<open>Any two delivery orders of the same writes end in the same store.\<close>

lemma delivery_order_irrelevant:
  assumes "mset ws = mset ws'"
    and "\<And>x y. x \<in> set ws \<Longrightarrow> y \<in> set ws \<Longrightarrow> compatible x y"
  shows "apply_all ws s = apply_all ws' s"
  unfolding apply_all_def using assms
  by (intro fold_mset_eq) (auto simp: split_beta intro!: apply_commute)

lemma apply_all_mono: "at_least s k t \<Longrightarrow> at_least (apply_all ws s) k t"
  by (induction ws arbitrary: s) (auto simp: apply_all_simps apply_mono)

lemma apply_all_at_least: "(k, w) \<in> set ws \<Longrightarrow> at_least (apply_all ws s) k (ts (mk w))"
  by (induction ws arbitrary: s) (auto simp: apply_all_simps apply_all_mono apply_at_least)

text \<open>Redelivery of a write that has been applied changes nothing.\<close>

lemma apply_absorbed:
  assumes "at_least s k (ts (mk w))"
  shows "apply_write k w s = s"
proof (rule lookup_ext)
  fix k'
  show "lookup (apply_write k w s) k' = lookup s k'"
    using assms by (cases "k' = k")
      (auto simp: at_least_def version_def lookup_same lookup_other split: option.splits)
qed

lemma redelivery: "(k, w) \<in> set ws \<Longrightarrow> apply_write k w (apply_all ws s) = apply_all ws s"
  by (rule apply_absorbed) (rule apply_all_at_least)

end

section \<open>The store keeps the contract\<close>

lemma store_eqI: "(\<And>k. store_data s k = store_data s' k) \<Longrightarrow> s = (s' :: Store)"
  by (cases s; cases s') (auto simp: fun_eq_iff)

lemma Store_Apply_lookup [store_simps]:
  "store_data (snd (Store_Apply k v s)) k' =
     (if k' = k then
        (case store_data s k of
           None \<Rightarrow> Some v
         | Some cur \<Rightarrow> Some (if ValTS v \<le> ValTS cur then cur else v))
      else store_data s k')"
  by (auto simp: Store_Apply_def Compare_order split: option.splits)

lemma Store_ApplyDelete_is_Apply: "Store_ApplyDelete k ts s = Store_Apply k (tombstone ts) s"
  by (simp add: Store_ApplyDelete_def Store_Apply_def tombstone_def Let_def split: option.splits)

lemma Store_Put_lookup [store_simps]:
  "store_data (Store_Put k v s) k' = (if k' = k then Some v else store_data s k')"
  by (simp add: Store_Put_def)

lemma Store_Delete_is_Put: "Store_Delete k ts s = Store_Put k (tombstone ts) s"
  by (simp add: Store_Delete_def Store_Put_def)

lemma tombstone_sel [store_simps]:
  "Data (tombstone ts) = []" "ValTS (tombstone ts) = ts"
  "Deps (tombstone ts) = []" "Deleted (tombstone ts)"
  by (simp_all add: tombstone_def)

text \<open>The three laws, for each of the two operations that apply a replicated write.\<close>

lemma Store_Apply_same:
  "store_data (snd (Store_Apply k v s)) k =
     (case store_data s k of
        None \<Rightarrow> Some v
      | Some cur \<Rightarrow> Some (if ValTS v \<le> ValTS cur then cur else v))"
  by (simp add: store_simps)

lemma Store_Apply_other:
  "k' \<noteq> k \<Longrightarrow> store_data (snd (Store_Apply k v s)) k' = store_data s k'"
  by (simp add: store_simps)

interpretation lww_put: lww_register store_data "\<lambda>k v s. snd (Store_Apply k v s)" "\<lambda>v. v" ValTS
  by (unfold_locales; (rule Store_Apply_same | erule Store_Apply_other | rule store_eqI; simp))

interpretation lww_del: lww_register store_data "\<lambda>k t s. snd (Store_ApplyDelete k t s)" tombstone ValTS
  unfolding Store_ApplyDelete_is_Apply
  by (unfold_locales; (rule Store_Apply_same | erule Store_Apply_other | rule store_eqI; simp))

end
