(* ===== verification/Buffer.thy ===== *)
theory Buffer
  imports Store "HOL-Library.Sublist"
begin

text \<open>
  The causal buffer of \<open>internal/buffer/buffer.go\<close>. The source's buffer holds a pointer to the
  node's store; here every operation takes that store and returns it, beside the list of held
  writes. The buffer's lock is held over each exported operation, and so each is one function.
\<close>

record pendingWrite =
  pw_key :: key
  pw_val :: Value

record Buffer =
  held :: "pendingWrite list"

definition Buffer_New :: Buffer where
  "Buffer_New = \<lparr>held = []\<rparr>"

fun depsSatisfied :: "Store \<Rightarrow> Dependency list \<Rightarrow> bool" where
  "depsSatisfied s [] = True"
| "depsSatisfied s (dep # deps) =
     (let ts = (case Store_GetVersion (DepKey dep) s of
                  None \<Rightarrow> zero_Timestamp
                | Some ts \<Rightarrow> ts)
      in if \<not> AfterOrEqual ts (MinTS dep) then False else depsSatisfied s deps)"

definition applyLocked :: "key \<Rightarrow> Value \<Rightarrow> Store \<Rightarrow> Store" where
  "applyLocked k v s =
     (if Deleted v then snd (Store_ApplyDelete k (ValTS v) s)
      else snd (Store_Apply k v s))"

text \<open>
  The body of \<open>drainLocked\<close>'s outer loop. The source filters in place: \<open>remaining := b.held[:0]\<close>
  shares the array that the \<open>range\<close> loop is reading, so \<open>append\<close> writes slot \<open>w\<close> of that array
  while slot \<open>i\<close> is being read. The model keeps the one array and both indices.
\<close>

function drain_scan ::
  "nat \<Rightarrow> pendingWrite list \<Rightarrow> nat \<Rightarrow> Store \<Rightarrow> bool \<Rightarrow> pendingWrite list \<times> Store \<times> bool" where
  "drain_scan i arr w s progressed =
     (if i < length arr then
        (let p = arr ! i in
         if depsSatisfied s (Deps (pw_val p))
         then drain_scan (Suc i) arr w (applyLocked (pw_key p) (pw_val p) s) True
         else drain_scan (Suc i) (arr[w := p]) (Suc w) s progressed)
      else (take w arr, s, progressed))"
  by pat_completeness auto
termination
  by (relation "measure (\<lambda>(i, arr, w, s, progressed). length arr - i)") auto

declare drain_scan.simps [simp del]

text \<open>The same pass over lists: the writes that stay, the store, and whether any was applied.\<close>

fun drain_pass :: "pendingWrite list \<Rightarrow> Store \<Rightarrow> pendingWrite list \<times> Store \<times> bool" where
  "drain_pass [] s = ([], s, False)"
| "drain_pass (p # ps) s =
     (if depsSatisfied s (Deps (pw_val p)) then
        (case drain_pass ps (applyLocked (pw_key p) (pw_val p) s) of
           (r, s', _) \<Rightarrow> (r, s', True))
      else
        (case drain_pass ps s of (r, s', b) \<Rightarrow> (p # r, s', b)))"

text \<open>
  The in-place pass is the list pass: the write index never overtakes the read index, so no
  held write is overwritten before it has been read.
\<close>

lemma drain_scan_eq:
  assumes "w \<le> i"
  shows "drain_scan i arr w s b =
    (case drain_pass (drop i arr) s of (r, s', b') \<Rightarrow> (take w arr @ r, s', b \<or> b'))"
  using assms
proof (induction i arr w s b rule: drain_scan.induct)
  case (1 i arr w s b)
  show ?case
  proof (cases "i < length arr")
    case False
    then show ?thesis by (simp add: drain_scan.simps [of i])
  next
    case True
    then have drop: "drop i arr = arr ! i # drop (Suc i) arr"
      by (rule Cons_nth_drop_Suc [symmetric])
    show ?thesis
    proof (cases "depsSatisfied s (Deps (pw_val (arr ! i)))")
      case ready: True
      with 1 True show ?thesis
        by (simp add: drain_scan.simps [of i] drop Let_def split_beta)
    next
      case False
      have "take (Suc w) (arr[w := arr ! i]) = take w arr @ [arr ! i]"
        using True 1(3) by (simp add: take_Suc_conv_app_nth)
      with 1 True False show ?thesis
        by (simp add: drain_scan.simps [of i] drop Let_def split_beta)
    qed
  qed
qed

definition drain_once :: "pendingWrite list \<Rightarrow> Store \<Rightarrow> pendingWrite list \<times> Store \<times> bool" where
  "drain_once h s = drain_scan 0 h 0 s False"

lemma drain_once_eq [simp]: "drain_once h s = drain_pass h s"
  by (simp add: drain_once_def drain_scan_eq split_beta)

lemma drain_pass_length:
  "drain_pass h s = (r, s', b) \<Longrightarrow> length r + (if b then 1 else 0) \<le> length h"
proof (induction h arbitrary: s r s' b)
  case Nil
  then show ?case by simp
next
  case (Cons p h)
  then show ?case by (fastforce split: if_splits prod.splits)
qed

text \<open>The outer loop repeats the pass while it makes progress; each such pass shortens the list.\<close>

function drainLocked :: "pendingWrite list \<Rightarrow> Store \<Rightarrow> pendingWrite list \<times> Store" where
  "drainLocked h s =
     (case drain_once h s of
        (remaining, s', progressed) \<Rightarrow>
          if \<not> progressed then (remaining, s') else drainLocked remaining s')"
  by pat_completeness auto
termination
  by (relation "measure (\<lambda>(h, s). length h)") (auto dest: drain_pass_length [OF sym])

declare drainLocked.simps [simp del]

definition Buffer_Receive :: "key \<Rightarrow> Value \<Rightarrow> Store \<times> Buffer \<Rightarrow> bool \<times> Store \<times> Buffer" where
  "Buffer_Receive k v sb =
     (case sb of (s, b) \<Rightarrow>
        if depsSatisfied s (Deps v) then
          (case drainLocked (held b) (applyLocked k v s) of
             (h, s') \<Rightarrow> (True, s', b\<lparr>held := h\<rparr>))
        else (False, s, b\<lparr>held := held b @ [\<lparr>pw_key = k, pw_val = v\<rparr>]\<rparr>))"

definition Buffer_Len :: "Buffer \<Rightarrow> nat" where
  "Buffer_Len b = length (held b)"

section \<open>Applying a write: the store's contract again\<close>

text \<open>The form in which \<^const>\<open>applyLocked\<close> stores a write: a deletion keeps its timestamp only.\<close>

definition stored_form :: "Value \<Rightarrow> Value" where
  "stored_form v = (if Deleted v then tombstone (ValTS v) else v)"

lemma ValTS_stored_form [simp]: "ValTS (stored_form v) = ValTS v"
  by (simp add: stored_form_def store_simps)

lemma Deps_stored_form: "d \<in> set (Deps (stored_form v)) \<Longrightarrow> d \<in> set (Deps v)"
  by (simp add: stored_form_def store_simps split: if_splits)

lemma applyLocked_is_Apply: "applyLocked k v s = snd (Store_Apply k (stored_form v) s)"
  by (simp add: applyLocked_def stored_form_def Store_ApplyDelete_is_Apply)

lemma applyLocked_lookup [store_simps]:
  "store_data (applyLocked k v s) k' =
     (if k' = k then
        (case store_data s k of
           None \<Rightarrow> Some (stored_form v)
         | Some cur \<Rightarrow> Some (if ValTS v \<le> ValTS cur then cur else stored_form v))
      else store_data s k')"
  by (simp add: applyLocked_is_Apply Store_Apply_lookup split: option.split)

lemma applyLocked_same:
  "store_data (applyLocked k v s) k =
     (case store_data s k of
        None \<Rightarrow> Some (stored_form v)
      | Some cur \<Rightarrow> Some (if ValTS (stored_form v) \<le> ValTS cur then cur else stored_form v))"
  by (simp add: applyLocked_lookup split: option.split)

interpretation lww: lww_register store_data applyLocked stored_form ValTS
  by (unfold_locales; (rule applyLocked_same | simp add: applyLocked_lookup | rule store_eqI; simp))

lemma GetVersion_version: "Store_GetVersion k s = lww.version s k"
  by (simp add: Store_GetVersion_def lww.version_def)

section \<open>Satisfied dependencies\<close>

text \<open>The timestamp a dependency is compared with: the zero timestamp for an absent key.\<close>

definition effective :: "Store \<Rightarrow> key \<Rightarrow> Timestamp" where
  "effective s k = (case Store_GetVersion k s of None \<Rightarrow> zero_Timestamp | Some ts \<Rightarrow> ts)"

lemma depsSatisfied_iff: "depsSatisfied s ds \<longleftrightarrow> (\<forall>d\<in>set ds. MinTS d \<le> effective s (DepKey d))"
  by (induction ds) (auto simp: effective_def AfterOrEqual_iff Let_def)

text \<open>
  Versions below the zero timestamp would make a satisfied dependency on an absent key
  unsatisfied again; physical clocks after 1970 never produce them.
\<close>

definition nonneg_store :: "Store \<Rightarrow> bool" where
  "nonneg_store s \<longleftrightarrow> (\<forall>k v. store_data s k = Some v \<longrightarrow> zero_Timestamp \<le> ValTS v)"

lemma nonneg_storeD: "nonneg_store s \<Longrightarrow> store_data s k = Some v \<Longrightarrow> zero_Timestamp \<le> ValTS v"
  by (simp add: nonneg_store_def)

lemma nonneg_New: "nonneg_store Store_New"
  by (simp add: nonneg_store_def Store_New_def)

lemma nonneg_applyLocked:
  "nonneg_store s \<Longrightarrow> zero_Timestamp \<le> ValTS v \<Longrightarrow> nonneg_store (applyLocked k v s)"
  by (auto simp: nonneg_store_def store_simps split: if_splits option.splits)

lemma nonneg_Put: "nonneg_store s \<Longrightarrow> zero_Timestamp \<le> ValTS v \<Longrightarrow> nonneg_store (Store_Put k v s)"
  by (simp add: nonneg_store_def store_simps)

lemma effective_mono:
  assumes "lww.dominated s s'" and "nonneg_store s'"
  shows "effective s k \<le> effective s' k"
proof (cases "lww.version s k")
  case None
  have "zero_Timestamp \<le> effective s' k"
    using assms(2) by (auto simp: effective_def nonneg_store_def Store_GetVersion_def split: option.splits)
  with None show ?thesis by (simp add: effective_def GetVersion_version)
next
  case (Some t)
  then have "lww.at_least s' k t" using assms(1) lww.at_least_refl lww.dominatedD by blast
  with Some show ?thesis by (auto simp: effective_def GetVersion_version lww.at_least_def)
qed

lemma depsSatisfied_mono:
  assumes "depsSatisfied s ds" and "lww.dominated s s'" and "nonneg_store s'"
  shows "depsSatisfied s' ds"
  using assms(1) order_trans [OF _ effective_mono [OF assms(2,3)]]
  by (auto simp: depsSatisfied_iff)

section \<open>The abstract buffer: release any ready write\<close>

abbreviation ready :: "Store \<Rightarrow> pendingWrite \<Rightarrow> bool" where
  "ready s p \<equiv> depsSatisfied s (Deps (pw_val p))"

abbreviation absorbed :: "Store \<Rightarrow> pendingWrite \<Rightarrow> bool" where
  "absorbed s p \<equiv> lww.at_least s (pw_key p) (ValTS (pw_val p))"

definition nonneg_writes :: "pendingWrite set \<Rightarrow> bool" where
  "nonneg_writes P \<longleftrightarrow> (\<forall>p\<in>P. zero_Timestamp \<le> ValTS (pw_val p))"

text \<open>
  What the buffer promises, without an order: from a store and a bag of held writes, some held
  write whose dependencies are satisfied is applied and leaves the bag.
\<close>

inductive release :: "Store \<times> pendingWrite multiset \<Rightarrow> Store \<times> pendingWrite multiset \<Rightarrow> bool" where
  release: "ready s p \<Longrightarrow>
    release (s, add_mset p M) (applyLocked (pw_key p) (pw_val p) s, M)"

inductive_cases release_pairE: "release (s, M) (s', M')"

abbreviation releases :: "Store \<times> pendingWrite multiset \<Rightarrow> Store \<times> pendingWrite multiset \<Rightarrow> bool" where
  "releases \<equiv> release\<^sup>*\<^sup>*"

definition stuck :: "Store \<Rightarrow> pendingWrite multiset \<Rightarrow> bool" where
  "stuck s M \<longleftrightarrow> (\<forall>p\<in>#M. \<not> ready s p)"

text \<open>An extra write in the bag does not disturb a run.\<close>

lemma releases_add: "releases (s, M) (s', M') \<Longrightarrow> releases (s, add_mset p M) (s', add_mset p M')"
proof (induction rule: rtranclp_induct2)
  case refl
  show ?case by simp
next
  case (step s1 M1 s2 M2)
  from step.hyps(2) have "release (s1, add_mset p M1) (s2, add_mset p M2)"
    by (auto elim!: release_pairE simp: add_mset_commute [of p] intro: release.release)
  with step.IH show ?case by (rule rtranclp.rtrancl_into_rtrancl)
qed

lemma release_dominated: "release (s, M) (s', M') \<Longrightarrow> lww.dominated s s'"
  by (auto elim!: release_pairE intro: lww.dominated_apply)

lemma releases_dominated: "releases (s, M) (s', M') \<Longrightarrow> lww.dominated s s'"
  by (induction rule: rtranclp_induct2)
    (auto intro: lww.dominated_refl lww.dominated_trans release_dominated)

lemma releases_subset: "releases (s, M) (s', M') \<Longrightarrow> M' \<subseteq># M"
proof (induction rule: rtranclp_induct2)
  case refl
  show ?case by simp
next
  case (step s1 M1 s2 M2)
  from step.hyps(2) obtain p where M1: "M1 = add_mset p M2" by (elim release_pairE) simp
  from step.IH show ?case unfolding M1 by (rule add_mset_subset_drop)
qed

lemma releases_nonneg:
  "releases (s, M) (s', M') \<Longrightarrow> nonneg_store s \<Longrightarrow> nonneg_writes (set_mset M) \<Longrightarrow> nonneg_store s'"
proof (induction rule: rtranclp_induct2)
  case refl
  then show ?case by simp
next
  case (step s1 M1 s2 M2)
  have "set_mset M1 \<subseteq> set_mset M" using releases_subset [OF step.hyps(1)] by (rule set_mset_mono)
  with step show ?case
    by (auto elim!: release_pairE intro!: nonneg_applyLocked simp: nonneg_writes_def)
qed

text \<open>Every write of the bag is still held or has been absorbed by the store.\<close>

lemma releases_absorbed:
  "releases (s, M) (s', M') \<Longrightarrow> p \<in># M \<Longrightarrow> p \<in># M' \<or> absorbed s' p"
proof (induction rule: rtranclp_induct2)
  case refl
  then show ?case by simp
next
  case (step s1 M1 s2 M2)
  then consider "p \<in># M1" | "absorbed s1 p" by blast
  then show ?case
  proof cases
    case 1
    with step.hyps(2) show ?thesis
      using lww.apply_at_least by (fastforce elim!: release_pairE)
  next
    case 2
    with release_dominated [OF step.hyps(2)] show ?thesis using lww.dominatedD by blast
  qed
qed

text \<open>
  A run that ends stuck releases at least what any other run releases, and its store is at least
  as new: releasing keeps later releases possible.
\<close>

lemma stuck_run_is_maximal:
  assumes stuck: "releases (s, M) (s1, M1)" "stuck s1 M1"
    and other: "releases (s, M) (s2, M2)"
    and nonneg: "nonneg_store s" "nonneg_writes (set_mset M)"
  shows "M1 \<subseteq># M2 \<and> lww.dominated s2 s1"
  using other
proof (induction rule: rtranclp_induct2)
  case refl
  show ?case using stuck(1) by (simp add: releases_subset releases_dominated)
next
  case (step t N t' N')
  from step.hyps(2) obtain p where p: "ready t p" "N = add_mset p N'"
    "t' = applyLocked (pw_key p) (pw_val p) t"
    by (auto elim: release_pairE)
  have nn: "nonneg_store s1" using stuck(1) nonneg by (rule releases_nonneg)
  have "ready s1 p" using p(1) step.IH nn depsSatisfied_mono by blast
  with stuck(2) have notin: "p \<notin># M1" by (auto simp: stuck_def)
  have "p \<in># M" using p(2) releases_subset [OF step.hyps(1)] by (auto dest: mset_subset_eqD)
  with releases_absorbed [OF stuck(1)] notin have "absorbed s1 p" by blast
  then have "lww.dominated t' s1"
    using step.IH p(3) lww.apply_dominated by simp
  moreover have "M1 \<subseteq># N'"
    using step.IH notin p(2) by (auto intro: subset_add_mset_notin)
  ultimately show ?case by simp
qed

lemma stuck_runs_agree:
  assumes "releases (s, M) (s1, M1)" "stuck s1 M1"
    and "releases (s, M) (s2, M2)" "stuck s2 M2"
    and "nonneg_store s" "nonneg_writes (set_mset M)"
  shows "M1 = M2 \<and> Store_GetVersion k s1 = Store_GetVersion k s2"
  using stuck_run_is_maximal [OF assms(1,2,3,5,6)] stuck_run_is_maximal [OF assms(3,4,1,5,6)]
  by (auto simp: GetVersion_version intro: subset_mset.order_antisym lww.dominated_antisym)

section \<open>The drain refines the abstract buffer\<close>

lemma drain_pass_releases:
  "drain_pass h s = (r, s', b) \<Longrightarrow> releases (s, mset h) (s', mset r)"
proof (induction h arbitrary: s r s' b)
  case Nil
  then show ?case by simp
next
  case (Cons p h)
  show ?case
  proof (cases "ready s p")
    case True
    with Cons.prems obtain b' where
      "drain_pass h (applyLocked (pw_key p) (pw_val p) s) = (r, s', b')"
      by (auto split: prod.splits)
    from Cons.IH [OF this] release.release [OF True, of "mset h"] show ?thesis
      by (simp add: converse_rtranclp_into_rtranclp)
  next
    case False
    with Cons.prems obtain r' where "drain_pass h s = (r', s', b)" and "r = p # r'"
      by (auto split: prod.splits)
    with Cons.IH [of s r' s' b] show ?thesis by (simp add: releases_add)
  qed
qed

lemma drain_pass_idle: "drain_pass h s = (r, s', False) \<Longrightarrow> r = h \<and> s' = s \<and> stuck s (mset h)"
  by (induction h arbitrary: r) (auto simp: stuck_def split: if_splits prod.splits)

lemma drainLocked_refines:
  "drainLocked h s = (r, s') \<Longrightarrow> releases (s, mset h) (s', mset r) \<and> stuck s' (mset r)"
proof (induction h s rule: drainLocked.induct)
  case (1 h s)
  obtain h1 s1 b where pass: "drain_pass h s = (h1, s1, b)" by (cases "drain_pass h s") auto
  show ?case
  proof (cases b)
    case False
    with "1.prems" pass have "r = h1" "s' = s1"
      by (simp_all add: drainLocked.simps [of h])
    with False pass drain_pass_idle show ?thesis by fastforce
  next
    case True
    with "1.prems" pass have "drainLocked h1 s1 = (r, s')"
      by (simp add: drainLocked.simps [of h])
    with "1.IH" [of h1 _ s1 b] pass True
    have "releases (s1, mset h1) (s', mset r) \<and> stuck s' (mset r)" by simp
    with drain_pass_releases [OF pass] show ?thesis by (auto intro: rtranclp_trans)
  qed
qed

lemma drain_pass_subseq: "drain_pass h s = (r, s', b) \<Longrightarrow> subseq r h"
  by (induction h arbitrary: s r s' b) (fastforce split: if_splits prod.splits)+

lemma drainLocked_subseq: "drainLocked h s = (r, s') \<Longrightarrow> subseq r h"
proof (induction h s rule: drainLocked.induct)
  case (1 h s)
  obtain h1 s1 b where pass: "drain_pass h s = (h1, s1, b)" by (cases "drain_pass h s") auto
  with 1 drain_pass_subseq [OF pass] show ?case
    by (cases b) (auto simp: drainLocked.simps [of h] intro: subseq_order.order_trans)
qed

lemma Receive_refines:
  assumes "Buffer_Receive k v (s, b) = (applied, s', b')"
  shows "releases (s, add_mset \<lparr>pw_key = k, pw_val = v\<rparr> (mset (held b))) (s', mset (held b'))"
    and "applied \<longleftrightarrow> depsSatisfied s (Deps v)"
    and "applied \<Longrightarrow> stuck s' (mset (held b'))"
    and "\<not> applied \<Longrightarrow> s' = s"
proof -
  let ?p = "\<lparr>pw_key = k, pw_val = v\<rparr>"
  obtain h t where drain: "drainLocked (held b) (applyLocked k v s) = (h, t)" by fastforce
  show "applied \<longleftrightarrow> depsSatisfied s (Deps v)" "\<not> applied \<Longrightarrow> s' = s"
    using assms drain by (auto simp: Buffer_Receive_def split: if_splits)
  show "applied \<Longrightarrow> stuck s' (mset (held b'))"
    using assms drain drainLocked_refines [OF drain]
    by (auto simp: Buffer_Receive_def split: if_splits)
  show "releases (s, add_mset ?p (mset (held b))) (s', mset (held b'))"
  proof (cases "depsSatisfied s (Deps v)")
    case True
    then have "release (s, add_mset ?p (mset (held b))) (applyLocked k v s, mset (held b))"
      using release.release [of s ?p "mset (held b)"] by simp
    with True assms drain drainLocked_refines [OF drain] show ?thesis
      by (auto simp: Buffer_Receive_def intro: converse_rtranclp_into_rtranclp)
  next
    case False
    with assms show ?thesis by (auto simp: Buffer_Receive_def)
  qed
qed

section \<open>Causal closure\<close>

text \<open>Every visible entry of the store is accompanied by the versions it depends on.\<close>

definition causally_closed :: "Store \<Rightarrow> bool" where
  "causally_closed s \<longleftrightarrow> (\<forall>k v. store_data s k = Some v \<longrightarrow> depsSatisfied s (Deps v))"

lemma causally_closed_New: "causally_closed Store_New"
  by (simp add: causally_closed_def Store_New_def)

text \<open>
  An operation that replaces one entry by one whose dependencies hold, and lets no version
  shrink, keeps the store causally closed.
\<close>

lemma causally_closed_update:
  assumes closed: "causally_closed s"
    and entries: "\<And>k v. store_data s' k = Some v \<Longrightarrow>
        store_data s k = Some v \<or> depsSatisfied s (Deps v)"
    and grow: "lww.dominated s s'" and nonneg: "nonneg_store s'"
  shows "causally_closed s'"
  unfolding causally_closed_def
proof (intro allI impI)
  fix k v
  assume "store_data s' k = Some v"
  with entries closed have "depsSatisfied s (Deps v)" by (auto simp: causally_closed_def)
  then show "depsSatisfied s' (Deps v)" using grow nonneg by (rule depsSatisfied_mono)
qed

lemma depsSatisfied_stored_form: "depsSatisfied s (Deps v) \<Longrightarrow> depsSatisfied s (Deps (stored_form v))"
  by (auto simp: depsSatisfied_iff dest: Deps_stored_form)

lemma causally_closed_applyLocked:
  assumes "causally_closed s" and "depsSatisfied s (Deps v)"
    and "nonneg_store (applyLocked k v s)"
  shows "causally_closed (applyLocked k v s)"
proof (rule causally_closed_update [OF assms(1) _ lww.dominated_apply assms(3)])
  fix k' v'
  assume "store_data (applyLocked k v s) k' = Some v'"
  then show "store_data s k' = Some v' \<or> depsSatisfied s (Deps v')"
    using depsSatisfied_stored_form [OF assms(2)]
    by (auto simp: applyLocked_lookup split: if_splits option.splits)
qed

lemma releases_causally_closed:
  assumes "releases (s, M) (s', M')" "causally_closed s" "nonneg_store s" "nonneg_writes (set_mset M)"
  shows "causally_closed s'"
  using assms
proof (induction rule: rtranclp_induct2)
  case refl
  then show ?case by simp
next
  case (step s1 M1 s2 M2)
  have "nonneg_store s2"
    using releases_nonneg [OF rtranclp.rtrancl_into_rtrancl [OF step.hyps]] step.prems by simp
  moreover from step.hyps(2) obtain p where "ready s1 p" "s2 = applyLocked (pw_key p) (pw_val p) s1"
    by (auto elim: release_pairE)
  ultimately show ?case using step causally_closed_applyLocked by blast
qed

lemmas receive_facts = Receive_refines releases_causally_closed releases_nonneg releases_dominated
  releases_absorbed

section \<open>A concrete run\<close>

text \<open>
  The scenario of \<open>internal/buffer/buffer_test.go\<close>: \<open>y\<close> at time 200 depends on \<open>x\<close> at time 100
  and is held until \<open>x\<close> arrives.
\<close>

definition ex_x :: Value where
  "ex_x = \<lparr>Data = [120], ValTS = Timestamp 100 0, Deps = [], Deleted = False\<rparr>"

definition ex_y :: Value where
  "ex_y = \<lparr>Data = [121], ValTS = Timestamp 200 0,
           Deps = [\<lparr>DepKey = ''x'', MinTS = Timestamp 100 0\<rparr>], Deleted = False\<rparr>"

definition ex_held :: Buffer where
  "ex_held = \<lparr>held = [\<lparr>pw_key = ''y'', pw_val = ex_y\<rparr>]\<rparr>"

definition ex_both :: Store where
  "ex_both = \<lparr>store_data = [''x'' \<mapsto> ex_x, ''y'' \<mapsto> ex_y]\<rparr>"

lemmas ex_defs = ex_x_def ex_y_def ex_held_def ex_both_def Store_New_def

lemmas buffer_eval = drainLocked.simps Store_GetVersion_def AfterOrEqual_iff zero_Timestamp_def
  less_eq_Timestamp_iff applyLocked_is_Apply stored_form_def Store_Apply_def Compare_order

lemma ex_hold: "Buffer_Receive ''y'' ex_y (Store_New, Buffer_New) = (False, Store_New, ex_held)"
  by (simp add: Buffer_Receive_def Buffer_New_def ex_defs buffer_eval)

lemma ex_drain: "drainLocked (held ex_held) \<lparr>store_data = [''x'' \<mapsto> ex_x]\<rparr> = ([], ex_both)"
  by (simp add: ex_defs buffer_eval)

lemma ex_release: "Buffer_Receive ''x'' ex_x (Store_New, ex_held) = (True, ex_both, Buffer_New)"
proof -
  have "applyLocked ''x'' ex_x Store_New = \<lparr>store_data = [''x'' \<mapsto> ex_x]\<rparr>"
    by (simp add: ex_defs buffer_eval)
  then show ?thesis
    by (simp add: Buffer_Receive_def ex_drain) (simp add: ex_defs Buffer_New_def)
qed

lemma ex_nonneg: "zero_Timestamp \<le> ValTS ex_x" "zero_Timestamp \<le> ValTS ex_y"
  by (simp_all add: ex_defs zero_Timestamp_def less_eq_Timestamp_iff)

section \<open>Properties\<close>

text \<open>
  Receiving a replicated write in causal mode keeps the store causally closed: whatever is
  visible afterwards, the versions it depends on are visible too. This covers the write itself
  and every held write that the drain releases with it.
\<close>

theorem Receive_causally_closed:
  assumes "Buffer_Receive k v (s, b) = (applied, s', b')"
    and "causally_closed s" and "nonneg_store s"
    and "zero_Timestamp \<le> ValTS v" and "nonneg_writes (set (held b))"
  shows "causally_closed s' \<and> nonneg_store s' \<and> lww.dominated s s'"
proof -
  let ?M = "add_mset \<lparr>pw_key = k, pw_val = v\<rparr> (mset (held b))"
  have "nonneg_writes (set_mset ?M)" using assms(4,5) by (simp add: nonneg_writes_def)
  with Receive_refines(1) [OF assms(1)] assms(2,3) show ?thesis
    using releases_causally_closed releases_nonneg releases_dominated by blast
qed

theorem Receive_causally_closed_witness:
  "causally_closed ex_both \<and> nonneg_store ex_both"
  using Receive_causally_closed [OF ex_release causally_closed_New nonneg_New ex_nonneg(1)]
    ex_nonneg(2)
  by (simp add: nonneg_writes_def ex_held_def)

text \<open>
  C8: The buffer refines its order-free description and loses nothing: a received write and the
  held ones are released one by one, each when its dependencies hold; the call reports whether
  the new write could be released; every write is afterwards held or absorbed by the store; and
  after a call that applied something no held write is ready.
\<close>

theorem Receive_refines_release:
  assumes "Buffer_Receive k v (s, b) = (applied, s', b')"
  shows "releases (s, add_mset \<lparr>pw_key = k, pw_val = v\<rparr> (mset (held b))) (s', mset (held b')) \<and>
    (applied \<longleftrightarrow> depsSatisfied s (Deps v)) \<and>
    (applied \<longrightarrow> stuck s' (mset (held b'))) \<and>
    (\<forall>p \<in># add_mset \<lparr>pw_key = k, pw_val = v\<rparr> (mset (held b)). p \<in># mset (held b') \<or> absorbed s' p)"
  using Receive_refines [OF assms] releases_absorbed by blast

theorem Receive_refines_release_witness:
  "stuck ex_both (mset (held Buffer_New)) \<and>
   absorbed ex_both \<lparr>pw_key = ''y'', pw_val = ex_y\<rparr> \<and>
   absorbed ex_both \<lparr>pw_key = ''x'', pw_val = ex_x\<rparr>"
  using Receive_refines_release [OF ex_release] by (simp add: ex_held_def Buffer_New_def)

text \<open>
  C12: The drain is order-independent: whichever ready writes were released in whichever order,
  once no held write is ready the same writes remain held as after the code's drain and every
  key has the same version.
\<close>

theorem drain_confluent:
  assumes "drainLocked h s = (r, s')"
    and "releases (s, mset h) (t, N)" and "stuck t N"
    and "nonneg_store s" and "nonneg_writes (set h)"
  shows "N = mset r \<and> Store_GetVersion k t = Store_GetVersion k s'"
  using stuck_runs_agree [OF assms(2,3), of s' "mset r"] drainLocked_refines [OF assms(1)] assms(4,5)
  by simp

theorem drain_confluent_witness:
  "Store_GetVersion ''y'' ex_both = Some (Timestamp 200 0)"
proof -
  let ?s = "\<lparr>store_data = [''x'' \<mapsto> ex_x]\<rparr>"
  have run: "releases (?s, mset (held ex_held)) (ex_both, {#})" "stuck ex_both {#}"
    using drainLocked_refines [OF ex_drain] by simp_all
  have "nonneg_store ?s" "nonneg_writes (set (held ex_held))"
    using ex_nonneg by (simp_all add: nonneg_store_def nonneg_writes_def ex_held_def)
  from drain_confluent [OF ex_drain run this, of "''y''"] show ?thesis
    by (simp add: Store_GetVersion_def) (simp add: ex_defs)
qed

text \<open>
  Filtering the held list in place is correct: although \<open>remaining\<close> overwrites the array
  that the \<open>range\<close> loop reads, one pass keeps exactly the writes that were not ready when they
  were reached, in order, and applies the others in order.
\<close>

theorem drain_in_place:
  "drain_scan 0 h 0 s False = drain_pass h s"
  by (simp add: drain_scan_eq split_beta)

text \<open>No two different writes to one key carry one timestamp.\<close>

definition no_ties :: "(key \<times> Value) list \<Rightarrow> bool" where
  "no_ties ws \<longleftrightarrow> list_all (\<lambda>(k, v). list_all (\<lambda>(k', v').
     k = k' \<and> ValTS v = ValTS v' \<longrightarrow> stored_form v = stored_form v') ws) ws"

lemma no_tiesD: "no_ties ws \<Longrightarrow> x \<in> set ws \<Longrightarrow> y \<in> set ws \<Longrightarrow> lww.compatible x y"
  by (cases x; cases y) (auto simp: no_ties_def lww.compatible_def list_all_iff)

text \<open>
  C13: Replicas converge under last-writer-wins: two replicas that start from the same store and
  apply the same replicated puts and deletes, in any two orders, end with the same store,
  provided no two different writes to one key carry one timestamp. Applying any of them again
  changes nothing.
\<close>

theorem apply_order_irrelevant:
  assumes "mset ws = mset ws'" and "no_ties ws"
  shows "fold (\<lambda>(k, v). applyLocked k v) ws s = fold (\<lambda>(k, v). applyLocked k v) ws' s \<and>
    (\<forall>(k, v) \<in> set ws. applyLocked k v (fold (\<lambda>(k, v). applyLocked k v) ws s) =
       fold (\<lambda>(k, v). applyLocked k v) ws s)"
proof -
  let ?all = "\<lambda>ws. fold (\<lambda>(k, v). applyLocked k v) ws s"
  have all: "lww.apply_all xs s = ?all xs" for xs by (simp add: lww.apply_all_def)
  have "?all ws = ?all ws'"
    using lww.delivery_order_irrelevant [OF assms(1) no_tiesD [OF assms(2)], of s] by (simp add: all)
  moreover have "applyLocked k v (?all ws) = ?all ws" if "(k, v) \<in> set ws" for k v
    using lww.redelivery [OF that, of s] by (simp add: all)
  ultimately show ?thesis by blast
qed

theorem apply_order_irrelevant_witness:
  "fold (\<lambda>(k, v). applyLocked k v) [(''x'', ex_x), (''x'', ex_y)] Store_New =
   fold (\<lambda>(k, v). applyLocked k v) [(''x'', ex_y), (''x'', ex_x)] Store_New"
proof -
  have "mset [(''x'', ex_x), (''x'', ex_y)] = mset [(''x'', ex_y), (''x'', ex_x)]"
    "no_ties [(''x'', ex_x), (''x'', ex_y)]"
    by (simp_all add: no_ties_def ex_x_def ex_y_def)
  from apply_order_irrelevant [OF this] show ?thesis by blast
qed

text \<open>
  A deletion is not undone by older writes: after a delete with timestamp \<open>ts\<close>, the key stays
  absent for readers however many replicated writes of that key with timestamps up to \<open>ts\<close>, and
  of other keys, arrive in whatever order.
\<close>

theorem no_resurrection:
  assumes "list_all (\<lambda>(k', v). k' = k \<longrightarrow> ValTS v \<le> ts) ws"
  shows "Store_Get k (fold (\<lambda>(k, v). applyLocked k v) ws (Store_Delete k ts s)) = None"
proof -
  have "store_data (fold (\<lambda>(k, v). applyLocked k v) ws t) k = Some (tombstone ts)"
    if "store_data t k = Some (tombstone ts)" for t
    using that assms
  proof (induction ws arbitrary: t)
    case Nil
    then show ?case by simp
  next
    case (Cons w ws)
    obtain k' v where w: "w = (k', v)" by fastforce
    have "store_data (applyLocked k' v t) k = Some (tombstone ts)"
      using Cons.prems w by (auto simp: store_simps)
    with Cons.IH Cons.prems w show ?case by simp
  qed
  from this [of "Store_Delete k ts s"] show ?thesis
    by (simp add: Store_Get_def Store_Delete_def store_simps)
qed

theorem no_resurrection_witness:
  "Store_Get ''x'' (applyLocked ''x'' ex_x (Store_Delete ''x'' (Timestamp 150 0) ex_both)) = None"
proof -
  have older: "list_all (\<lambda>(k', v). k' = ''x'' \<longrightarrow> ValTS v \<le> Timestamp 150 0) [(''x'', ex_x)]"
    by (simp add: ex_x_def less_eq_Timestamp_iff)
  show ?thesis using no_resurrection [OF older, where s = ex_both] by simp
qed

end
