(* ===== verification/Proto.thy ===== *)
theory Proto
  imports HLC
begin

text \<open>
  The messages of the two gRPC services, with the fields of the structs that \<open>protoc\<close> generates
  in \<open>proto/kv/kv.pb.go\<close> and \<open>proto/replication/replication.pb.go\<close>. A pointer to a message may
  be nil and is an \<^typ>\<open>'a option\<close>. The bookkeeping fields of the generated structs
  (\<open>state\<close>, \<open>unknownFields\<close>, \<open>sizeCache\<close>) carry no data.
\<close>

section \<open>The key-value service\<close>

record kv_HLCTimestamp =
  kv_WallTime :: int64
  kv_Logical :: int32

record PutRequest =
  put_Key :: key
  put_Value :: bytes

record PutResponse =
  putr_Timestamp :: "kv_HLCTimestamp option"

record GetRequest =
  get_Key :: key

record GetResponse =
  getr_Value :: bytes
  getr_Timestamp :: "kv_HLCTimestamp option"
  getr_Found :: bool

record DeleteRequest =
  del_Key :: key

record DeleteResponse =
  delr_Timestamp :: "kv_HLCTimestamp option"

section \<open>The replication service\<close>

record rep_HLCTimestamp =
  rep_WallTime :: int64
  rep_Logical :: int32

record rep_Dependency =
  dep_Key :: key
  dep_MinTs :: "rep_HLCTimestamp option"

record ReplicateRequest =
  rreq_Key :: key
  rreq_Value :: bytes
  rreq_Timestamp :: "rep_HLCTimestamp option"
  rreq_Deps :: "rep_Dependency option list"

record ReplicateResponse =
  rresp_Success :: bool

end
