(* ===== verification/Replication.thy ===== *)
theory Replication
  imports Buffer Proto
begin

text \<open>
  The replication handlers of \<open>internal/replication/replication.go\<close>. A peer client is an element
  of a type \<^typ>\<open>'p\<close>. The RPCs a handler issues are returned as a list, each with the sleep that
  precedes it; the answers of the peers to the strong handler, which waits for them, are an
  argument. The handlers also carry pointers to the node's store, clock and buffer, which no
  \<open>OnWrite\<close> reads.
\<close>

section \<open>Options and delays\<close>

record Options =
  DelayPrefix :: string
  Delay :: int64
  PeerDelay :: int64

text \<open>The time slept before an RPC, in nanoseconds; \<^const>\<open>None\<close> where the source does not sleep.\<close>

definition sleepBeforeReplicate :: "Options \<Rightarrow> key \<Rightarrow> int64 option" where
  "sleepBeforeReplicate opts key =
     (let d = (0 :: int64);
          d = (if sint (PeerDelay opts) > 0 then d + PeerDelay opts else d);
          d = (if sint (Delay opts) > 0 \<and> DelayPrefix opts \<noteq> [] \<and> prefix (DelayPrefix opts) key
               then d + Delay opts else d)
      in if sint d > 0 then Some d else None)"

section \<open>Requests\<close>

definition to_rep_Timestamp :: "Timestamp \<Rightarrow> rep_HLCTimestamp" where
  "to_rep_Timestamp ts = \<lparr>rep_WallTime = WallTime ts, rep_Logical = Logical ts\<rparr>"

fun build_deps :: "Dependency list \<Rightarrow> rep_Dependency option list" where
  "build_deps [] = []"
| "build_deps (dep # deps) =
     Some \<lparr>dep_Key = DepKey dep, dep_MinTs = Some (to_rep_Timestamp (MinTS dep))\<rparr> # build_deps deps"

definition buildReplicateRequest :: "key \<Rightarrow> Value \<Rightarrow> Dependency list \<Rightarrow> ReplicateRequest" where
  "buildReplicateRequest key val deps =
     \<lparr>rreq_Key = key, rreq_Value = Data val,
      rreq_Timestamp = Some (to_rep_Timestamp (ValTS val)),
      rreq_Deps = build_deps deps\<rparr>"

section \<open>Handlers\<close>

datatype 'p Handler =
    EventualHandler "'p list" Options
  | CausalHandler "'p list" Options
  | StrongHandler "'p list" int Options

record 'p RPC =
  rpc_peer :: 'p
  rpc_sleep :: "int64 option"
  rpc_request :: ReplicateRequest

text \<open>What \<open>peer.Replicate\<close> returns: an error, or a response that may be nil.\<close>

datatype rpc_reply = RPCError | RPCReply "ReplicateResponse option"

datatype replication_error = QuorumNotReached

definition send_to :: "Options \<Rightarrow> key \<Rightarrow> ReplicateRequest \<Rightarrow> 'p \<Rightarrow> 'p RPC" where
  "send_to opts key req peer =
     \<lparr>rpc_peer = peer, rpc_sleep = sleepBeforeReplicate opts key, rpc_request = req\<rparr>"

definition EventualHandler_OnWrite ::
  "'p list \<Rightarrow> Options \<Rightarrow> key \<Rightarrow> Value \<Rightarrow> replication_error option \<times> 'p RPC list" where
  "EventualHandler_OnWrite peers opts key val =
     (let req = buildReplicateRequest key val []
      in (None, map (send_to opts key req) peers))"

definition CausalHandler_OnWrite ::
  "'p list \<Rightarrow> Options \<Rightarrow> key \<Rightarrow> Value \<Rightarrow> replication_error option \<times> 'p RPC list" where
  "CausalHandler_OnWrite peers opts key val =
     (let req = buildReplicateRequest key val (Deps val)
      in (None, map (send_to opts key req) peers))"

definition reply_ok :: "rpc_reply \<Rightarrow> bool" where
  "reply_ok r =
     (case r of
        RPCError \<Rightarrow> False
      | RPCReply None \<Rightarrow> False
      | RPCReply (Some resp) \<Rightarrow> rresp_Success resp)"

text \<open>
  The strong handler starts one goroutine per peer, waits for all of them and then drains the
  results channel, whose capacity is the number of peers. \<open>count_acks\<close> is that last loop.
\<close>

fun count_acks :: "bool list \<Rightarrow> int \<Rightarrow> int" where
  "count_acks [] acks = acks"
| "count_acks (ok # results) acks = count_acks results (if ok then acks + 1 else acks)"

definition StrongHandler_OnWrite ::
  "('p \<Rightarrow> ReplicateRequest \<Rightarrow> rpc_reply) \<Rightarrow> 'p list \<Rightarrow> int \<Rightarrow> Options \<Rightarrow> key \<Rightarrow> Value \<Rightarrow>
   replication_error option \<times> 'p RPC list" where
  "StrongHandler_OnWrite call peers quorum opts key val =
     (if length peers = 0 then (None, [])
      else
        let req = buildReplicateRequest key val [];
            remoteNeeded = quorum - 1
        in if remoteNeeded \<le> 0 then (None, [])
           else
             let rpcs = map (send_to opts key req) peers;
                 results = map (\<lambda>p. reply_ok (call p req)) peers;
                 acks = count_acks results 0
             in (if acks < remoteNeeded then Some QuorumNotReached else None, rpcs))"

fun Handler_OnWrite ::
  "('p \<Rightarrow> ReplicateRequest \<Rightarrow> rpc_reply) \<Rightarrow> 'p Handler \<Rightarrow> key \<Rightarrow> Value \<Rightarrow>
   replication_error option \<times> 'p RPC list" where
  "Handler_OnWrite call (EventualHandler peers opts) key val = EventualHandler_OnWrite peers opts key val"
| "Handler_OnWrite call (CausalHandler peers opts) key val = CausalHandler_OnWrite peers opts key val"
| "Handler_OnWrite call (StrongHandler peers quorum opts) key val =
     StrongHandler_OnWrite call peers quorum opts key val"

definition quorum_size :: "int \<Rightarrow> int" where
  "quorum_size n = n div 2 + 1"

text \<open>\<^const>\<open>None\<close> is the panic on an invalid mode.\<close>

definition NewHandler :: "string \<Rightarrow> 'p list \<Rightarrow> Options \<Rightarrow> 'p Handler option" where
  "NewHandler mode peers opts =
     (if mode = ''eventual'' then Some (EventualHandler peers opts)
      else if mode = ''causal'' then Some (CausalHandler peers opts)
      else if mode = ''strong'' then
        (let n = int (length peers) + 1
         in Some (StrongHandler peers (quorum_size n) opts))
      else None)"

section \<open>Counting acknowledgements\<close>

lemma count_acks_filter: "count_acks results n = n + int (length (filter id results))"
  by (induction results n rule: count_acks.induct) auto

text \<open>The order in which the goroutines deliver their results does not matter.\<close>

lemma count_acks_mset: "mset results = mset results' \<Longrightarrow> count_acks results n = count_acks results' n"
  by (simp add: count_acks_filter) (metis mset_filter size_mset)

definition acks :: "('p \<Rightarrow> ReplicateRequest \<Rightarrow> rpc_reply) \<Rightarrow> 'p list \<Rightarrow> ReplicateRequest \<Rightarrow> 'p list" where
  "acks call peers req = filter (\<lambda>p. reply_ok (call p req)) peers"

lemma count_acks_acks:
  "count_acks (map (\<lambda>p. reply_ok (call p req)) peers) 0 = int (length (acks call peers req))"
  by (simp add: count_acks_filter acks_def filter_map comp_def id_def)

section \<open>Majorities\<close>

text \<open>
  What a quorum rule has to give the strong mode: more than half of the nodes, and no more than
  there are.
\<close>

locale majority =
  fixes quorum :: "int \<Rightarrow> int"
  assumes more_than_half: "0 < n \<Longrightarrow> n < 2 * quorum n"
    and attainable: "0 < n \<Longrightarrow> quorum n \<le> n"
begin

lemma quorum_pos: "0 < n \<Longrightarrow> 0 < quorum n"
  using more_than_half [of n] by linarith

lemma intersect:
  assumes "finite U" and "A \<subseteq> U" and "B \<subseteq> U" and "0 < card U"
    and "quorum (int (card U)) \<le> int (card A)" and "quorum (int (card U)) \<le> int (card B)"
  shows "A \<inter> B \<noteq> {}"
proof
  assume "A \<inter> B = {}"
  moreover have "finite A" "finite B" using assms(1,2,3) by (auto intro: finite_subset)
  ultimately have "card A + card B = card (A \<union> B)" by (simp add: card_Un_disjoint)
  also have "\<dots> \<le> card U" using assms(1,2,3) by (intro card_mono) auto
  finally have "int (card A) + int (card B) \<le> int (card U)" by linarith
  with more_than_half [of "int (card U)"] assms(4-6) show False by linarith
qed

end

interpretation maj: majority quorum_size
  by unfold_locales (simp_all add: quorum_size_def)

lemma filter_split_length: "length (filter P xs) + length (filter (\<lambda>x. \<not> P x) xs) = length xs"
  by (rule sum_length_filter_compl)

text \<open>The strong handler that \<^const>\<open>NewHandler\<close> builds succeeds on a majority of the whole cluster.\<close>

lemma strong_OnWrite_iff:
  assumes "NewHandler ''strong'' peers opts = Some h"
  shows "fst (Handler_OnWrite call h key val) = None \<longleftrightarrow>
    quorum_size (int (length peers) + 1)
      \<le> int (length (acks call peers (buildReplicateRequest key val []))) + 1"
proof -
  let ?n = "int (length peers) + 1"
  have h: "h = StrongHandler peers (quorum_size ?n) opts"
    using assms by (simp add: NewHandler_def)
  show ?thesis
  proof (cases "peers = []")
    case True
    then show ?thesis by (simp add: h StrongHandler_OnWrite_def quorum_size_def acks_def)
  next
    case False
    then have "2 \<le> quorum_size ?n" by (cases peers) (auto simp: quorum_size_def)
    with False show ?thesis
      by (auto simp: h StrongHandler_OnWrite_def Let_def count_acks_acks)
  qed
qed

text \<open>The node of a strong write together with the peers that accepted it.\<close>

lemma acceptors:
  assumes "finite U" "i \<in> U" "set ps = U - {i}" "distinct ps"
  shows "int (length ps) + 1 = int (card U)"
    and "int (card (insert i (set (acks call ps req)))) = int (length (acks call ps req)) + 1"
    and "insert i (set (acks call ps req)) \<subseteq> U"
proof -
  show "int (length ps) + 1 = int (card U)"
    using assms distinct_card [of ps] card_Suc_Diff1 [of U i] by simp
  have "distinct (i # acks call ps req)" using assms by (simp add: acks_def)
  from distinct_card [OF this]
  show "int (card (insert i (set (acks call ps req)))) = int (length (acks call ps req)) + 1" by simp
  show "insert i (set (acks call ps req)) \<subseteq> U" using assms by (auto simp: acks_def)
qed

lemma strong_acceptors:
  assumes "finite U" "i \<in> U" "set ps = U - {i}" "distinct ps"
    and "NewHandler ''strong'' ps opts = Some h" and "fst (Handler_OnWrite call h k v) = None"
  shows "quorum_size (int (card U)) \<le>
    int (card (insert i (set (acks call ps (buildReplicateRequest k v [])))))"
  using strong_OnWrite_iff [OF assms(5), of call k v] assms(6) acceptors [OF assms(1-4)] by metis

lemma strong_OnWrite_rpcs:
  assumes "NewHandler ''strong'' peers opts = Some h"
  shows "snd (Handler_OnWrite call h key val) =
    map (send_to opts key (buildReplicateRequest key val [])) peers"
  using assms
  by (cases peers) (auto simp: NewHandler_def StrongHandler_OnWrite_def Let_def quorum_size_def)

text \<open>Whatever the mode, every RPC carries the key, the data and the timestamp of the write.\<close>

lemma Handler_OnWrite_carries:
  assumes "Handler_OnWrite call h key val = (r, rpcs)" and "rpc \<in> set rpcs"
  shows "rreq_Key (rpc_request rpc) = key \<and> rreq_Value (rpc_request rpc) = Data val \<and>
    rreq_Timestamp (rpc_request rpc) = Some (to_rep_Timestamp (ValTS val))"
  using assms
  by (cases h) (auto simp: EventualHandler_OnWrite_def CausalHandler_OnWrite_def
      StrongHandler_OnWrite_def send_to_def buildReplicateRequest_def Let_def split: if_splits)

section \<open>Properties\<close>

text \<open>
  Two acknowledged strong writes meet: in a cluster whose nodes all run the strong handler
  with the other nodes as their peers, the set of nodes that accepted a successful write of node
  \<open>i\<close> (itself and the peers that answered \<open>Success\<close>) and the set for a successful write of node
  \<open>j\<close> have a node in common, whatever the keys, values and replies.
\<close>

theorem strong_quorums_intersect:
  assumes U: "finite U" "i \<in> U" "j \<in> U"
    and peers: "set ps = U - {i}" "distinct ps" "set qs = U - {j}" "distinct qs"
    and handlers: "NewHandler ''strong'' ps opts = Some h" "NewHandler ''strong'' qs opts' = Some h'"
    and ok: "fst (Handler_OnWrite call h k v) = None" "fst (Handler_OnWrite call' h' k' v') = None"
  shows "insert i (set (acks call ps (buildReplicateRequest k v []))) \<inter>
         insert j (set (acks call' qs (buildReplicateRequest k' v' []))) \<noteq> {}"
proof -
  have nonempty: "0 < card U" using U by (auto simp: card_gt_0_iff)
  show ?thesis
    by (rule maj.intersect [OF U(1) acceptors(3) [OF U(1,2) peers(1,2)] acceptors(3) [OF U(1,3) peers(3,4)]
          nonempty strong_acceptors [OF U(1,2) peers(1,2) handlers(1) ok(1)]
          strong_acceptors [OF U(1,3) peers(3,4) handlers(2) ok(2)]])
qed

definition ex_opts :: Options where
  "ex_opts = \<lparr>DelayPrefix = ''chain-a-'', Delay = 100, PeerDelay = 5\<rparr>"

definition ex_call :: "nat \<Rightarrow> nat \<Rightarrow> ReplicateRequest \<Rightarrow> rpc_reply" where
  "ex_call accepting p req = (if p = accepting then RPCReply (Some \<lparr>rresp_Success = True\<rparr>) else RPCError)"

lemmas strong_eval = NewHandler_def StrongHandler_OnWrite_def quorum_size_def reply_ok_def
  ex_call_def acks_def

theorem strong_quorums_intersect_witness:
  "insert 0 (set (acks (ex_call 1) [1, 2] (buildReplicateRequest ''x'' ex_x []))) \<inter>
   insert 2 (set (acks (ex_call 1) [0, 1] (buildReplicateRequest ''y'' ex_y []))) \<noteq> {}"
proof -
  have U: "finite {0, 1, 2 :: nat}" "0 \<in> {0, 1, 2 :: nat}" "2 \<in> {0, 1, 2 :: nat}"
    and peers: "set [1, 2] = {0, 1, 2} - {0 :: nat}" "distinct [1, 2 :: nat]"
      "set [0, 1] = {0, 1, 2} - {2 :: nat}" "distinct [0, 1 :: nat]"
    by auto
  have handlers: "NewHandler ''strong'' [1, 2 :: nat] ex_opts = Some (StrongHandler [1, 2] 2 ex_opts)"
    "NewHandler ''strong'' [0, 1 :: nat] ex_opts = Some (StrongHandler [0, 1] 2 ex_opts)"
    and ok: "fst (Handler_OnWrite (ex_call 1) (StrongHandler [1, 2] 2 ex_opts) ''x'' ex_x) = None"
      "fst (Handler_OnWrite (ex_call 1) (StrongHandler [0, 1] 2 ex_opts) ''y'' ex_y) = None"
    by (simp_all add: strong_eval Let_def)
  show ?thesis by (rule strong_quorums_intersect [OF U peers handlers ok])
qed

text \<open>
  C35: Fault tolerance of the strong mode is exact: with \<open>n\<close> nodes in all, a write is acknowledged
  if and only if at most \<open>(n - 1) div 2\<close> of the peers fail to accept it; it asks every peer once;
  and the decision does not depend on the order in which the replies arrive.
\<close>

theorem strong_write_fault_tolerance:
  assumes "NewHandler ''strong'' peers opts = Some h"
    and "req = buildReplicateRequest key val []"
    and "mset results = mset (map (\<lambda>p. reply_ok (call p req)) peers)"
  shows "(fst (Handler_OnWrite call h key val) = None \<longleftrightarrow>
      length (filter (\<lambda>p. \<not> reply_ok (call p req)) peers) \<le> length peers div 2) \<and>
    map rpc_peer (snd (Handler_OnWrite call h key val)) = peers \<and>
    (fst (Handler_OnWrite call h key val) = None \<longleftrightarrow>
      quorum_size (int (length peers) + 1) - 1 \<le> count_acks results 0)"
proof -
  have split: "length (acks call peers req) + length (filter (\<lambda>p. \<not> reply_ok (call p req)) peers)
      = length peers"
    unfolding acks_def by (rule filter_split_length)
  have "quorum_size (int (length peers) + 1) \<le> int (length (acks call peers req)) + 1 \<longleftrightarrow>
      length (filter (\<lambda>p. \<not> reply_ok (call p req)) peers) \<le> length peers div 2"
    using split unfolding quorum_size_def by linarith
  moreover have "map rpc_peer (snd (Handler_OnWrite call h key val)) = peers"
    by (simp add: strong_OnWrite_rpcs [OF assms(1)] send_to_def comp_def)
  ultimately show ?thesis
    using strong_OnWrite_iff [OF assms(1), of call key val] assms(2)
      count_acks_mset [OF assms(3), of 0] count_acks_acks [of call req peers]
    by auto
qed

theorem strong_write_fault_tolerance_witness:
  "fst (Handler_OnWrite (ex_call 1) (StrongHandler [1, 2 :: nat] 2 ex_opts) ''x'' ex_x) = None \<and>
   fst (Handler_OnWrite (ex_call 7) (StrongHandler [1, 2 :: nat] 2 ex_opts) ''x'' ex_x) \<noteq> None"
proof -
  have h: "NewHandler ''strong'' [1, 2 :: nat] ex_opts = Some (StrongHandler [1, 2] 2 ex_opts)"
    by (simp add: strong_eval)
  show ?thesis
    using strong_write_fault_tolerance [OF h refl refl, of "ex_call 1" "''x''" ex_x]
      strong_write_fault_tolerance [OF h refl refl, of "ex_call 7" "''x''" ex_x]
    by (simp add: reply_ok_def ex_call_def quorum_size_def)
qed

text \<open>
  The delay before a peer RPC: with non-negative delays whose sum fits in 63 bits, the
  handler sleeps for the peer delay plus, when the key has the configured non-empty prefix, the
  extra delay, and it does not sleep when that sum is zero.
\<close>

theorem sleep_duration:
  assumes "0 \<le> sint (PeerDelay opts)" and "0 \<le> sint (Delay opts)"
    and "sint (PeerDelay opts) + sint (Delay opts) < 2 ^ 63"
  shows "(case sleepBeforeReplicate opts key of None \<Rightarrow> 0 | Some d \<Rightarrow> sint d) =
    sint (PeerDelay opts) +
      (if DelayPrefix opts \<noteq> [] \<and> prefix (DelayPrefix opts) key then sint (Delay opts) else 0)"
proof -
  have sum: "sint (PeerDelay opts + Delay opts) = sint (PeerDelay opts) + sint (Delay opts)"
    using assms by (simp add: sint_word_ariths signed_take_bit_int_eq_self)
  have zero: "sint x = 0 \<longleftrightarrow> x = 0" for x :: int64
    using sint_eq_iff [of x 0] by simp
  show ?thesis
    using assms sum by (auto simp: sleepBeforeReplicate_def Let_def not_less zero)
qed

theorem sleep_duration_witness:
  "(case sleepBeforeReplicate ex_opts ''chain-a-0'' of None \<Rightarrow> 0 | Some d \<Rightarrow> sint d) = 105"
proof -
  have "0 \<le> sint (PeerDelay ex_opts)" "0 \<le> sint (Delay ex_opts)"
    "sint (PeerDelay ex_opts) + sint (Delay ex_opts) < 2 ^ 63"
    by (simp_all add: ex_opts_def)
  from sleep_duration [OF this, of "''chain-a-0''"] show ?thesis
    by (simp add: ex_opts_def)
qed

end
