(* ===== verification/Server.thy ===== *)
theory Server
  imports Replication
begin

text \<open>
  The node of \<open>internal/server/node.go\<close>: its state and the handlers of its four RPCs. A handler
  takes the reading of the physical clock it makes, the replies of the peers (used by the strong
  mode only), the request and the node; it returns the response or the error, the node after, and
  the RPCs it issued. The node's buffer holds the same store as the node (\<open>cmd/node/main.go\<close>
  builds both from one pointer), so the buffer's operations act on \<open>NStore\<close>.

  In these definitions a handler runs from its first statement to its last; the interleaving of
  handlers is the subject of the theory of the cluster, which runs the same statements in steps.
\<close>

section \<open>The read tracker\<close>

record ReadTracker =
  reads :: "Dependency list"

definition NewReadTracker :: ReadTracker where
  "NewReadTracker = \<lparr>reads = []\<rparr>"

definition Tracker_Record :: "key \<Rightarrow> Timestamp \<Rightarrow> ReadTracker \<Rightarrow> ReadTracker" where
  "Tracker_Record key ts rt = rt\<lparr>reads := reads rt @ [\<lparr>DepKey = key, MinTS = ts\<rparr>]\<rparr>"

definition SnapshotAndClear :: "ReadTracker \<Rightarrow> Dependency list \<times> ReadTracker" where
  "SnapshotAndClear rt = (reads rt, rt\<lparr>reads := []\<rparr>)"

section \<open>The node\<close>

record 'p Node =
  Mode :: string
  NStore :: Store
  NClock :: Clock
  NBuffer :: "Buffer option"
  NHandler :: "'p Handler"
  Tracker :: "ReadTracker option"

definition NewNode :: "string \<Rightarrow> Store \<Rightarrow> Clock \<Rightarrow> Buffer option \<Rightarrow> 'p Handler \<Rightarrow> 'p Node" where
  "NewNode mode s clk buf handler =
     \<lparr>Mode = mode, NStore = s, NClock = clk, NBuffer = buf, NHandler = handler,
      Tracker = (if mode = ''causal'' then Some NewReadTracker else None)\<rparr>"

datatype node_error = ErrHLC hlc_error | ErrReplication replication_error

section \<open>Conversions\<close>

definition toProtoTS :: "Timestamp \<Rightarrow> kv_HLCTimestamp" where
  "toProtoTS ts = \<lparr>kv_WallTime = WallTime ts, kv_Logical = Logical ts\<rparr>"

definition fromProtoTS :: "rep_HLCTimestamp \<Rightarrow> Timestamp" where
  "fromProtoTS ts = Timestamp (rep_WallTime ts) (rep_Logical ts)"

fun fromProtoDeps :: "rep_Dependency option list \<Rightarrow> Dependency list" where
  "fromProtoDeps [] = []"
| "fromProtoDeps (dep # deps) =
     (case dep of
        None \<Rightarrow> fromProtoDeps deps
      | Some d \<Rightarrow>
          (case dep_MinTs d of
             None \<Rightarrow> fromProtoDeps deps
           | Some ts \<Rightarrow> \<lparr>DepKey = dep_Key d, MinTS = fromProtoTS ts\<rparr> # fromProtoDeps deps))"

section \<open>Client requests\<close>

text \<open>The dependencies of a write: in causal mode, the reads since the last write.\<close>

definition take_deps :: "'p Node \<Rightarrow> Dependency list \<times> 'p Node" where
  "take_deps n =
     (case Tracker n of
        Some rt \<Rightarrow>
          if Mode n = ''causal'' then
            (case SnapshotAndClear rt of (deps, rt') \<Rightarrow> (deps, n\<lparr>Tracker := Some rt'\<rparr>))
          else ([], n)
      | None \<Rightarrow> ([], n))"

text \<open>
  The second half of \<open>Put\<close> and \<open>Delete\<close>: the strong mode replicates before it writes the local
  store and does not write it when that fails; the other modes write first. \<open>upd\<close> is the local
  write.
\<close>

definition write_through ::
  "('p \<Rightarrow> ReplicateRequest \<Rightarrow> rpc_reply) \<Rightarrow> key \<Rightarrow> Value \<Rightarrow> (Store \<Rightarrow> Store) \<Rightarrow> 'p Node \<Rightarrow>
   replication_error option \<times> 'p Node \<times> 'p RPC list" where
  "write_through call key val upd n =
     (if Mode n = ''strong'' then
        (case Handler_OnWrite call (NHandler n) key val of
           (Some e, rpcs) \<Rightarrow> (Some e, n, rpcs)
         | (None, rpcs) \<Rightarrow> (None, n\<lparr>NStore := upd (NStore n)\<rparr>, rpcs))
      else
        (let n' = n\<lparr>NStore := upd (NStore n)\<rparr> in
         case Handler_OnWrite call (NHandler n') key val of (r, rpcs) \<Rightarrow> (r, n', rpcs)))"

definition Node_Put ::
  "int64 \<Rightarrow> ('p \<Rightarrow> ReplicateRequest \<Rightarrow> rpc_reply) \<Rightarrow> PutRequest \<Rightarrow> 'p Node \<Rightarrow>
   (node_error + PutResponse) \<times> 'p Node \<times> 'p RPC list" where
  "Node_Put now call req n =
     (case Clock_Send now (NClock n) of
        (Inl e, clk) \<Rightarrow> (Inl (ErrHLC e), n\<lparr>NClock := clk\<rparr>, [])
      | (Inr ts, clk) \<Rightarrow>
          (case take_deps (n\<lparr>NClock := clk\<rparr>) of (deps, n1) \<Rightarrow>
             let val = \<lparr>Data = put_Value req, ValTS = ts, Deps = deps, Deleted = False\<rparr> in
             case write_through call (put_Key req) val (Store_Put (put_Key req) val) n1 of
               (Some e, n2, rpcs) \<Rightarrow> (Inl (ErrReplication e), n2, rpcs)
             | (None, n2, rpcs) \<Rightarrow> (Inr \<lparr>putr_Timestamp = Some (toProtoTS ts)\<rparr>, n2, rpcs)))"

definition Node_Get :: "GetRequest \<Rightarrow> 'p Node \<Rightarrow> GetResponse \<times> 'p Node" where
  "Node_Get req n =
     (case Store_Get (get_Key req) (NStore n) of
        None \<Rightarrow> (\<lparr>getr_Value = [], getr_Timestamp = None, getr_Found = False\<rparr>, n)
      | Some val \<Rightarrow>
          (let n' = (case Tracker n of
                       Some rt \<Rightarrow>
                         if Mode n = ''causal''
                         then n\<lparr>Tracker := Some (Tracker_Record (get_Key req) (ValTS val) rt)\<rparr>
                         else n
                     | None \<Rightarrow> n)
           in (\<lparr>getr_Value = Data val, getr_Timestamp = Some (toProtoTS (ValTS val)),
                getr_Found = True\<rparr>, n')))"

definition Node_Delete ::
  "int64 \<Rightarrow> ('p \<Rightarrow> ReplicateRequest \<Rightarrow> rpc_reply) \<Rightarrow> DeleteRequest \<Rightarrow> 'p Node \<Rightarrow>
   (node_error + DeleteResponse) \<times> 'p Node \<times> 'p RPC list" where
  "Node_Delete now call req n =
     (case Clock_Send now (NClock n) of
        (Inl e, clk) \<Rightarrow> (Inl (ErrHLC e), n\<lparr>NClock := clk\<rparr>, [])
      | (Inr ts, clk) \<Rightarrow>
          (case take_deps (n\<lparr>NClock := clk\<rparr>) of (deps, n1) \<Rightarrow>
             let val = \<lparr>Data = [], ValTS = ts, Deps = deps, Deleted = True\<rparr> in
             case write_through call (del_Key req) val (Store_Delete (del_Key req) ts) n1 of
               (Some e, n2, rpcs) \<Rightarrow> (Inl (ErrReplication e), n2, rpcs)
             | (None, n2, rpcs) \<Rightarrow> (Inr \<lparr>delr_Timestamp = Some (toProtoTS ts)\<rparr>, n2, rpcs)))"

section \<open>Replication requests\<close>

definition replicated_value :: "Timestamp \<Rightarrow> ReplicateRequest \<Rightarrow> Value" where
  "replicated_value inTS req =
     \<lparr>Data = rreq_Value req, ValTS = inTS, Deps = fromProtoDeps (rreq_Deps req),
      Deleted = (length (rreq_Value req) = 0)\<rparr>"

text \<open>The part of \<open>Replicate\<close> after the clock: hand the write to the buffer, or apply it.\<close>

definition apply_direct :: "key \<Rightarrow> Value \<Rightarrow> Store \<Rightarrow> bool \<times> Store" where
  "apply_direct k val s =
     (if Deleted val then Store_ApplyDelete k (ValTS val) s else Store_Apply k val s)"

definition deliver_value :: "key \<Rightarrow> Value \<Rightarrow> 'p Node \<Rightarrow> bool \<times> 'p Node" where
  "deliver_value k val n =
     (case NBuffer n of
        Some buf \<Rightarrow>
          if Mode n = ''causal'' then
            (case Buffer_Receive k val (NStore n, buf) of
               (_, s', buf') \<Rightarrow> (True, n\<lparr>NStore := s', NBuffer := Some buf'\<rparr>))
          else (case apply_direct k val (NStore n) of (ok, s') \<Rightarrow> (ok, n\<lparr>NStore := s'\<rparr>))
      | None \<Rightarrow> (case apply_direct k val (NStore n) of (ok, s') \<Rightarrow> (ok, n\<lparr>NStore := s'\<rparr>)))"

definition Node_Replicate ::
  "int64 \<Rightarrow> ReplicateRequest \<Rightarrow> 'p Node \<Rightarrow> (node_error + ReplicateResponse) \<times> 'p Node" where
  "Node_Replicate now req n =
     (case rreq_Timestamp req of
        None \<Rightarrow> (Inr \<lparr>rresp_Success = False\<rparr>, n)
      | Some pts \<Rightarrow>
          (let inTS = fromProtoTS pts in
           case Clock_Receive now inTS (NClock n) of
             (Inl e, clk) \<Rightarrow> (Inl (ErrHLC e), n\<lparr>NClock := clk\<rparr>)
           | (Inr _, clk) \<Rightarrow>
               (case deliver_value (rreq_Key req) (replicated_value inTS req) (n\<lparr>NClock := clk\<rparr>) of
                  (ok, n') \<Rightarrow> (Inr \<lparr>rresp_Success = ok\<rparr>, n'))))"

lemmas [handler_defs] = Node_Put_def Node_Get_def Node_Delete_def Node_Replicate_def
  write_through_def take_deps_def SnapshotAndClear_def Tracker_Record_def

section \<open>What a request carries\<close>

lemma fromProtoTS_to_rep [simp]: "fromProtoTS (to_rep_Timestamp ts) = ts"
  by (simp add: fromProtoTS_def to_rep_Timestamp_def)

lemma fromProtoDeps_build [simp]: "fromProtoDeps (build_deps deps) = deps"
  by (induction deps) auto

text \<open>
  The value a replica reconstructs from a request: everything the origin wrote, except that the
  deletion flag is recomputed from the length of the data.
\<close>

lemma replicated_value_build:
  "replicated_value ts (buildReplicateRequest key val deps) =
     \<lparr>Data = Data val, ValTS = ts, Deps = deps, Deleted = (Data val = [])\<rparr>"
  by (simp add: replicated_value_def buildReplicateRequest_def)

section \<open>How the handlers change the node\<close>

text \<open>The parts that no handler writes, and those that only some write.\<close>

lemma take_deps_frame [frame_simps]:
  "Mode (snd (take_deps n)) = Mode n" "NStore (snd (take_deps n)) = NStore n"
  "NClock (snd (take_deps n)) = NClock n" "NBuffer (snd (take_deps n)) = NBuffer n"
  "NHandler (snd (take_deps n)) = NHandler n"
  "(Tracker (snd (take_deps n)) = None) = (Tracker n = None)"
  by (auto simp: take_deps_def SnapshotAndClear_def split: option.splits)

lemma apply_direct_store: "snd (apply_direct k val s) = applyLocked k val s"
  by (simp add: apply_direct_def applyLocked_def)

lemma deliver_value_frame [frame_simps]:
  "Mode (snd (deliver_value k v n)) = Mode n" "NClock (snd (deliver_value k v n)) = NClock n"
  "NHandler (snd (deliver_value k v n)) = NHandler n" "Tracker (snd (deliver_value k v n)) = Tracker n"
  "(NBuffer (snd (deliver_value k v n)) = None) = (NBuffer n = None)"
  by (auto simp: deliver_value_def split: option.splits prod.splits)

lemma Node_Replicate_frame:
  "Mode (snd (Node_Replicate now req n)) = Mode n" "NHandler (snd (Node_Replicate now req n)) = NHandler n"
  "Tracker (snd (Node_Replicate now req n)) = Tracker n"
  by (simp_all add: Node_Replicate_def Let_def split_beta deliver_value_frame split: option.split sum.split)

definition held_of :: "'p Node \<Rightarrow> pendingWrite list" where
  "held_of n = (case NBuffer n of None \<Rightarrow> [] | Some b \<Rightarrow> held b)"

lemma held_of_frame [simp]:
  "held_of (n\<lparr>NStore := s\<rparr>) = held_of n" "held_of (n\<lparr>NClock := clk\<rparr>) = held_of n"
  "held_of (n\<lparr>Tracker := rt\<rparr>) = held_of n"
  by (simp_all add: held_of_def)

text \<open>
  In every mode the delivery of a write is a run of the abstract buffer; either it ends with no
  held write ready, or the write was not ready and has been put behind the held ones.
\<close>

definition buffered :: "'p Node \<Rightarrow> bool" where
  "buffered n \<longleftrightarrow> (NBuffer n \<noteq> None \<longleftrightarrow> Mode n = ''causal'')"

lemma deliver_value_releases:
  assumes "buffered n" and "Mode n \<noteq> ''causal'' \<Longrightarrow> Deps v = []"
    and "n' = snd (deliver_value k v n)"
  shows "releases (NStore n, add_mset \<lparr>pw_key = k, pw_val = v\<rparr> (mset (held_of n)))
      (NStore n', mset (held_of n'))"
    and "stuck (NStore n') (mset (held_of n')) \<or>
      NStore n' = NStore n \<and> held_of n' = held_of n @ [\<lparr>pw_key = k, pw_val = v\<rparr>] \<and>
      \<not> depsSatisfied (NStore n) (Deps v)"
proof -
  let ?p = "\<lparr>pw_key = k, pw_val = v\<rparr>"
  show "releases (NStore n, add_mset ?p (mset (held_of n))) (NStore n', mset (held_of n'))"
  proof (cases "NBuffer n")
    case None
    with assms have "Deps v = []" by (simp add: buffered_def)
    with release.release [of "NStore n" ?p "{#}"] None assms show ?thesis
      by (auto simp: deliver_value_def held_of_def apply_direct_store split_beta)
  next
    case (Some b)
    with assms show ?thesis
      using Receive_refines(1) [of k v "NStore n" b]
      by (auto simp: deliver_value_def held_of_def buffered_def split: prod.splits)
  qed
  show "stuck (NStore n') (mset (held_of n')) \<or> NStore n' = NStore n \<and>
      held_of n' = held_of n @ [?p] \<and> \<not> depsSatisfied (NStore n) (Deps v)"
  proof (cases "NBuffer n")
    case None
    with assms show ?thesis
      by (auto simp: deliver_value_def held_of_def stuck_def split: prod.splits)
  next
    case (Some b)
    obtain ap s' b' where rec: "Buffer_Receive k v (NStore n, b) = (ap, s', b')"
      by (cases "Buffer_Receive k v (NStore n, b)") auto
    have n': "NStore n' = s'" "held_of n' = held b'" and h: "held_of n = held b"
      using Some assms rec by (auto simp: deliver_value_def held_of_def buffered_def)
    show ?thesis
    proof (cases ap)
      case True
      with Receive_refines(3) [OF rec] n' show ?thesis by simp
    next
      case False
      with Receive_refines(2) [OF rec] have "\<not> depsSatisfied (NStore n) (Deps v)" by simp
      with rec n' h show ?thesis by (simp add: Buffer_Receive_def) force
    qed
  qed
qed

section \<open>Sequential runs of one node\<close>

text \<open>Requests handled one after the other, each with the physical time its handler reads.\<close>

datatype node_op =
    OpPut int64 PutRequest
  | OpGet GetRequest
  | OpDelete int64 DeleteRequest
  | OpReplicate int64 ReplicateRequest

fun node_step :: "('p \<Rightarrow> ReplicateRequest \<Rightarrow> rpc_reply) \<Rightarrow> node_op \<Rightarrow> 'p Node \<Rightarrow> 'p Node" where
  "node_step call (OpPut now req) n = fst (snd (Node_Put now call req n))"
| "node_step call (OpGet req) n = snd (Node_Get req n)"
| "node_step call (OpDelete now req) n = fst (snd (Node_Delete now call req n))"
| "node_step call (OpReplicate now req) n = snd (Node_Replicate now req n)"

fun node_run :: "('p \<Rightarrow> ReplicateRequest \<Rightarrow> rpc_reply) \<Rightarrow> node_op list \<Rightarrow> 'p Node \<Rightarrow> 'p Node" where
  "node_run call [] n = n"
| "node_run call (op # ops) n = node_run call ops (node_step call op n)"

text \<open>No replicated timestamp meets the tie that \<^const>\<open>Clock_Receive\<close> mishandles.\<close>

fun untied :: "node_op \<Rightarrow> 'p Node \<Rightarrow> bool" where
  "untied (OpReplicate now req) n =
     (case rreq_Timestamp req of
        None \<Rightarrow> True
      | Some pts \<Rightarrow> \<not> tied_behind now (fromProtoTS pts) (NClock n))"
| "untied _ n = True"

fun untied_run :: "('p \<Rightarrow> ReplicateRequest \<Rightarrow> rpc_reply) \<Rightarrow> node_op list \<Rightarrow> 'p Node \<Rightarrow> bool" where
  "untied_run call [] n = True"
| "untied_run call (op # ops) n = (untied op n \<and> untied_run call ops (node_step call op n))"

text \<open>The clock is at or above every timestamp that the node keeps.\<close>

definition versions_up_to :: "Timestamp \<Rightarrow> Store \<Rightarrow> bool" where
  "versions_up_to t s \<longleftrightarrow> (\<forall>k v. store_data s k = Some v \<longrightarrow> ValTS v \<le> t)"

definition clock_dominates :: "'p Node \<Rightarrow> bool" where
  "clock_dominates n \<longleftrightarrow> versions_up_to (Clock_Now (NClock n)) (NStore n) \<and>
     (\<forall>p \<in> set (held_of n). ValTS (pw_val p) \<le> Clock_Now (NClock n))"

lemma versions_up_to_mono: "versions_up_to t s \<Longrightarrow> t \<le> t' \<Longrightarrow> versions_up_to t' s"
  by (auto simp: versions_up_to_def intro: order_trans)

lemma versions_up_to_applyLocked:
  "versions_up_to t s \<Longrightarrow> ValTS v \<le> t \<Longrightarrow> versions_up_to t (applyLocked k v s)"
  by (auto simp: versions_up_to_def store_simps split: if_splits option.splits)

lemma versions_up_to_releases:
  assumes "releases (s, M) (s', M')" "versions_up_to t s" "\<forall>p \<in># M. ValTS (pw_val p) \<le> t"
  shows "versions_up_to t s'"
  using assms
proof (induction rule: rtranclp_induct2)
  case refl
  then show ?case by simp
next
  case (step s1 M1 s2 M2)
  from step.hyps(2) obtain p where p: "M1 = add_mset p M2"
    "s2 = applyLocked (pw_key p) (pw_val p) s1"
    by (elim release_pairE) simp
  from p(1) have "p \<in># M" using releases_subset [OF step.hyps(1)] by (auto dest: mset_subset_eqD)
  with step p(2) show ?case by (simp add: versions_up_to_applyLocked)
qed

text \<open>A local write whose timestamp exceeds every version lets versions only grow.\<close>

lemma fresh_Put_dominates:
  assumes "\<And>cur. store_data s k = Some cur \<Longrightarrow> ValTS cur \<le> ValTS v"
  shows "lww.dominated s (Store_Put k v s)"
  unfolding lww.dominated_def
proof (intro allI impI)
  fix k' t
  assume "lww.at_least s k' t"
  then show "lww.at_least (Store_Put k v s) k' t"
    using assms by (cases "k' = k") (fastforce simp: lww.at_least_def lww.version_def store_simps)+
qed

lemma local_write_step:
  assumes "versions_up_to t0 (NStore n)" "t0 < ValTS v" "\<forall>p \<in> set (held_of n). ValTS (pw_val p) \<le> t0"
    and "write_through call k v (Store_Put k w) n = (r, n', rpcs)" "ValTS w = ValTS v"
    and "Clock_Now (NClock n) = ValTS v"
  shows "clock_dominates n' \<and> lww.dominated (NStore n) (NStore n')"
proof -
  have "lww.dominated (NStore n) (Store_Put k w (NStore n))"
    using assms(1,2,5) by (intro fresh_Put_dominates) (force simp: versions_up_to_def)
  moreover have old: "versions_up_to (ValTS v) (NStore n)"
    using assms(1,2) by (rule versions_up_to_mono [OF _ less_imp_le])
  moreover have "versions_up_to (ValTS v) (Store_Put k w (NStore n))"
    using old assms(5) by (simp add: versions_up_to_def store_simps)
  moreover have "\<forall>p \<in> set (held_of n). ValTS (pw_val p) \<le> ValTS v"
    using assms(2,3) by (auto intro: less_imp_le order_trans)
  ultimately show ?thesis
    using assms(4,6)
    by (auto simp: write_through_def clock_dominates_def lww.dominated_refl Let_def
        split: if_splits prod.splits option.splits)
qed

lemma clock_dominates_cong:
  "NStore n' = NStore n \<Longrightarrow> NClock n' = NClock n \<Longrightarrow> NBuffer n' = NBuffer n \<Longrightarrow>
   clock_dominates n' = clock_dominates n"
  by (simp add: clock_dominates_def held_of_def)

lemma put_step_grows:
  assumes "clock_dominates n"
  shows "clock_dominates (node_step call (OpPut now req) n) \<and>
    lww.dominated (NStore n) (NStore (node_step call (OpPut now req) n))"
proof (cases "Clock_Send now (NClock n)")
  case (Pair r clk)
  show ?thesis
  proof (cases r)
    case (Inl e)
    with Pair assms show ?thesis
      by (auto dest!: Clock_Send_error simp: Node_Put_def lww.dominated_refl)
  next
    case (Inr ts)
    obtain deps n1 where td: "take_deps (n\<lparr>NClock := clk\<rparr>) = (deps, n1)" by fastforce
    have n1: "NStore n1 = NStore n" "NClock n1 = clk" "NBuffer n1 = NBuffer n"
      using take_deps_frame [of "n\<lparr>NClock := clk\<rparr>"] td by simp_all
    let ?v = "\<lparr>Data = put_Value req, ValTS = ts, Deps = deps, Deleted = False\<rparr>"
    obtain r' n2 rpcs where wt: "write_through call (put_Key req) ?v (Store_Put (put_Key req) ?v) n1
        = (r', n2, rpcs)" by (metis prod_cases3)
    from Pair Inr have send: "Clock_Now (NClock n) < ts" "Clock_Now clk = ts"
      using Clock_Send_ok by blast+
    have "clock_dominates n2 \<and> lww.dominated (NStore n1) (NStore n2)"
      using assms send n1 local_write_step [OF _ _ _ wt, of "Clock_Now (NClock n)"]
      by (simp add: clock_dominates_def held_of_def)
    moreover have "node_step call (OpPut now req) n = n2"
      using Pair Inr td wt by (cases r') (simp_all add: Node_Put_def)
    ultimately show ?thesis by (simp add: n1)
  qed
qed

lemma delete_step_grows:
  assumes "clock_dominates n"
  shows "clock_dominates (node_step call (OpDelete now req) n) \<and>
    lww.dominated (NStore n) (NStore (node_step call (OpDelete now req) n))"
proof (cases "Clock_Send now (NClock n)")
  case (Pair r clk)
  show ?thesis
  proof (cases r)
    case (Inl e)
    with Pair assms show ?thesis
      by (auto dest!: Clock_Send_error simp: Node_Delete_def lww.dominated_refl)
  next
    case (Inr ts)
    obtain deps n1 where td: "take_deps (n\<lparr>NClock := clk\<rparr>) = (deps, n1)" by fastforce
    have n1: "NStore n1 = NStore n" "NClock n1 = clk" "NBuffer n1 = NBuffer n"
      using take_deps_frame [of "n\<lparr>NClock := clk\<rparr>"] td by simp_all
    let ?v = "\<lparr>Data = [], ValTS = ts, Deps = deps, Deleted = True\<rparr>"
    have del: "Store_Delete (del_Key req) ts = Store_Put (del_Key req) (tombstone ts)"
      by (simp add: fun_eq_iff Store_Delete_is_Put)
    obtain r' n2 rpcs where wt: "write_through call (del_Key req) ?v
        (Store_Put (del_Key req) (tombstone ts)) n1 = (r', n2, rpcs)" by (metis prod_cases3)
    from Pair Inr have send: "Clock_Now (NClock n) < ts" "Clock_Now clk = ts"
      using Clock_Send_ok by blast+
    have "clock_dominates n2 \<and> lww.dominated (NStore n1) (NStore n2)"
      using assms send n1 local_write_step [OF _ _ _ wt, of "Clock_Now (NClock n)"]
      by (simp add: clock_dominates_def held_of_def store_simps)
    moreover have "node_step call (OpDelete now req) n = n2"
      using Pair Inr td wt by (cases r') (simp_all add: Node_Delete_def del)
    ultimately show ?thesis by (simp add: n1)
  qed
qed

lemma deliver_grows:
  assumes "clock_dominates n" and "ValTS v \<le> Clock_Now (NClock n)"
    and "n' = snd (deliver_value k v n)"
  shows "clock_dominates n' \<and> lww.dominated (NStore n) (NStore n')"
proof (cases "Mode n = ''causal'' \<and> NBuffer n \<noteq> None")
  case True
  then have "buffered n" by (simp add: buffered_def)
  note rel = deliver_value_releases(1) [OF this _ assms(3)]
  have clk: "NClock n' = NClock n" using assms(3) by (simp add: frame_simps)
  have bound: "\<forall>p \<in># add_mset \<lparr>pw_key = k, pw_val = v\<rparr> (mset (held_of n)).
      ValTS (pw_val p) \<le> Clock_Now (NClock n)"
    using assms(1,2) by (simp add: clock_dominates_def)
  have "versions_up_to (Clock_Now (NClock n)) (NStore n')"
    using versions_up_to_releases [OF rel] bound assms(1) True by (simp add: clock_dominates_def)
  moreover have "\<forall>p \<in> set (held_of n'). ValTS (pw_val p) \<le> Clock_Now (NClock n)"
    using set_mset_mono [OF releases_subset [OF rel]] bound True by auto
  ultimately show ?thesis
    using releases_dominated [OF rel] True clk by (simp add: clock_dominates_def)
next
  case False
  then have eff: "NStore n' = applyLocked k v (NStore n)" "NBuffer n' = NBuffer n" "NClock n' = NClock n"
    using assms(3) apply_direct_store [of k v "NStore n"]
    by (auto simp: deliver_value_def split: option.splits prod.splits)
  then show ?thesis
    using assms(1,2) by (auto simp: clock_dominates_def held_of_def versions_up_to_applyLocked
        lww.dominated_apply)
qed

lemma replicate_step_grows:
  assumes "clock_dominates n" and "untied (OpReplicate now req) n"
  shows "clock_dominates (node_step call (OpReplicate now req) n) \<and>
    lww.dominated (NStore n) (NStore (node_step call (OpReplicate now req) n))"
proof (cases "rreq_Timestamp req")
  case None
  with assms show ?thesis by (simp add: Node_Replicate_def lww.dominated_refl)
next
  case (Some pts)
  obtain r clk where rec: "Clock_Receive now (fromProtoTS pts) (NClock n) = (r, clk)" by fastforce
  show ?thesis
  proof (cases r)
    case (Inl e)
    with rec Some assms show ?thesis
      by (auto dest!: Clock_Receive_error simp: Node_Replicate_def lww.dominated_refl)
  next
    case (Inr ts)
    have "fromProtoTS pts < ts"
      using rec Inr Some assms(2) by (auto intro: Clock_Receive_dominates)
    moreover have now: "Clock_Now (NClock n) < ts" "Clock_Now clk = ts"
      using rec Inr Clock_Receive_ok by blast+
    ultimately have ts: "ValTS (replicated_value (fromProtoTS pts) req) \<le> Clock_Now clk"
      by (simp add: replicated_value_def)
    have dom: "clock_dominates (n\<lparr>NClock := clk\<rparr>)"
      using assms(1) now by (auto simp: clock_dominates_def held_of_def
          intro: versions_up_to_mono less_imp_le order_trans)
    have "node_step call (OpReplicate now req) n =
        snd (deliver_value (rreq_Key req) (replicated_value (fromProtoTS pts) req) (n\<lparr>NClock := clk\<rparr>))"
      using Some rec Inr by (simp add: Node_Replicate_def split_beta Let_def)
    with deliver_grows [OF dom, of "replicated_value (fromProtoTS pts) req" _ "rreq_Key req"] ts
    show ?thesis by simp
  qed
qed

lemma get_step_frame:
  "NStore (node_step call (OpGet req) n) = NStore n" "NClock (node_step call (OpGet req) n) = NClock n"
  "NBuffer (node_step call (OpGet req) n) = NBuffer n"
  by (auto simp: Node_Get_def Let_def split: option.splits)

lemma node_step_grows:
  assumes "clock_dominates n" and "untied op n"
  shows "clock_dominates (node_step call op n) \<and> lww.dominated (NStore n) (NStore (node_step call op n))"
proof (cases op)
  case (OpGet req)
  with assms show ?thesis
    using get_step_frame [of call req n] clock_dominates_cong [of "node_step call op n" n]
    by (simp add: lww.dominated_refl del: node_step.simps)
qed (use assms put_step_grows delete_step_grows replicate_step_grows in blast)+

lemma node_run_grows:
  "clock_dominates n \<Longrightarrow> untied_run call ops n \<Longrightarrow>
   clock_dominates (node_run call ops n) \<and> lww.dominated (NStore n) (NStore (node_run call ops n))"
proof (induction ops arbitrary: n)
  case Nil
  then show ?case by (simp add: lww.dominated_refl)
next
  case (Cons op ops)
  then have "clock_dominates (node_step call op n)" "lww.dominated (NStore n) (NStore (node_step call op n))"
    using node_step_grows [of n op call] by auto
  with Cons show ?case by (auto intro: lww.dominated_trans)
qed

text \<open>What a successful local write leaves in the store, in every mode.\<close>

lemma Put_success:
  assumes "Node_Put now call req n = (Inr resp, n', rpcs)"
  obtains ts deps where "putr_Timestamp resp = Some (toProtoTS ts)"
    and "store_data (NStore n') = (store_data (NStore n))(put_Key req \<mapsto>
           \<lparr>Data = put_Value req, ValTS = ts, Deps = deps, Deleted = False\<rparr>)"
    and "fst (Clock_Send now (NClock n)) = Inr ts"
    and "deps = fst (take_deps n)"
proof -
  obtain r clk where send: "Clock_Send now (NClock n) = (r, clk)" by fastforce
  then obtain ts where r: "r = Inr ts" using assms by (cases r) (auto simp: Node_Put_def)
  obtain deps n1 where td: "take_deps (n\<lparr>NClock := clk\<rparr>) = (deps, n1)" by fastforce
  then have n1: "NStore n1 = NStore n" "deps = fst (take_deps n)"
    using take_deps_frame [of "n\<lparr>NClock := clk\<rparr>"]
    by (auto simp: take_deps_def SnapshotAndClear_def split: option.splits if_splits)
  show ?thesis
    using assms send r td n1 that [of ts deps]
    by (auto simp: Node_Put_def write_through_def Store_Put_def Let_def
        split: if_splits prod.splits option.splits)
qed

lemma Delete_success:
  assumes "Node_Delete now call req n = (Inr resp, n', rpcs)"
  obtains ts where "delr_Timestamp resp = Some (toProtoTS ts)"
    and "store_data (NStore n') = (store_data (NStore n))(del_Key req \<mapsto> tombstone ts)"
proof -
  obtain r clk where send: "Clock_Send now (NClock n) = (r, clk)" by fastforce
  then obtain ts where r: "r = Inr ts" using assms by (cases r) (auto simp: Node_Delete_def)
  obtain deps n1 where td: "take_deps (n\<lparr>NClock := clk\<rparr>) = (deps, n1)" by fastforce
  then have n1: "NStore n1 = NStore n"
    using take_deps_frame [of "n\<lparr>NClock := clk\<rparr>"] by simp
  show ?thesis
    using assms send r td n1 that [of ts]
    by (auto simp: Node_Delete_def write_through_def Store_Delete_def Let_def
        split: if_splits prod.splits option.splits)
qed

lemma Put_rpcs:
  assumes "Node_Put now call req n = (r, n', rpcs)" and "rpc \<in> set rpcs"
  shows "rreq_Key (rpc_request rpc) = put_Key req \<and> rreq_Value (rpc_request rpc) = put_Value req"
proof -
  have "\<exists>h val r. Handler_OnWrite call h (put_Key req) val = (r, rpcs) \<and> Data val = put_Value req"
    using assms
    by (fastforce simp: Node_Put_def write_through_def Let_def
        split: prod.splits sum.splits option.splits if_splits)
  with Handler_OnWrite_carries assms(2) show ?thesis by metis
qed

text \<open>The reads that a list of \<open>Get\<close> requests records: the found keys with their versions.\<close>

definition read_deps :: "GetRequest list \<Rightarrow> Store \<Rightarrow> Dependency list" where
  "read_deps gets s = List.map_filter (\<lambda>g. map_option
     (\<lambda>v. \<lparr>DepKey = get_Key g, MinTS = ValTS v\<rparr>) (Store_Get (get_Key g) s)) gets"

lemma gets_record:
  assumes "Mode n = ''causal''" and "Tracker n = Some rt"
  shows "node_run call (map OpGet gets) n =
    n\<lparr>Tracker := Some (rt\<lparr>reads := reads rt @ read_deps gets (NStore n)\<rparr>)\<rparr>"
  using assms
proof (induction gets arbitrary: n rt)
  case Nil
  then show ?case by (simp add: read_deps_def List.map_filter_simps)
next
  case (Cons g gets)
  show ?case
  proof (cases "Store_Get (get_Key g) (NStore n)")
    case None
    with Cons show ?thesis by (simp add: Node_Get_def read_deps_def List.map_filter_simps)
  next
    case (Some v)
    let ?rt = "Tracker_Record (get_Key g) (ValTS v) rt"
    have "snd (Node_Get g n) = n\<lparr>Tracker := Some ?rt\<rparr>"
      using Some Cons.prems by (simp add: Node_Get_def Let_def)
    with Cons.IH [of "n\<lparr>Tracker := Some ?rt\<rparr>" ?rt] Cons.prems Some show ?thesis
      by (simp add: read_deps_def List.map_filter_simps Tracker_Record_def)
  qed
qed

section \<open>Concrete nodes\<close>

definition ex_causal :: "nat Node" where
  "ex_causal = NewNode ''causal'' ex_both \<lparr>clk_l = 200, clk_c = 0\<rparr> (Some Buffer_New)
     (CausalHandler [1, 2] ex_opts)"

definition ex_eventual :: "nat Node" where
  "ex_eventual = NewNode ''eventual'' Store_New \<lparr>clk_l = 100, clk_c = 0\<rparr> None
     (EventualHandler [1, 2] ex_opts)"

definition ex_strong :: "nat Node" where
  "ex_strong = NewNode ''strong'' Store_New \<lparr>clk_l = 100, clk_c = 0\<rparr> None
     (StrongHandler [1, 2] 2 ex_opts)"

text \<open>A causal node that has just read \<open>x\<close> and \<open>y\<close> puts \<open>z\<close>.\<close>

definition ex_put :: PutRequest where
  "ex_put = \<lparr>put_Key = ''z'', put_Value = [122]\<rparr>"

definition ex_gets :: "GetRequest list" where
  "ex_gets = [\<lparr>get_Key = ''x''\<rparr>, \<lparr>get_Key = ''y''\<rparr>]"

lemmas node_eval = ex_causal_def ex_eventual_def ex_strong_def ex_put_def ex_gets_def NewNode_def
  NewReadTracker_def

lemma ex_put_ok:
  "\<exists>resp n' rpcs. Node_Put 300 (ex_call 1) ex_put (node_run (ex_call 1) (map OpGet ex_gets) ex_causal)
     = (Inr resp, n', rpcs)"
  by (simp add: node_eval ex_defs handler_defs Store_Get_def Clock_Send_cases
      CausalHandler_OnWrite_def Let_def)

section \<open>Properties\<close>

text \<open>
  C19: Versions never go back at a node that handles its requests one after the other: from a
  state whose clock is at or above everything the node keeps, after any sequence of puts, gets,
  deletes and replicated writes, in any mode and with any replies of the peers, every key that
  had a version has one at least as new, and the clock is still at or above everything kept;
  provided no received timestamp ties with the clock in the way \<open>Receive\<close> mishandles.
\<close>

theorem sequential_versions_grow:
  assumes "clock_dominates n" and "untied_run call ops n"
    and "Store_GetVersion k (NStore n) = Some t"
  shows "\<exists>t'. Store_GetVersion k (NStore (node_run call ops n)) = Some t' \<and> t \<le> t' \<and>
    clock_dominates (node_run call ops n)"
proof -
  have "lww.at_least (NStore n) k t" using assms(3) by (simp add: GetVersion_version lww.at_least_refl)
  with node_run_grows [OF assms(1,2)] show ?thesis
    by (auto simp: GetVersion_version lww.at_least_def lww.dominated_def)
qed

theorem sequential_versions_grow_witness:
  "\<exists>t'. Store_GetVersion ''y'' (NStore (node_run (ex_call 1)
      [OpPut 300 ex_put, OpDelete 150 \<lparr>del_Key = ''y''\<rparr>] ex_causal)) = Some t' \<and> Timestamp 200 0 \<le> t'"
proof -
  have "clock_dominates ex_causal"
    by (simp add: clock_dominates_def versions_up_to_def node_eval ex_defs held_of_def Buffer_New_def
        Clock_Now_def less_eq_Timestamp_iff)
  moreover have "untied_run (ex_call 1) [OpPut 300 ex_put, OpDelete 150 \<lparr>del_Key = ''y''\<rparr>] ex_causal"
    by simp
  moreover have "Store_GetVersion ''y'' (NStore ex_causal) = Some (Timestamp 200 0)"
    by (simp add: node_eval ex_defs Store_GetVersion_def)
  ultimately show ?thesis using sequential_versions_grow by blast
qed

text \<open>
  Read your writes: after a successful \<open>Put\<close>, in any mode, a \<open>Get\<close> of that key at the same
  node returns the value just written with the timestamp that the \<open>Put\<close> returned; after a
  successful \<open>Delete\<close> it reports the key as absent; other keys read as before.
\<close>

theorem read_your_writes:
  assumes "Node_Put now call preq n = (Inr presp, n1, rpcs1)"
    and "Node_Delete now' call' dreq n = (Inr dresp, n2, rpcs2)"
  shows "fst (Node_Get \<lparr>get_Key = put_Key preq\<rparr> n1) =
      \<lparr>getr_Value = put_Value preq, getr_Timestamp = putr_Timestamp presp, getr_Found = True\<rparr> \<and>
    getr_Found (fst (Node_Get \<lparr>get_Key = del_Key dreq\<rparr> n2)) = False \<and>
    (k \<noteq> put_Key preq \<longrightarrow> fst (Node_Get \<lparr>get_Key = k\<rparr> n1) = fst (Node_Get \<lparr>get_Key = k\<rparr> n)) \<and>
    (k \<noteq> del_Key dreq \<longrightarrow> fst (Node_Get \<lparr>get_Key = k\<rparr> n2) = fst (Node_Get \<lparr>get_Key = k\<rparr> n))"
proof -
  obtain ts deps where p: "putr_Timestamp presp = Some (toProtoTS ts)"
    "store_data (NStore n1) = (store_data (NStore n))(put_Key preq \<mapsto>
       \<lparr>Data = put_Value preq, ValTS = ts, Deps = deps, Deleted = False\<rparr>)"
    by (rule Put_success [OF assms(1)])
  obtain ts' where d: "store_data (NStore n2) = (store_data (NStore n))(del_Key dreq \<mapsto> tombstone ts')"
    by (rule Delete_success [OF assms(2)])
  show ?thesis
    using p d by (auto simp: Node_Get_def Store_Get_def store_simps Let_def split: option.splits)
qed

theorem read_your_writes_witness:
  "fst (Node_Get \<lparr>get_Key = ''z''\<rparr> (fst (snd (Node_Put 300 (ex_call 1) ex_put ex_strong)))) =
     \<lparr>getr_Value = [122], getr_Timestamp = Some (toProtoTS (Timestamp 300 0)), getr_Found = True\<rparr>"
proof -
  obtain n1 rpcs1 where p: "Node_Put 300 (ex_call 1) ex_put ex_strong =
      (Inr \<lparr>putr_Timestamp = Some (toProtoTS (Timestamp 300 0))\<rparr>, n1, rpcs1)"
    by (simp add: node_eval handler_defs Clock_Send_cases strong_eval Let_def)
  obtain dresp n2 rpcs2 where d: "Node_Delete 300 (ex_call 1) \<lparr>del_Key = ''z''\<rparr> ex_strong
      = (Inr dresp, n2, rpcs2)"
    by (simp add: node_eval handler_defs Clock_Send_cases strong_eval Let_def)
  have key: "put_Key ex_put = ''z''" "put_Value ex_put = [122]" by (simp_all add: ex_put_def)
  show ?thesis using read_your_writes [OF p d] unfolding p key by simp
qed

text \<open>
  C18: A causal write carries exactly the reads that precede it: after a write has emptied the
  tracker, any sequence of \<open>Get\<close>s and then a successful \<open>Put\<close> sends to every peer one request
  whose dependencies, as the peer decodes them, are the keys found by those \<open>Get\<close>s with the
  versions read, in order; and the tracker is empty again.
\<close>

theorem causal_put_carries_reads:
  assumes "Mode n = ''causal''" and "NHandler n = CausalHandler peers opts"
    and "Tracker n = Some \<lparr>reads = []\<rparr>"
    and "Node_Put now call req (node_run call (map OpGet gets) n) = (Inr resp, n', rpcs)"
  shows "map rpc_peer rpcs = peers \<and>
    map (\<lambda>r. fromProtoDeps (rreq_Deps (rpc_request r))) rpcs =
      map (\<lambda>_. read_deps gets (NStore n)) peers \<and>
    Tracker n' = Some \<lparr>reads = []\<rparr>"
  using assms(4) gets_record [OF assms(1,3), of call gets] assms(1,2)
  by (auto simp: Node_Put_def take_deps_def SnapshotAndClear_def write_through_def
      CausalHandler_OnWrite_def send_to_def buildReplicateRequest_def Let_def comp_def
      split: prod.splits sum.splits)

theorem causal_put_carries_reads_witness:
  "map (\<lambda>r. fromProtoDeps (rreq_Deps (rpc_request r)))
     (snd (snd (Node_Put 300 (ex_call 1) ex_put (node_run (ex_call 1) (map OpGet ex_gets) ex_causal)))) =
   replicate 2 [\<lparr>DepKey = ''x'', MinTS = Timestamp 100 0\<rparr>, \<lparr>DepKey = ''y'', MinTS = Timestamp 200 0\<rparr>]"
proof -
  obtain resp n' rpcs where put: "Node_Put 300 (ex_call 1) ex_put
      (node_run (ex_call 1) (map OpGet ex_gets) ex_causal) = (Inr resp, n', rpcs)"
    using ex_put_ok by blast
  have h: "Mode ex_causal = ''causal''" "NHandler ex_causal = CausalHandler [1, 2] ex_opts"
    "Tracker ex_causal = Some \<lparr>reads = []\<rparr>"
    by (simp_all add: node_eval)
  have "read_deps ex_gets (NStore ex_causal) =
      [\<lparr>DepKey = ''x'', MinTS = Timestamp 100 0\<rparr>, \<lparr>DepKey = ''y'', MinTS = Timestamp 200 0\<rparr>]"
    by (simp add: read_deps_def node_eval ex_defs Store_Get_def List.map_filter_simps)
  with causal_put_carries_reads [OF h put] show ?thesis
    unfolding put by (simp add: numeral_2_eq_2)
qed

text \<open>
  C34: A request transports a write, to any peer and in any mode. What a node decodes from the request
  of a write is the write (key, data, timestamp and the dependencies sent), except that an empty value
  means a deletion. A peer whose clock refuses the timestamp answers with the error and does nothing.
  A causal peer answers \<open>Success\<close>, and either keeps the decoded write back, at the end of what it
  holds, or has it in its store afterwards, in this or a newer version, together with what the drain
  of the held writes releases. A peer without a buffer answers whether the write was newer than its
  own version of the key, and then holds exactly the decoded entry; otherwise nothing has changed.
\<close>

theorem replicate_transports_write:
  assumes "Node_Replicate now (buildReplicateRequest k v deps) n = (r, n')"
    and w: "w = \<lparr>Data = Data v, ValTS = ValTS v, Deps = deps, Deleted = (Data v = [])\<rparr>"
  shows "(w = v \<longleftrightarrow> deps = Deps v \<and> (Deleted v \<longleftrightarrow> Data v = [])) \<and>
    (case Clock_Receive now (ValTS v) (NClock n) of
       (Inl e, clk) \<Rightarrow> r = Inl (ErrHLC e) \<and> n' = n
     | (Inr ts, clk) \<Rightarrow> NClock n' = clk \<and>
         (if Mode n = ''causal'' \<and> NBuffer n \<noteq> None then
            r = Inr \<lparr>rresp_Success = True\<rparr> \<and>
            (if depsSatisfied (NStore n) deps
             then lww.at_least (NStore n') k (ValTS v) \<and>
               (held_of n', NStore n') = drainLocked (held_of n) (applyLocked k w (NStore n))
             else held_of n' = held_of n @ [\<lparr>pw_key = k, pw_val = w\<rparr>] \<and> NStore n' = NStore n)
          else
            held_of n' = held_of n \<and>
            (if lww.at_least (NStore n) k (ValTS v)
             then r = Inr \<lparr>rresp_Success = False\<rparr> \<and> NStore n' = NStore n
             else r = Inr \<lparr>rresp_Success = True\<rparr> \<and>
               store_data (NStore n') = (store_data (NStore n))(k \<mapsto> stored_form w))))"
proof -
  have decoded: "w = v \<longleftrightarrow> deps = Deps v \<and> (Deleted v \<longleftrightarrow> Data v = [])"
    unfolding w by (cases v) auto
  have req: "rreq_Key (buildReplicateRequest k v deps) = k"
    "rreq_Timestamp (buildReplicateRequest k v deps) = Some (to_rep_Timestamp (ValTS v))"
    "replicated_value (ValTS v) (buildReplicateRequest k v deps) = w"
    by (simp_all add: replicated_value_build w) (simp_all add: buildReplicateRequest_def)
  obtain x clk where rec: "Clock_Receive now (ValTS v) (NClock n) = (x, clk)" by (rule prod.exhaust)
  show ?thesis
  proof (cases x)
    case (Inl e)
    with rec Clock_Receive_error [of now "ValTS v" "NClock n" e clk] assms(1) req decoded
    show ?thesis by (auto simp: Node_Replicate_def Let_def)
  next
    case (Inr ts)
    obtain ok m where out: "deliver_value k w (n\<lparr>NClock := clk\<rparr>) = (ok, m)" by (rule prod.exhaust)
    have r: "r = Inr \<lparr>rresp_Success = ok\<rparr>" "n' = m"
      using assms(1) req rec Inr out by (simp_all add: Node_Replicate_def Let_def)
    have clock: "NClock n' = clk" using deliver_value_frame(2) [of k w "n\<lparr>NClock := clk\<rparr>"] out r(2) by simp
    show ?thesis
    proof (cases "Mode n = ''causal'' \<and> NBuffer n \<noteq> None")
      case True
      then obtain b where b: "NBuffer n = Some b" "Mode n = ''causal''" by auto
      have deps: "Deps w = deps" by (simp add: w)
      have grow: "lww.at_least (snd (drainLocked (held b) (applyLocked k w (NStore n)))) k (ValTS v)"
        using lww.apply_at_least [of k w "NStore n"] drainLocked_refines [OF prod.collapse [symmetric]]
        by (auto simp: w dest!: releases_dominated dest: lww.dominatedD)
      obtain h s' where D: "drainLocked (held b) (applyLocked k w (NStore n)) = (h, s')" by (rule prod.exhaust)
      have "ok" "NStore m = (if depsSatisfied (NStore n) deps then s' else NStore n)"
        "held_of m = (if depsSatisfied (NStore n) deps then h else held b @ [\<lparr>pw_key = k, pw_val = w\<rparr>])"
        using out b D deps by (auto simp: deliver_value_def held_of_def Buffer_Receive_def split: if_splits)
      moreover have "held_of n = held b" using b by (simp add: held_of_def)
      ultimately show ?thesis using b r clock rec Inr decoded D grow by simp
    next
      case False
      have "apply_direct k w (NStore n) =
          (if lww.at_least (NStore n) k (ValTS v) then (False, NStore n)
           else (True, Store_Put k (stored_form w) (NStore n)))"
        by (auto simp: apply_direct_def stored_form_def Store_ApplyDelete_is_Apply Store_Apply_def Store_Put_def
            lww.at_least_def lww.version_def Compare_order w tombstone_def split: option.splits)
      then have "ok \<longleftrightarrow> \<not> lww.at_least (NStore n) k (ValTS v)" "held_of m = held_of n"
        "NStore m = (if lww.at_least (NStore n) k (ValTS v) then NStore n else Store_Put k (stored_form w) (NStore n))"
        using out False by (auto simp: deliver_value_def held_of_def split: option.splits if_splits)
      with r clock rec Inr decoded show ?thesis unfolding if_not_P [OF False] by (simp add: Store_Put_def)
    qed
  qed
qed

theorem replicate_transports_write_witness:
  "store_data (NStore (snd (Node_Replicate 90 (buildReplicateRequest ''y'' ex_y (Deps ex_y)) ex_eventual)))
     ''y'' = Some ex_y \<and>
   held_of (snd (Node_Replicate 90 (buildReplicateRequest ''y'' ex_y (Deps ex_y))
     (ex_causal\<lparr>NStore := Store_New\<rparr>))) = [\<lparr>pw_key = ''y'', pw_val = ex_y\<rparr>]"
proof -
  let ?req = "buildReplicateRequest ''y'' ex_y (Deps ex_y)" and ?c = "ex_causal\<lparr>NStore := Store_New\<rparr>"
  have y: "ex_y = \<lparr>Data = Data ex_y, ValTS = ValTS ex_y, Deps = Deps ex_y, Deleted = (Data ex_y = [])\<rparr>"
    "stored_form ex_y = ex_y" by (simp_all add: ex_y_def stored_form_def)
  obtain r n where one: "Node_Replicate 90 ?req ex_eventual = (r, n)" by (rule prod.exhaust)
  obtain r' n' where two: "Node_Replicate 90 ?req ?c = (r', n')" by (rule prod.exhaust)
  have eval: "Mode ex_eventual \<noteq> ''causal''" "\<not> lww.at_least (NStore ex_eventual) ''y'' (ValTS ex_y)"
    "Mode ?c = ''causal''" "NBuffer ?c = Some Buffer_New" "\<not> depsSatisfied Store_New (Deps ex_y)"
    "held_of ?c = []" "NStore ?c = Store_New"
    by (simp_all add: node_eval Store_New_def lww.at_least_def lww.version_def ex_y_def held_of_def Buffer_New_def
        depsSatisfied_iff effective_def Store_GetVersion_def zero_Timestamp_def less_eq_Timestamp_iff)
  have clocks: "\<exists>ts clk. Clock_Receive 90 (ValTS ex_y) (NClock ex_eventual) = (Inr ts, clk)"
    "\<exists>ts clk. Clock_Receive 90 (ValTS ex_y) (NClock ?c) = (Inr ts, clk)"
    by (simp_all add: node_eval ex_y_def Clock_Receive_cases Let_def)
  from replicate_transports_write [OF one y(1)] replicate_transports_write [OF two y(1)] clocks eval y(2)
  show ?thesis unfolding one two by auto
qed

text \<open>
  A put of an empty value is visible at its origin and invisible at its replicas: \<open>Replicate\<close>
  takes a request with an empty value for a deletion, so once the write has been replicated the
  origin reports the key as found and the replica reports it as absent.
\<close>

theorem empty_put_disagrees:
  assumes "Node_Put now call \<lparr>put_Key = k, put_Value = []\<rparr> n = (Inr resp, n', rpcs)"
    and "rpc \<in> set rpcs"
    and "Node_Replicate now' (rpc_request rpc) m = (Inr resp', m')"
    and "NBuffer m = None" and "Store_GetVersion k (NStore m) = None"
  shows "getr_Found (fst (Node_Get \<lparr>get_Key = k\<rparr> n')) \<and>
    \<not> getr_Found (fst (Node_Get \<lparr>get_Key = k\<rparr> m'))"
proof -
  obtain ts deps where p: "store_data (NStore n') = (store_data (NStore n))(k \<mapsto>
       \<lparr>Data = [], ValTS = ts, Deps = deps, Deleted = False\<rparr>)"
    using Put_success [OF assms(1)] by (metis PutRequest.select_convs)
  have req: "rreq_Key (rpc_request rpc) = k" "rreq_Value (rpc_request rpc) = []"
    using Put_rpcs [OF assms(1,2)] by simp_all
  have "store_data (NStore m') k = None \<or> (\<exists>t. store_data (NStore m') k = Some (tombstone t))"
    using assms(3-5) req
    by (auto simp: Node_Replicate_def deliver_value_def apply_direct_def replicated_value_def Let_def
        Store_ApplyDelete_is_Apply Store_Apply_def Store_GetVersion_def
        split: prod.splits sum.splits option.splits if_splits)
  with p show ?thesis
    by (auto simp: Node_Get_def Store_Get_def store_simps Let_def)
qed

theorem empty_put_disagrees_witness:
  "getr_Found (fst (Node_Get \<lparr>get_Key = ''z''\<rparr>
      (fst (snd (Node_Put 150 (ex_call 1) \<lparr>put_Key = ''z'', put_Value = []\<rparr> ex_eventual)))))"
proof -
  let ?req = "buildReplicateRequest ''z'' \<lparr>Data = [], ValTS = Timestamp 150 0, Deps = [], Deleted = False\<rparr> []"
  obtain n' rpcs where put: "Node_Put 150 (ex_call 1) \<lparr>put_Key = ''z'', put_Value = []\<rparr> ex_eventual =
      (Inr \<lparr>putr_Timestamp = Some (toProtoTS (Timestamp 150 0))\<rparr>, n', rpcs)"
    and rpcs: "rpcs = map (send_to ex_opts ''z'' ?req) [1, 2]"
    by (simp add: node_eval handler_defs Clock_Send_cases EventualHandler_OnWrite_def Let_def)
  obtain m' where "Node_Replicate 150 ?req ex_eventual = (Inr \<lparr>rresp_Success = True\<rparr>, m')"
    by (simp add: Node_Replicate_def deliver_value_def apply_direct_def node_eval Store_New_def
      buildReplicateRequest_def replicated_value_def Clock_Receive_cases Let_def
      Store_ApplyDelete_is_Apply Store_Apply_def)
  then have rep: "Node_Replicate 150 (rpc_request (send_to ex_opts ''z'' ?req 1)) ex_eventual =
      (Inr \<lparr>rresp_Success = True\<rparr>, m')"
    by (simp add: send_to_def)
  have "send_to ex_opts ''z'' ?req 1 \<in> set rpcs" by (simp add: rpcs)
  from empty_put_disagrees [OF put this rep] show ?thesis
    unfolding put by (simp add: node_eval Store_New_def Store_GetVersion_def)
qed

text \<open>A message two or more increments ahead of the clock that it ties with leaves the clock behind it.\<close>

lemma tied_clock_behind:
  assumes "WallTime msg = clk_l clk" and "sint (clk_c clk) + 2 \<le> sint (Logical msg)" and "0 \<le> sint (clk_c clk)"
    and "sint now \<le> sint (clk_l clk)" and "sint now' \<le> sint (clk_l clk)"
  obtains clk' clk'' ts where "Clock_Receive now msg clk = (Inr (Clock_Now clk'), clk')"
    and "Clock_Send now' clk' = (Inr ts, clk'')" and "ts \<le> msg"
proof -
  have c: "sint (clk_c clk) < 2147483646" using assms(2) sint32_upper [of "Logical msg"] by simp
  then have one: "sint (clk_c clk + 1) = sint (clk_c clk) + 1" by (simp add: sint_succ32)
  have "sint (clk_c clk + 1 + 1) = sint (clk_c clk + 1) + 1" by (rule sint_succ32) (use c one in simp)
  then have two: "sint (clk_c clk + 1 + 1) = sint (clk_c clk) + 2" unfolding one by linarith
  let ?clk = "\<lparr>clk_l = clk_l clk, clk_c = clk_c clk + 1\<rparr>"
  have rec: "Clock_Receive now msg clk = (Inr (Clock_Now ?clk), ?clk)"
    using assms c by (simp add: Clock_Receive_cases Clock_Now_def)
  have send: "Clock_Send now' ?clk = (Inr (Timestamp (clk_l clk) (clk_c clk + 1 + 1)),
      \<lparr>clk_l = clk_l clk, clk_c = clk_c clk + 1 + 1\<rparr>)"
    using assms(5) c one by (simp add: Clock_Send_cases)
  have "Timestamp (clk_l clk) (clk_c clk + 1 + 1) \<le> msg"
    using assms(1,2) two by (simp add: less_eq_Timestamp_iff)
  with rec send that show ?thesis by blast
qed

text \<open>
  C39: The tie that \<open>Receive\<close> mishandles loses an update. Take any eventual node, and a replicated write
  newer than what the node has of its key, with the clock's own wall time and a counter at least two
  ahead, while the physical clock stands at or behind that wall time. The node applies the write; its next
  \<open>Put\<close> of the key is acknowledged and visible there, but is stamped no later than the write it has
  replaced, and any peer without a buffer that has that write, or a newer one, ignores the \<open>Put\<close>.
\<close>

theorem tied_receive_loses_update:
  assumes node: "Mode n = ''eventual''" "NBuffer n = None" "NHandler n = EventualHandler peers opts"
    and tie: "WallTime (ValTS v) = clk_l (NClock n)" "sint (clk_c (NClock n)) + 2 \<le> sint (Logical (ValTS v))"
      "0 \<le> sint (clk_c (NClock n))"
    and behind: "sint now \<le> sint (clk_l (NClock n))" "sint now' \<le> sint (clk_l (NClock n))"
    and new: "\<not> lww.at_least (NStore n) k (ValTS v)"
    and n1: "n1 = snd (Node_Replicate now (buildReplicateRequest k v deps) n)"
    and peer: "NBuffer m = None" "lww.at_least (NStore m) k (ValTS v)"
  shows "Store_GetVersion k (NStore n1) = Some (ValTS v) \<and>
    (\<exists>resp n2 rpcs t. Node_Put now' call \<lparr>put_Key = k, put_Value = data\<rparr> n1 = (Inr resp, n2, rpcs) \<and>
       getr_Found (fst (Node_Get \<lparr>get_Key = k\<rparr> n2)) \<and> getr_Value (fst (Node_Get \<lparr>get_Key = k\<rparr> n2)) = data \<and>
       Store_GetVersion k (NStore n2) = Some t \<and> t \<le> ValTS v \<and> rpc_peer ` set rpcs = set peers \<and>
       (\<forall>rpc \<in> set rpcs. NStore (snd (Node_Replicate now'' (rpc_request rpc) m)) = NStore m))"
proof -
  let ?w = "\<lparr>Data = Data v, ValTS = ValTS v, Deps = deps, Deleted = (Data v = [])\<rparr>"
  obtain clk clk' t where clocks: "Clock_Receive now (ValTS v) (NClock n) = (Inr (Clock_Now clk), clk)"
    "Clock_Send now' clk = (Inr t, clk')" "t \<le> ValTS v"
    using tied_clock_behind [OF tie behind] by blast
  obtain r where rep: "Node_Replicate now (buildReplicateRequest k v deps) n = (r, n1)"
    using n1 by (metis prod.collapse)
  have n1s: "NClock n1 = clk" "store_data (NStore n1) = (store_data (NStore n))(k \<mapsto> stored_form ?w)"
    using replicate_transports_write [OF rep refl] clocks(1) node(1,2) new by auto
  have frame: "Mode n1 = ''eventual''" "NHandler n1 = EventualHandler peers opts"
    using node by (simp_all add: n1 Node_Replicate_frame)
  obtain deps' n3 where take: "take_deps (n1\<lparr>NClock := clk'\<rparr>) = (deps', n3)" by (rule prod.exhaust)
  note n3 = take_deps_frame [of "n1\<lparr>NClock := clk'\<rparr>", unfolded take, simplified]
  let ?v = "\<lparr>Data = data, ValTS = t, Deps = deps', Deleted = False\<rparr>"
  let ?req = "buildReplicateRequest k ?v []"
  let ?n2 = "n3\<lparr>NStore := Store_Put k ?v (NStore n3)\<rparr>" and ?rpcs = "map (send_to opts k ?req) peers"
  have put: "Node_Put now' call \<lparr>put_Key = k, put_Value = data\<rparr> n1 =
      (Inr \<lparr>putr_Timestamp = Some (toProtoTS t)\<rparr>, ?n2, ?rpcs)"
    using clocks(2) n1s(1) take n3 frame
    by (simp add: Node_Put_def write_through_def EventualHandler_OnWrite_def Let_def)
  have ignored: "NStore (snd (Node_Replicate now'' ?req m)) = NStore m"
  proof -
    obtain r' m' where rm: "Node_Replicate now'' ?req m = (r', m')" by (rule prod.exhaust)
    have "lww.at_least (NStore m) k (ValTS ?v)"
      using peer(2) clocks(3) by (auto simp: lww.at_least_def intro: order_trans)
    with replicate_transports_write [OF rm refl] peer(1) rm show ?thesis
      by (auto split: prod.splits sum.splits)
  qed
  have "Store_GetVersion k (NStore n1) = Some (ValTS v)"
    using n1s(2) by (simp add: Store_GetVersion_def stored_form_def tombstone_def)
  moreover have "rpc_peer ` set ?rpcs = set peers" "\<forall>rpc \<in> set ?rpcs. rpc_request rpc = ?req"
    by (auto simp: send_to_def image_image)
  moreover have "getr_Found (fst (Node_Get \<lparr>get_Key = k\<rparr> ?n2))" "getr_Value (fst (Node_Get \<lparr>get_Key = k\<rparr> ?n2)) = data"
    by (simp_all add: Node_Get_def Store_Get_def store_simps Let_def split: option.split)
  moreover have "Store_GetVersion k (NStore ?n2) = Some t" by (simp add: Store_GetVersion_def store_simps)
  ultimately show ?thesis using put ignored clocks(3) by (intro conjI exI [of _ t] exI [of _ ?n2] exI) auto
qed

text \<open>A node at (100, 0) that receives a write stamped (100, 5), and a peer that has that write.\<close>

definition ex_remote :: Value where
  "ex_remote = \<lparr>Data = [111], ValTS = Timestamp 100 5, Deps = [], Deleted = False\<rparr>"

theorem tied_receive_loses_update_witness:
  "\<exists>n1 resp n2 rpcs t. n1 = snd (Node_Replicate 90 (buildReplicateRequest ''x'' ex_remote []) ex_eventual) \<and>
     Node_Put 90 (ex_call 1) \<lparr>put_Key = ''x'', put_Value = [110]\<rparr> n1 = (Inr resp, n2, rpcs) \<and> rpcs \<noteq> [] \<and>
     Store_GetVersion ''x'' (NStore n1) = Some (Timestamp 100 5) \<and>
     Store_GetVersion ''x'' (NStore n2) = Some t \<and> t \<le> Timestamp 100 5"
proof -
  let ?n1 = "snd (Node_Replicate 90 (buildReplicateRequest ''x'' ex_remote []) ex_eventual)"
  have "Mode ex_eventual = ''eventual''" "NBuffer ex_eventual = None"
    "NHandler ex_eventual = EventualHandler [1, 2] ex_opts"
    "WallTime (ValTS ex_remote) = clk_l (NClock ex_eventual)"
    "sint (clk_c (NClock ex_eventual)) + 2 \<le> sint (Logical (ValTS ex_remote))" "0 \<le> sint (clk_c (NClock ex_eventual))"
    "sint (90 :: int64) \<le> sint (clk_l (NClock ex_eventual))" "\<not> lww.at_least (NStore ex_eventual) ''x'' (ValTS ex_remote)"
    "NBuffer (ex_eventual\<lparr>NStore := \<lparr>store_data = [''x'' \<mapsto> ex_remote]\<rparr>\<rparr>) = None"
    "lww.at_least (NStore (ex_eventual\<lparr>NStore := \<lparr>store_data = [''x'' \<mapsto> ex_remote]\<rparr>\<rparr>)) ''x'' (ValTS ex_remote)"
    by (simp_all add: node_eval ex_remote_def Store_New_def lww.at_least_def lww.version_def)
  from tied_receive_loses_update [OF this(1-7,7,8) refl this(9,10), where call = "ex_call 1" and data = "[110]" and deps = "[]" and now'' = 0]
  obtain resp n2 rpcs t where out: "Node_Put 90 (ex_call 1) \<lparr>put_Key = ''x'', put_Value = [110]\<rparr> ?n1 = (Inr resp, n2, rpcs)"
    "Store_GetVersion ''x'' (NStore ?n1) = Some (ValTS ex_remote)" "Store_GetVersion ''x'' (NStore n2) = Some t"
    "t \<le> ValTS ex_remote" "rpc_peer ` set rpcs = {1, 2}"
    by auto
  then have "rpcs \<noteq> []" by auto
  with out show ?thesis by (auto simp: ex_remote_def)
qed

text \<open>
  C17: A strong \<open>Put\<close> is acknowledged exactly when its handler succeeds; then the node shows the
  value at once, and otherwise its store is what it was, whichever peers have accepted the write.
\<close>

theorem strong_put_outcome:
  assumes "Mode n = ''strong''" and "Node_Put now call req n = (r, n', rpcs)"
  shows "(case r of
      Inl _ \<Rightarrow> NStore n' = NStore n
    | Inr _ \<Rightarrow> \<exists>v. Store_Get (put_Key req) (NStore n') = Some v \<and> Data v = put_Value req \<and>
        fst (Handler_OnWrite call (NHandler n) (put_Key req) v) = None)"
proof -
  obtain s clk where send: "Clock_Send now (NClock n) = (s, clk)" by (rule prod.exhaust)
  show ?thesis
  proof (cases s)
    case (Inl e)
    with assms send show ?thesis by (auto simp: Node_Put_def)
  next
    case (Inr ts)
    let ?n = "n\<lparr>NClock := clk\<rparr>"
    have take: "take_deps ?n = ([], ?n)"
      using assms(1) by (simp add: take_deps_def split: option.split)
    let ?v = "\<lparr>Data = put_Value req, ValTS = ts, Deps = [], Deleted = False\<rparr>"
    obtain e out where h: "Handler_OnWrite call (NHandler n) (put_Key req) ?v = (e, out)"
      by (rule prod.exhaust)
    show ?thesis
    proof (cases e)
      case None
      with assms send Inr take h have "r = Inr \<lparr>putr_Timestamp = Some (toProtoTS ts)\<rparr>"
        "NStore n' = Store_Put (put_Key req) ?v (NStore n)"
        by (auto simp: Node_Put_def write_through_def Let_def)
      with h None show ?thesis by (auto simp: Store_Get_def store_simps)
    next
      case (Some err)
      with assms send Inr take h have "r = Inl (ErrReplication err)" "NStore n' = NStore n"
        by (auto simp: Node_Put_def write_through_def Let_def)
      then show ?thesis by simp
    qed
  qed
qed

theorem strong_put_outcome_witness:
  "(\<exists>n' rpcs. Node_Put 300 (ex_call 7) ex_put ex_strong = (Inl (ErrReplication QuorumNotReached), n', rpcs) \<and>
      NStore n' = NStore ex_strong) \<and>
   (\<exists>resp n' rpcs v. Node_Put 300 (ex_call 1) ex_put ex_strong = (Inr resp, n', rpcs) \<and>
      Store_Get ''z'' (NStore n') = Some v \<and> Data v = [122])"
proof -
  have mode: "Mode ex_strong = ''strong''" by (simp add: ex_strong_def NewNode_def)
  obtain n' rpcs where err: "Node_Put 300 (ex_call 7) ex_put ex_strong = (Inl (ErrReplication QuorumNotReached), n', rpcs)"
    by (simp add: node_eval handler_defs Clock_Send_cases strong_eval Let_def)
  obtain resp m rpcs2 where ok: "Node_Put 300 (ex_call 1) ex_put ex_strong = (Inr resp, m, rpcs2)"
    by (simp add: node_eval handler_defs Clock_Send_cases strong_eval Let_def)
  have "put_Key ex_put = ''z''" "put_Value ex_put = [122]" by (simp_all add: ex_put_def)
  with strong_put_outcome [OF mode err] strong_put_outcome [OF mode ok] err ok show ?thesis by auto
qed

text \<open>
  The strong mode reads from the local store only. A write acknowledged by the quorum \<open>{0, 1}\<close>
  of three nodes is not seen by a later \<open>Get\<close> at node 2, which answers that the key is absent.
\<close>

theorem strong_read_misses_acknowledged_write:
  "\<exists>resp n' rpcs. Node_Put 300 (ex_call 1) ex_put ex_strong = (Inr resp, n', rpcs) \<and>
     getr_Found (fst (Node_Get \<lparr>get_Key = put_Key ex_put\<rparr> n')) \<and>
     \<not> reply_ok (ex_call 1 2 (rpc_request (last rpcs))) \<and> rpc_peer (last rpcs) = 2 \<and>
     \<not> getr_Found (fst (Node_Get \<lparr>get_Key = put_Key ex_put\<rparr>
          (NewNode ''strong'' Store_New (Clock_New 0) None (StrongHandler [0, 1 :: nat] 2 ex_opts))))"
  by (simp add: ex_strong_def ex_put_def NewNode_def Node_Put_def write_through_def take_deps_def
      Clock_Send_cases StrongHandler_OnWrite_def reply_ok_def ex_call_def Node_Get_def Store_Get_def
      Store_Put_def Store_New_def send_to_def Let_def)

text \<open>
  The clock takes any wall time from a peer: one replicated write from the end of the 64-bit range,
  with its counter just below the top, leaves a clock that refuses everything from then on, and the
  node neither writes nor applies anything again, whatever its physical clock reads.
\<close>

theorem far_future_write_stops_node:
  assumes "Node_Replicate now req n = (Inr resp, n')"
    and "rreq_Timestamp req = Some pts" "fromProtoTS pts = Timestamp 0x7fffffffffffffff 0x7ffffffe"
    and "clk_l (NClock n) \<noteq> 0x7fffffffffffffff" and "rreq_Timestamp later = Some pts'"
  shows "Node_Put now' call preq n' = (Inl (ErrHLC LogicalOverflow), n', []) \<and>
    Node_Delete now' call dreq n' = (Inl (ErrHLC LogicalOverflow), n', []) \<and>
    (\<exists>e. Node_Replicate now' later n' = (Inl (ErrHLC e), n'))"
proof -
  have top: "sint x \<le> 9223372036854775807" for x :: int64 using sint_lt [of x] by simp
  have "sint (clk_l (NClock n)) \<noteq> sint (0x7fffffffffffffff :: int64)"
    using assms(4) by (simp only: sint_eq_iff) simp
  then have below: "\<not> 9223372036854775807 \<le> sint (clk_l (NClock n))" using top [of "clk_l (NClock n)"] by simp
  have "Clock_Receive now (fromProtoTS pts) (NClock n) =
      (Inr (Timestamp 0x7fffffffffffffff 0x7fffffff), \<lparr>clk_l = 0x7fffffffffffffff, clk_c = 0x7fffffff\<rparr>)"
    unfolding assms(3) using below top [of now] by (simp add: Clock_Receive_cases max_def)
  then have "NClock (snd (Node_Replicate now req n)) = \<lparr>clk_l = 0x7fffffffffffffff, clk_c = 0x7fffffff\<rparr>"
    by (simp add: Node_Replicate_def Let_def split_beta assms(2) deliver_value_frame)
  then have clk: "NClock n' = \<lparr>clk_l = 0x7fffffffffffffff, clk_c = 0x7fffffff\<rparr>" by (simp add: assms(1))
  have same: "n'\<lparr>NClock := \<lparr>clk_l = 0x7fffffffffffffff, clk_c = 0x7fffffff\<rparr>\<rparr> = n'" unfolding clk [symmetric] by simp
  have "Clock_Send now' (NClock n') = (Inl LogicalOverflow, NClock n')"
    unfolding clk using top [of now'] by (simp add: Clock_Send_cases)
  moreover have "\<exists>e. Clock_Receive now' (fromProtoTS pts') (NClock n') = (Inl e, NClock n')"
    unfolding clk using top by (simp add: Clock_Receive_cases)
  ultimately show ?thesis using same clk assms(5) by (auto simp: Node_Put_def Node_Delete_def Node_Replicate_def)
qed

theorem far_future_write_stops_node_witness:
  "\<exists>n'. snd (Node_Replicate 300 (buildReplicateRequest ''x''
       \<lparr>Data = [1], ValTS = Timestamp 0x7fffffffffffffff 0x7ffffffe, Deps = [], Deleted = False\<rparr> []) ex_eventual) = n' \<and>
     (\<forall>now' req. fst (Node_Put now' (ex_call 1) req n') = Inl (ErrHLC LogicalOverflow))"
proof -
  let ?ts = "Timestamp 0x7fffffffffffffff 0x7ffffffe"
  let ?req = "buildReplicateRequest ''x'' \<lparr>Data = [1], ValTS = ?ts, Deps = [], Deleted = False\<rparr> []"
  obtain resp n' where rep: "Node_Replicate 300 ?req ex_eventual = (Inr resp, n')"
    by (simp add: Node_Replicate_def node_eval buildReplicateRequest_def Clock_Receive_cases to_rep_Timestamp_def
        fromProtoTS_def Let_def split_beta)
  have ts: "rreq_Timestamp ?req = Some (to_rep_Timestamp ?ts)" "fromProtoTS (to_rep_Timestamp ?ts) = ?ts"
    by (simp_all add: buildReplicateRequest_def)
  have "clk_l (NClock ex_eventual) \<noteq> 0x7fffffffffffffff" by (simp add: node_eval)
  note stops = far_future_write_stops_node [OF rep ts this ts(1)]
  have "fst (Node_Put now' (ex_call 1) req n') = Inl (ErrHLC LogicalOverflow)" for now' req
    using stops [of now' "ex_call 1" req] by simp
  with rep show ?thesis by simp
qed

end
