(* ===== verification/GoText.thy ===== *)
theory GoText
  imports Prelude "HOL-Library.Sublist"
begin

text \<open>
  The parts of Go's \<open>strings\<close> and \<open>fmt\<close> packages that the code uses: splitting on a separator of
  one byte, trimming of white space, and the decimal rendering of integers (\<open>%d\<close>).
\<close>

section \<open>Splitting\<close>

fun Split :: "char \<Rightarrow> string \<Rightarrow> string list" where
  "Split c [] = [[]]"
| "Split c (x # xs) =
     (if x = c then [] # Split c xs
      else (case Split c xs of [] \<Rightarrow> [[x]] | p # ps \<Rightarrow> (x # p) # ps))"

lemma Split_ne: "Split c s \<noteq> []"
  by (induction c s rule: Split.induct) (auto split: list.split)

lemma Split_free: "p \<in> set (Split c s) \<Longrightarrow> c \<notin> set p"
proof (induction c s arbitrary: p rule: Split.induct)
  case (2 c x xs)
  then show ?case by (cases "Split c xs") (auto split: if_splits)
qed simp

lemma Split_none: "c \<notin> set s \<Longrightarrow> Split c s = [s]"
  by (induction c s rule: Split.induct) auto

lemma Split_append: "c \<notin> set p \<Longrightarrow> Split c (p @ c # s) = p # Split c s"
  by (induction p) auto

text \<open>Joining with the separator, the inverse on lists of parts that are free of it.\<close>

fun join_with :: "char \<Rightarrow> string list \<Rightarrow> string" where
  "join_with c [] = []"
| "join_with c [p] = p"
| "join_with c (p # q # ps) = p @ c # join_with c (q # ps)"

lemma Split_join: "ps \<noteq> [] \<Longrightarrow> \<forall>p \<in> set ps. c \<notin> set p \<Longrightarrow> Split c (join_with c ps) = ps"
  by (induction c ps rule: join_with.induct) (simp_all add: Split_none Split_append)

section \<open>Trimming\<close>

text \<open>
  The encodings of the characters that \<open>unicode.IsSpace\<close> accepts: tab, line feed, vertical tab,
  form feed, carriage return and space in one byte, U+0085 and U+00A0 in two, and U+1680,
  U+2000 to U+200A, U+2028, U+2029, U+202F, U+205F and U+3000 in three bytes of UTF-8.
\<close>

definition white_codes :: "nat list list" where
  "white_codes = [[9], [10], [11], [12], [13], [32], [194, 133], [194, 160], [225, 154, 128]] @
     map (\<lambda>b. [226, 128, b]) ([128..<139] @ [168, 169, 175]) @ [[226, 129, 159], [227, 128, 128]]"

definition whites :: "string list" where
  "whites = map (map char_of) white_codes"

lemma whites_ne: "[] \<notin> set whites"
  by (auto simp: whites_def white_codes_def)

function strip_left :: "string \<Rightarrow> string" where
  "strip_left s =
     (case find (\<lambda>w. prefix w s) whites of
        None \<Rightarrow> s
      | Some w \<Rightarrow> strip_left (drop (length w) s))"
  by pat_completeness auto
termination
proof (relation "measure length")
  fix s w
  assume "find (\<lambda>w. prefix w s) whites = Some w"
  then have "prefix w s" "w \<noteq> []" using whites_ne by (auto simp: find_Some_iff in_set_conv_nth)
  then show "(drop (length w) s, s) \<in> measure length" by (cases w) (auto simp: prefix_def)
qed simp

declare strip_left.simps [simp del]

function strip_right :: "string \<Rightarrow> string" where
  "strip_right s =
     (case find (\<lambda>w. suffix w s) whites of
        None \<Rightarrow> s
      | Some w \<Rightarrow> strip_right (take (length s - length w) s))"
  by pat_completeness auto
termination
proof (relation "measure length")
  fix s w
  assume "find (\<lambda>w. suffix w s) whites = Some w"
  then have "suffix w s" "w \<noteq> []" using whites_ne by (auto simp: find_Some_iff in_set_conv_nth)
  then show "(take (length s - length w) s, s) \<in> measure length" by (cases w) (auto simp: suffix_def)
qed simp

declare strip_right.simps [simp del]

definition TrimSpace :: "string \<Rightarrow> string" where
  "TrimSpace s = strip_right (strip_left s)"

text \<open>A string with white space at neither end.\<close>

definition trimmed :: "string \<Rightarrow> bool" where
  "trimmed s \<longleftrightarrow> list_all (\<lambda>w. \<not> prefix w s \<and> \<not> suffix w s) whites"

lemma find_none: "find P xs = None \<longleftrightarrow> list_all (\<lambda>x. \<not> P x) xs"
  by (auto simp: find_None_iff list_all_iff)

lemma strip_left_stops: "list_all (\<lambda>w. \<not> prefix w (strip_left s)) whites"
proof (induction s rule: strip_left.induct)
  case (1 s)
  show ?case
  proof (cases "find (\<lambda>w. prefix w s) whites")
    case None
    then have "strip_left s = s" by (simp add: strip_left.simps [of s])
    with None show ?thesis by (simp add: find_none)
  next
    case (Some w)
    with 1 show ?thesis by (simp add: strip_left.simps [of s])
  qed
qed

lemma strip_right_stops: "list_all (\<lambda>w. \<not> suffix w (strip_right s)) whites"
proof (induction s rule: strip_right.induct)
  case (1 s)
  show ?case
  proof (cases "find (\<lambda>w. suffix w s) whites")
    case None
    then have "strip_right s = s" by (simp add: strip_right.simps [of s])
    with None show ?thesis by (simp add: find_none)
  next
    case (Some w)
    with 1 show ?thesis by (simp add: strip_right.simps [of s])
  qed
qed

lemma strip_right_prefix: "prefix (strip_right s) s"
proof (induction s rule: strip_right.induct)
  case (1 s)
  show ?case
  proof (cases "find (\<lambda>w. suffix w s) whites")
    case None
    then show ?thesis by (simp add: strip_right.simps [of s])
  next
    case (Some w)
    with 1 have "prefix (strip_right s) (take (length s - length w) s)"
      by (simp add: strip_right.simps [of s])
    then show ?thesis using take_is_prefix prefix_order.trans by blast
  qed
qed

lemma TrimSpace_trimmed: "trimmed (TrimSpace s)"
proof -
  have "\<not> prefix w (TrimSpace s)" if "w \<in> set whites" for w
    using strip_left_stops [of s] that strip_right_prefix [of "strip_left s"] prefix_order.trans
    unfolding TrimSpace_def by (fastforce simp: list_all_iff)
  then show ?thesis
    using strip_right_stops [of "strip_left s"] by (simp add: trimmed_def TrimSpace_def list_all_iff)
qed

lemma TrimSpace_id:
  assumes "trimmed s"
  shows "TrimSpace s = s"
proof -
  have "find (\<lambda>w. prefix w s) whites = None" "find (\<lambda>w. suffix w s) whites = None"
    using assms by (simp_all add: trimmed_def find_none list_all_iff)
  then show ?thesis by (simp add: TrimSpace_def strip_left.simps [of s] strip_right.simps [of s])
qed

lemma strip_left_suffix: "suffix (strip_left s) s"
proof (induction s rule: strip_left.induct)
  case (1 s)
  show ?case
  proof (cases "find (\<lambda>w. prefix w s) whites")
    case None
    then show ?thesis by (simp add: strip_left.simps [of s])
  next
    case (Some w)
    with 1 have "suffix (strip_left s) (drop (length w) s)" by (simp add: strip_left.simps [of s])
    then show ?thesis using suffix_drop suffix_order.trans by blast
  qed
qed

lemma TrimSpace_chars: "set (TrimSpace s) \<subseteq> set s"
  unfolding TrimSpace_def
  using set_mono_prefix [OF strip_right_prefix [of "strip_left s"]] set_mono_suffix [OF strip_left_suffix [of s]]
  by (rule order_trans)

text \<open>A string whose first and last bytes are printable ASCII other than space is trimmed.\<close>

definition solid :: "char \<Rightarrow> bool" where
  "solid c \<longleftrightarrow> (of_char c :: nat) \<in> {33..<128}"

lemma whites_not_solid: "\<forall>w \<in> set whites. w \<noteq> [] \<and> \<not> solid (hd w) \<and> \<not> solid (last w)"
  by (simp add: whites_def white_codes_def solid_def upt_rec)

lemma trimmed_solid:
  assumes "s \<noteq> []" and "solid (hd s)" and "solid (last s)"
  shows "trimmed s"
proof -
  have "\<not> prefix w s \<and> \<not> suffix w s" if "w \<in> set whites" for w
  proof -
    from whites_not_solid that have w: "w \<noteq> []" "\<not> solid (hd w)" "\<not> solid (last w)" by auto
    then have "prefix w s \<Longrightarrow> hd s = hd w" "suffix w s \<Longrightarrow> last s = last w"
      by (auto simp: prefix_def suffix_def)
    with w assms show ?thesis by auto
  qed
  then show ?thesis by (simp add: trimmed_def list_all_iff)
qed

section \<open>Decimal rendering\<close>

definition digit_char :: "nat \<Rightarrow> char" where
  "digit_char d = char_of (48 + d)"

fun show_nat :: "nat \<Rightarrow> string" where
  "show_nat n =
     (if n < 10 then [digit_char n] else show_nat (n div 10) @ [digit_char (n mod 10)])"

declare show_nat.simps [simp del]

definition show_int :: "int \<Rightarrow> string" where
  "show_int i = (if i < 0 then CHR ''-'' # show_nat (nat (- i)) else show_nat (nat i))"

definition read_nat :: "string \<Rightarrow> nat" where
  "read_nat s = foldl (\<lambda>a c. 10 * a + (of_char c - 48)) 0 s"

lemma of_digit_char: "d < 10 \<Longrightarrow> of_char (digit_char d) = 48 + d"
  by (simp add: digit_char_def of_char_of)

lemma read_show_nat: "read_nat (show_nat n) = n"
proof (induction n rule: show_nat.induct)
  case (1 n)
  show ?case
  proof (cases "n < 10")
    case True
    then show ?thesis by (simp add: show_nat.simps [of n] read_nat_def of_digit_char)
  next
    case False
    with 1 show ?thesis by (simp add: show_nat.simps [of n] read_nat_def of_digit_char)
  qed
qed

lemma show_nat_digits: "c \<in> set (show_nat n) \<Longrightarrow> \<exists>d < 10. c = digit_char d"
proof (induction n rule: show_nat.induct)
  case (1 n)
  note IH = 1(1)
  show ?case
  proof (cases "n < 10")
    case True
    with 1(2) show ?thesis by (auto simp: show_nat.simps [of n])
  next
    case False
    with 1(2) consider "c \<in> set (show_nat (n div 10))" | "c = digit_char (n mod 10)"
      by (auto simp: show_nat.simps [of n])
    then show ?thesis
    proof cases
      case 1
      then show ?thesis by (rule IH [OF False])
    next
      case 2
      then show ?thesis by (intro exI [of _ "n mod 10"]) simp
    qed
  qed
qed

lemma minus_not_digit: "CHR ''-'' \<notin> set (show_nat n)"
proof
  assume "CHR ''-'' \<in> set (show_nat n)"
  then obtain d where "d < 10" "CHR ''-'' = digit_char d" using show_nat_digits by blast
  then have "of_char (CHR ''-'') = 48 + d" using of_digit_char [of d] by (simp only:)
  then show False by simp
qed

lemma show_nat_inj: "show_nat m = show_nat n \<Longrightarrow> m = n"
  by (metis read_show_nat)

text \<open>Different integers have different renderings.\<close>

lemma show_int_inj:
  assumes "show_int a = show_int b"
  shows "a = b"
proof -
  have clash: False if "CHR ''-'' # u = show_nat k" for u k
    using minus_not_digit [of k] that [symmetric] by simp
  show ?thesis
  proof (cases "a < 0"; cases "b < 0")
    assume "a < 0" "b < 0"
    with assms have "nat (- a) = nat (- b)" by (auto simp: show_int_def dest: show_nat_inj)
    with \<open>a < 0\<close> \<open>b < 0\<close> show ?thesis by simp
  next
    assume "\<not> a < 0" "\<not> b < 0"
    with assms have "nat a = nat b" by (auto simp: show_int_def dest: show_nat_inj)
    with \<open>\<not> a < 0\<close> \<open>\<not> b < 0\<close> show ?thesis by simp
  qed (use assms clash in \<open>auto simp: show_int_def dest: sym\<close>)
qed

end
