(* ===== verification/NodeMain.thy ===== *)
theory NodeMain
  imports Server GoText
begin

text \<open>
  The node command, \<open>cmd/node/main.go\<close>: its flags, validation of the mode, parsing of the peer
  list, dialling of the peers, construction of the node, and the life of the process until it is
  interrupted or stops with an error. Dialling, listening, serving and closing a connection are done
  by libraries and are arguments; dialling an address gives a connection, or \<^const>\<open>None\<close> where
  \<open>grpc.NewClient\<close> fails. What is logged, and the profiling server that only logs, are not modelled.
\<close>

text \<open>The flags, and their values when they are not given.\<close>

record node_flags =
  flag_mode :: string
  flag_port :: int
  flag_peers :: string
  flag_delayPrefix :: string
  flag_delay :: int64
  flag_peerDelay :: int64
  flag_pprof :: string

definition default_node_flags :: node_flags where
  "default_node_flags = \<lparr>flag_mode = ''eventual'', flag_port = 50051, flag_peers = [],
     flag_delayPrefix = [], flag_delay = 0, flag_peerDelay = 0, flag_pprof = []\<rparr>"

fun contains :: "string list \<Rightarrow> string \<Rightarrow> bool" where
  "contains [] s = False"
| "contains (v # ss) s = (if v = s then True else contains ss s)"

definition validModes :: "string list" where
  "validModes = [''eventual'', ''causal'', ''strong'']"

text \<open>\<open>client\<close> is \<open>NewReplicationClient\<close>: the client on a connection.\<close>

fun dial_loop :: "(string \<Rightarrow> 'c option) \<Rightarrow> ('c \<Rightarrow> 'p) \<Rightarrow> string list \<Rightarrow> 'p list \<Rightarrow> 'c list \<Rightarrow> 'p list \<times> 'c list" where
  "dial_loop dial client [] clients conns = (clients, conns)"
| "dial_loop dial client (addr # addrs) clients conns =
     (case dial addr of
        None \<Rightarrow> dial_loop dial client addrs clients conns
      | Some conn \<Rightarrow> dial_loop dial client addrs (clients @ [client conn]) (conns @ [conn]))"

definition dialPeers :: "(string \<Rightarrow> 'c option) \<Rightarrow> ('c \<Rightarrow> 'p) \<Rightarrow> string list \<Rightarrow> 'p list \<times> 'c list" where
  "dialPeers dial client peerList = dial_loop dial client peerList [] []"

fun closeConns :: "('c \<Rightarrow> 'w \<Rightarrow> 'w) \<Rightarrow> 'c list \<Rightarrow> 'w \<Rightarrow> 'w" where
  "closeConns close [] w = w"
| "closeConns close (conn # conns) w = closeConns close conns (close conn w)"

text \<open>The loop of \<open>parsePeers\<close>, which \<open>cmd/checker/main.go\<close> repeats as \<open>parseList\<close>.\<close>

fun parse_parts :: "string list \<Rightarrow> string list \<Rightarrow> string list" where
  "parse_parts [] out = out"
| "parse_parts (p # ps) out =
     (let p' = TrimSpace p in parse_parts ps (if p' \<noteq> [] then out @ [p'] else out))"

definition parsePeers :: "string \<Rightarrow> string list" where
  "parsePeers raw = parse_parts (Split (CHR '','') raw) []"

text \<open>
  The node that \<open>main\<close> builds, from the clients of its peers and the reading of the physical clock;
  \<^const>\<open>None\<close> where it stops with "invalid --mode".
\<close>

definition wire_node :: "string \<Rightarrow> 'p list \<Rightarrow> Options \<Rightarrow> int64 \<Rightarrow> 'p Node option" where
  "wire_node modeVal clients opts now =
     (let s = Store_New;
          clk = Clock_New now;
          buf = (if modeVal = ''causal'' then Some Buffer_New else None)
      in case NewHandler modeVal clients opts of
           None \<Rightarrow> None
         | Some handler \<Rightarrow> Some (NewNode modeVal s clk buf handler))"

definition start_node :: "string \<Rightarrow> 'p list \<Rightarrow> Options \<Rightarrow> int64 \<Rightarrow> 'p Node option" where
  "start_node modeVal clients opts now =
     (if \<not> contains validModes modeVal then None else wire_node modeVal clients opts now)"

section \<open>The process\<close>

text \<open>How it ends; \<open>HandlerPanic\<close> is the panic of \<open>NewHandler\<close> on an unknown mode.\<close>

datatype 'e node_exit =
    InvalidMode string
  | HandlerPanic
  | ListenFailed 'e
  | ServeFailed 'e
  | Interrupted

text \<open>The lines on standard output, by what they are printed from.\<close>

datatype node_line =
    Starting
  | ModeLine string
  | PortLine int
  | PeersLine "string list"
  | PeerDelayLine int64
  | PprofLine string
  | Running
  | ShuttingDown

definition banner :: "node_flags \<Rightarrow> string list \<Rightarrow> node_line list" where
  "banner flags peerList =
     [Starting, ModeLine (flag_mode flags), PortLine (flag_port flags), PeersLine peerList] @
     (if sint (flag_peerDelay flags) > 0 then [PeerDelayLine (flag_peerDelay flags)] else []) @
     (if flag_pprof flags \<noteq> [] then [PprofLine (flag_pprof flags)] else []) @
     [Running]"

text \<open>
  \<open>serve\<close> runs the server until a signal has come and \<open>GracefulStop\<close> has returned (\<^const>\<open>None\<close>), or
  until \<open>Serve\<close> fails before that; then the goroutine stops the process, after the given number of
  the lines that \<open>main\<close> prints meanwhile. \<open>log.Fatalf\<close> ends the process at once; a panic runs the
  deferred \<open>closeConns\<close>.
\<close>

definition node_main ::
  "(string \<Rightarrow> 'c option) \<Rightarrow> ('c \<Rightarrow> 'p) \<Rightarrow> ('c \<Rightarrow> 'w \<Rightarrow> 'w) \<Rightarrow> (string \<Rightarrow> 'w \<Rightarrow> ('e + 'l) \<times> 'w) \<Rightarrow>
   ('l \<Rightarrow> 'p Node \<Rightarrow> 'w \<Rightarrow> ('e \<times> nat) option \<times> 'w) \<Rightarrow> node_flags \<Rightarrow> int64 \<Rightarrow> 'w \<Rightarrow>
   'e node_exit \<times> node_line list \<times> 'w" where
  "node_main dial client close listen serve flags now w =
     (let modeVal = flag_mode flags in
      if \<not> contains validModes modeVal then (InvalidMode modeVal, [], w)
      else
        let peerList = parsePeers (flag_peers flags) in
        case dialPeers dial client peerList of (peerClients, conns) \<Rightarrow>
        case wire_node modeVal peerClients \<lparr>DelayPrefix = flag_delayPrefix flags,
               Delay = flag_delay flags, PeerDelay = flag_peerDelay flags\<rparr> now of
          None \<Rightarrow> (HandlerPanic, [], closeConns close conns w)
        | Some node \<Rightarrow>
            (case listen (CHR '':'' # show_int (flag_port flags)) w of
               (Inl e, w1) \<Rightarrow> (ListenFailed e, [], w1)
             | (Inr lis, w1) \<Rightarrow>
                 (case serve lis node w1 of
                    (Some (e, k), w2) \<Rightarrow> (ServeFailed e, take k (banner flags peerList), w2)
                  | (None, w2) \<Rightarrow>
                      (Interrupted, banner flags peerList @ [ShuttingDown], closeConns close conns w2))))"

section \<open>Wiring\<close>

lemma contains_iff: "contains ss s \<longleftrightarrow> s \<in> set ss"
  by (induction ss) auto

text \<open>Validation is complete: past it, \<open>NewHandler\<close> does not panic.\<close>

lemma start_node_Some:
  "start_node mode clients opts now = Some n \<longleftrightarrow>
     mode \<in> set validModes \<and>
     (\<exists>h. NewHandler mode clients opts = Some h \<and>
        n = NewNode mode Store_New (Clock_New now) (if mode = ''causal'' then Some Buffer_New else None) h)"
  by (auto simp: start_node_def wire_node_def contains_iff Let_def split: option.splits)

lemma start_node_None: "start_node mode clients opts now = None \<longleftrightarrow> mode \<notin> set validModes"
  by (auto simp: start_node_def wire_node_def contains_iff validModes_def NewHandler_def Let_def)

section \<open>The peer list\<close>

lemma parse_parts_filter: "parse_parts ps out = out @ filter (\<lambda>p. p \<noteq> []) (map TrimSpace ps)"
  by (induction ps out rule: parse_parts.induct) (auto simp: Let_def)

lemma parse_join:
  assumes "list_all (\<lambda>a. a \<noteq> [] \<and> trimmed a \<and> CHR '','' \<notin> set a) addrs"
  shows "parsePeers (join_with (CHR '','') addrs) = addrs"
proof (cases "addrs = []")
  case True
  have "trimmed []" using whites_ne by (auto simp: trimmed_def list_all_iff)
  with True show ?thesis by (simp add: parsePeers_def parse_parts_filter TrimSpace_id)
next
  case False
  have "map TrimSpace addrs = addrs" and "filter (\<lambda>p. p \<noteq> []) addrs = addrs"
    using assms by (auto simp: list_all_iff TrimSpace_id filter_id_conv intro: map_idI)
  moreover have "Split (CHR '','') (join_with (CHR '','') addrs) = addrs"
    using False assms by (intro Split_join) (auto simp: list_all_iff)
  ultimately show ?thesis by (simp add: parsePeers_def parse_parts_filter)
qed

definition dialled :: "(string \<Rightarrow> 'c option) \<Rightarrow> string list \<Rightarrow> 'c list" where
  "dialled dial addrs = List.map_filter dial addrs"

lemma dial_loop_dialled: "dial_loop dial client addrs clients conns =
    (clients @ map client (dialled dial addrs), conns @ dialled dial addrs)"
  by (induction dial client addrs clients conns rule: dial_loop.induct)
    (auto simp: dialled_def List.map_filter_simps split: option.splits)

lemma dialPeers_dialled: "dialPeers dial client addrs = (map client (dialled dial addrs), dialled dial addrs)"
  by (simp add: dialPeers_def dial_loop_dialled)

lemma dialled_length: "length (dialled dial addrs) = length (filter (\<lambda>a. dial a \<noteq> None) addrs)"
  by (simp add: dialled_def map_filter_def)

lemma closeConns_fold: "closeConns close conns w = fold close conns w"
  by (induction close conns w rule: closeConns.induct) simp_all

lemma wire_node_valid: "mode \<in> set validModes \<Longrightarrow> wire_node mode clients opts now = start_node mode clients opts now"
  by (simp add: start_node_def contains_iff)

section \<open>Properties\<close>

text \<open>
  The peer list is parsed as written: every parsed address is non-empty, has no comma and no
  white space at its ends; and a list of such addresses, joined with commas, parses to itself.
\<close>

theorem parsePeers_roundtrip:
  assumes "list_all (\<lambda>a. a \<noteq> [] \<and> trimmed a \<and> CHR '','' \<notin> set a) addrs"
  shows "parsePeers (join_with (CHR '','') addrs) = addrs \<and>
    list_all (\<lambda>a. a \<noteq> [] \<and> trimmed a \<and> CHR '','' \<notin> set a) (parsePeers raw)"
proof
  show "parsePeers (join_with (CHR '','') addrs) = addrs" by (rule parse_join [OF assms])
  show "list_all (\<lambda>a. a \<noteq> [] \<and> trimmed a \<and> CHR '','' \<notin> set a) (parsePeers raw)"
    using Split_free TrimSpace_chars
    by (fastforce simp: parsePeers_def parse_parts_filter list_all_iff TrimSpace_trimmed)
qed

theorem parsePeers_roundtrip_witness:
  "parsePeers ''a:1,b:2'' = [''a:1'', ''b:2'']"
proof -
  have "list_all (\<lambda>a. a \<noteq> [] \<and> trimmed a \<and> CHR '','' \<notin> set a) [''a:1'', ''b:2'']"
    by (simp add: trimmed_solid solid_def)
  from parsePeers_roundtrip [OF this] show ?thesis by simp
qed

text \<open>
  The strong mode counts the peers it could dial, not the peers it was given: with \<open>d\<close> dialled
  peers a write needs \<open>(d + 1) div 2\<close> of them whatever the length of the list, and when no address can
  be dialled every write is acknowledged by the node alone, without an RPC.
\<close>

theorem quorum_counts_dialled_peers:
  assumes "start_node ''strong'' (fst (dialPeers dial client addrs)) opts now = Some n"
    and "d = length (filter (\<lambda>a. dial a \<noteq> None) addrs)"
  shows "(fst (Handler_OnWrite call (NHandler n) k v) = None \<longleftrightarrow>
      (d + 1) div 2 \<le> length (acks call (fst (dialPeers dial client addrs)) (buildReplicateRequest k v []))) \<and>
    (d = 0 \<longrightarrow> Handler_OnWrite call (NHandler n) k v = (None, []))"
proof -
  have h: "NewHandler ''strong'' (fst (dialPeers dial client addrs)) opts = Some (NHandler n)"
    using assms(1) by (auto simp: start_node_Some NewNode_def)
  have len: "length (fst (dialPeers dial client addrs)) = d"
    by (simp add: assms(2) dialPeers_dialled dialled_length)
  have "fst (Handler_OnWrite call (NHandler n) k v) = None \<longleftrightarrow>
      (d + 1) div 2 \<le> length (acks call (fst (dialPeers dial client addrs)) (buildReplicateRequest k v []))"
    unfolding strong_OnWrite_iff [OF h] len quorum_size_def by linarith
  moreover have "Handler_OnWrite call (NHandler n) k v = (None, [])" if "d = 0"
  proof -
    have "NHandler n = StrongHandler [] (quorum_size 1) opts"
      using h len that by (simp add: NewHandler_def)
    then show ?thesis by (simp add: StrongHandler_OnWrite_def)
  qed
  ultimately show ?thesis by blast
qed

theorem quorum_counts_dialled_peers_witness:
  "\<exists>n. start_node ''strong'' (fst (dialPeers (\<lambda>_. None) (id :: nat \<Rightarrow> nat) [''bad one'', ''bad two''])) ex_opts 0 = Some n \<and>
     Handler_OnWrite (\<lambda>_ _. RPCError) (NHandler n) ''x'' ex_x = (None, [])"
proof -
  obtain n where n: "start_node ''strong'' (fst (dialPeers (\<lambda>_. None) (id :: nat \<Rightarrow> nat) [''bad one'', ''bad two''])) ex_opts 0
      = Some n"
    by (simp add: start_node_def wire_node_def validModes_def NewHandler_def Let_def)
  with quorum_counts_dialled_peers [OF n refl, of "\<lambda>_ _. RPCError" "''x''" ex_x] show ?thesis by auto
qed

text \<open>
  C29: The process ends in one of four ways, never by the panic of \<open>NewHandler\<close>. With an unknown mode it
  touches nothing. Otherwise it serves exactly the node that \<open>start_node\<close> builds on the peers that
  could be dialled; when it is interrupted it has printed its banner in full and closes every
  dialled connection once, in the order of the list; when it stops with an error it closes none.
\<close>

theorem node_main_lifecycle:
  assumes "node_main dial client close listen serve flags now w = (exit, out, w')"
    and "conns = dialled dial (parsePeers (flag_peers flags))"
    and "opts = \<lparr>DelayPrefix = flag_delayPrefix flags, Delay = flag_delay flags, PeerDelay = flag_peerDelay flags\<rparr>"
  shows "case exit of
      InvalidMode m \<Rightarrow> m = flag_mode flags \<and> start_node m (map client conns) opts now = None \<and> out = [] \<and> w' = w
    | HandlerPanic \<Rightarrow> False
    | ListenFailed e \<Rightarrow> fst (listen (CHR '':'' # show_int (flag_port flags)) w) = Inl e \<and> out = [] \<and>
        w' = snd (listen (CHR '':'' # show_int (flag_port flags)) w)
    | ServeFailed e \<Rightarrow> \<exists>lis n w1 k. listen (CHR '':'' # show_int (flag_port flags)) w = (Inr lis, w1) \<and>
        start_node (flag_mode flags) (map client conns) opts now = Some n \<and> serve lis n w1 = (Some (e, k), w') \<and>
        ShuttingDown \<notin> set out
    | Interrupted \<Rightarrow> \<exists>lis n w1 w2. listen (CHR '':'' # show_int (flag_port flags)) w = (Inr lis, w1) \<and>
        start_node (flag_mode flags) (map client conns) opts now = Some n \<and> serve lis n w1 = (None, w2) \<and>
        w' = fold close conns w2 \<and> hd out = Starting \<and> last out = ShuttingDown"
proof (cases "flag_mode flags \<in> set validModes")
  case False
  with assms(1) show ?thesis by (auto simp: node_main_def contains_iff Let_def start_node_None)
next
  case True
  then obtain n where n: "start_node (flag_mode flags) (map client conns) opts now = Some n"
    using start_node_None [of "flag_mode flags"] by blast
  have quiet: "ShuttingDown \<notin> set (take k (banner flags p))" for k p
    using set_take_subset [of k "banner flags p"] by (auto simp: banner_def split: if_splits)
  have first: "hd (banner flags p @ [ShuttingDown]) = Starting" for p by (simp add: banner_def)
  from assms(1) True n show ?thesis
    unfolding node_main_def Let_def contains_iff dialPeers_dialled assms(2,3) closeConns_fold
    by (auto simp: wire_node_valid quiet first split: sum.splits option.splits prod.splits)
qed

text \<open>A world that records what is listened on and closed; the signal comes at once.\<close>

theorem node_main_lifecycle_witness:
  "\<exists>out. node_main (\<lambda>a. if a = ''bad'' then None else Some a) id (\<lambda>c w. w @ [c])
      (\<lambda>a w. (Inr () :: unit + unit, w @ [a])) (\<lambda>lis n w. (None, w))
      (default_node_flags\<lparr>flag_peers := ''a:1,bad,b:2''\<rparr>) 0 [] =
      (Interrupted, out, [CHR '':'' # show_int 50051, ''a:1'', ''b:2'']) \<and> hd out = Starting \<and> last out = ShuttingDown"
proof -
  let ?flags = "default_node_flags\<lparr>flag_peers := ''a:1,bad,b:2''\<rparr>"
  let ?dial = "\<lambda>a. if a = ''bad'' then None else Some a"
  have peers: "parsePeers ''a:1,bad,b:2'' = [''a:1'', ''bad'', ''b:2'']"
    using parse_join [of "[''a:1'', ''bad'', ''b:2'']"] by (simp add: trimmed_solid solid_def)
  obtain out where main: "node_main ?dial id (\<lambda>c w. w @ [c]) (\<lambda>a w. (Inr () :: unit + unit, w @ [a]))
      (\<lambda>lis n w. (None, w)) ?flags 0 [] = (Interrupted, out, [CHR '':'' # show_int 50051, ''a:1'', ''b:2''])"
    by (simp add: node_main_def default_node_flags_def validModes_def wire_node_def NewHandler_def Let_def
        peers dialPeers_def)
  from node_main_lifecycle [OF main refl refl] main show ?thesis by auto
qed

end
