(* ===== verification/Cluster.thy ===== *)
theory Cluster
  imports NodeMain
begin

text \<open>
  A cluster of nodes in the eventual or the causal mode, as a step relation. The handlers of
  \<open>internal/server/node.go\<close> run concurrently, one goroutine per RPC, and take a lock for each
  access to the clock, the tracker, the store and the buffer; a step is one such locked section of
  one handler, and the steps of different handlers interleave freely. The buffer's \<open>Receive\<close>, which
  holds its own lock throughout, is one step here; its separate accesses to the store are taken
  apart in \<open>BufferConcurrent\<close>. Messages are delivered in any order, with any delay, and may be lost.

  Nodes are numbers; a peer client is the number of the peer. Three components of the state are
  history variables that no step reads: the log of the local writes (newest first), whether some
  local write has overwritten a version at least as new (\<open>stale\<close>), and whether an RPC has failed
  (\<open>lost\<close>).
\<close>

section \<open>State\<close>

text \<open>
  Where a handler is between two locked sections. \<open>WSnap\<close>: a \<open>Put\<close> or \<open>Delete\<close> that has its
  timestamp and will snapshot the tracker; \<open>WLocal\<close>: will write the local store; \<open>WSend\<close>: will call
  \<open>OnWrite\<close>; \<open>RApply\<close>: a \<open>Replicate\<close> that has advanced the clock and will apply the write;
  \<open>GRecord\<close>: a \<open>Get\<close> that has read the store and will record the read.
\<close>

datatype thread =
    WSnap key bytes bool Timestamp
  | WLocal key Value
  | WSend key Value
  | RApply key Value
  | GRecord key Timestamp

record cluster =
  nodes :: "nat \<Rightarrow> nat Node"
  threads :: "nat \<Rightarrow> thread multiset"
  net :: "(nat \<times> ReplicateRequest) multiset"
  log :: "(nat \<times> key \<times> Value) list"
  stale :: bool
  lost :: bool

text \<open>The local write of \<open>Put\<close> and of \<open>Delete\<close>.\<close>

definition local_write :: "key \<Rightarrow> Value \<Rightarrow> Store \<Rightarrow> Store" where
  "local_write k v s = (if Deleted v then Store_Delete k (ValTS v) s else Store_Put k v s)"

definition overwrites_newer :: "key \<Rightarrow> Value \<Rightarrow> Store \<Rightarrow> bool" where
  "overwrites_newer k v s =
     (case Store_GetVersion k s of None \<Rightarrow> False | Some t \<Rightarrow> ValTS v \<le> t)"

definition set_node :: "nat \<Rightarrow> nat Node \<Rightarrow> thread multiset \<Rightarrow> cluster \<Rightarrow> cluster" where
  "set_node i n T s = s\<lparr>nodes := (nodes s)(i := n), threads := (threads s)(i := T)\<rparr>"

text \<open>The messages a handler's RPCs put on the network; the sleeps before them are the network's delay.\<close>

definition messages :: "nat RPC list \<Rightarrow> (nat \<times> ReplicateRequest) multiset" where
  "messages rpcs = mset (map (\<lambda>r. (rpc_peer r, rpc_request r)) rpcs)"

section \<open>Steps\<close>

inductive cstep :: "nat set \<Rightarrow> cluster \<Rightarrow> cluster \<Rightarrow> bool" for ids where
  write_stamp:
    "i \<in> ids \<Longrightarrow> del \<longrightarrow> data = [] \<Longrightarrow>
     Clock_Send now (NClock (nodes s i)) = (Inr ts, clk) \<Longrightarrow>
     cstep ids s (set_node i ((nodes s i)\<lparr>NClock := clk\<rparr>)
       (add_mset (WSnap k data del ts) (threads s i)) s)"
| write_snapshot:
    "i \<in> ids \<Longrightarrow> threads s i = add_mset (WSnap k data del ts) T \<Longrightarrow>
     take_deps (nodes s i) = (deps, n) \<Longrightarrow>
     cstep ids s (set_node i n
       (add_mset (WLocal k \<lparr>Data = data, ValTS = ts, Deps = deps, Deleted = del\<rparr>) T) s)"
| write_local:
    "i \<in> ids \<Longrightarrow> threads s i = add_mset (WLocal k v) T \<Longrightarrow>
     cstep ids s ((set_node i ((nodes s i)\<lparr>NStore := local_write k v (NStore (nodes s i))\<rparr>)
       (add_mset (WSend k v) T) s)
       \<lparr>log := (i, k, v) # log s,
        stale := (stale s \<or> overwrites_newer k v (NStore (nodes s i)))\<rparr>)"
| write_send:
    "i \<in> ids \<Longrightarrow> threads s i = add_mset (WSend k v) T \<Longrightarrow>
     Handler_OnWrite call (NHandler (nodes s i)) k v = (None, rpcs) \<Longrightarrow>
     cstep ids s ((set_node i (nodes s i) T s)\<lparr>net := net s + messages rpcs\<rparr>)"
| replicate_clock:
    "i \<in> ids \<Longrightarrow> net s = add_mset (i, req) M \<Longrightarrow> rreq_Timestamp req = Some pts \<Longrightarrow>
     Clock_Receive now (fromProtoTS pts) (NClock (nodes s i)) = (Inr ts, clk) \<Longrightarrow>
     cstep ids s ((set_node i ((nodes s i)\<lparr>NClock := clk\<rparr>)
       (add_mset (RApply (rreq_Key req) (replicated_value (fromProtoTS pts) req)) (threads s i)) s)
       \<lparr>net := M\<rparr>)"
| replicate_apply:
    "i \<in> ids \<Longrightarrow> threads s i = add_mset (RApply k v) T \<Longrightarrow>
     deliver_value k v (nodes s i) = (ok, n) \<Longrightarrow>
     cstep ids s (set_node i n T s)"
| rpc_fails:
    "net s = add_mset (j, req) M \<Longrightarrow> cstep ids s (s\<lparr>net := M, lost := True\<rparr>)"
| get_read:
    "i \<in> ids \<Longrightarrow> Mode (nodes s i) = ''causal'' \<Longrightarrow>
     Store_Get k (NStore (nodes s i)) = Some v \<Longrightarrow>
     cstep ids s (set_node i (nodes s i) (add_mset (GRecord k (ValTS v)) (threads s i)) s)"
| get_record:
    "i \<in> ids \<Longrightarrow> threads s i = add_mset (GRecord k t) T \<Longrightarrow> Tracker (nodes s i) = Some rt \<Longrightarrow>
     cstep ids s (set_node i ((nodes s i)\<lparr>Tracker := Some (Tracker_Record k t rt)\<rparr>) T s)"

text \<open>
  A configuration: the mode of all nodes, the node numbers, each node's peers and options. The
  peers of a node are the other nodes, in some order.
\<close>

record config =
  cfg_mode :: string
  cfg_ids :: "nat set"
  cfg_peers :: "nat \<Rightarrow> nat list"
  cfg_opts :: "nat \<Rightarrow> Options"

definition async_config :: "config \<Rightarrow> bool" where
  "async_config c \<longleftrightarrow> (cfg_mode c = ''eventual'' \<or> cfg_mode c = ''causal'') \<and>
     (\<forall>i \<in> cfg_ids c. set (cfg_peers c i) = cfg_ids c - {i})"

text \<open>All nodes freshly started, each at a reading of its own physical clock after 1970.\<close>

definition initial :: "config \<Rightarrow> cluster \<Rightarrow> bool" where
  "initial c s \<longleftrightarrow>
     (\<forall>i. \<exists>now. 0 \<le> sint now \<and>
        start_node (cfg_mode c) (cfg_peers c i) (cfg_opts c i) now = Some (nodes s i)) \<and>
     threads s = (\<lambda>_. {#}) \<and> net s = {#} \<and> log s = [] \<and> \<not> stale s \<and> \<not> lost s"

inductive reachable :: "config \<Rightarrow> cluster \<Rightarrow> bool" for c where
  start: "initial c s \<Longrightarrow> reachable c s"
| step: "reachable c s \<Longrightarrow> cstep (cfg_ids c) s s' \<Longrightarrow> reachable c s'"

lemma reachable_steps: "(cstep (cfg_ids c))\<^sup>*\<^sup>* s s' \<Longrightarrow> reachable c s \<Longrightarrow> reachable c s'"
  by (induction rule: rtranclp_induct) (auto intro: reachable.step)

text \<open>No message in flight and no handler running.\<close>

definition quiescent :: "config \<Rightarrow> cluster \<Rightarrow> bool" where
  "quiescent c s \<longleftrightarrow> net s = {#} \<and> (\<forall>i \<in> cfg_ids c. threads s i = {#})"

section \<open>Reading an updated state\<close>

lemma set_node_sel [simp]:
  "nodes (set_node i n T s) j = (if j = i then n else nodes s j)"
  "threads (set_node i n T s) j = (if j = i then T else threads s j)"
  "net (set_node i n T s) = net s" "log (set_node i n T s) = log s"
  "stale (set_node i n T s) = stale s" "lost (set_node i n T s) = lost s"
  by (simp_all add: set_node_def)

lemma local_write_is_Put: "local_write k v s = Store_Put k (stored_form v) s"
  by (simp add: local_write_def stored_form_def Store_Delete_is_Put)

lemma overwrites_newer_iff: "overwrites_newer k v s \<longleftrightarrow> lww.at_least s k (ValTS v)"
  by (auto simp: overwrites_newer_def GetVersion_version lww.at_least_def split: option.splits)

text \<open>A local write that is not stale lets versions only grow, and is a version of its key.\<close>

lemma local_write_dominates:
  "\<not> overwrites_newer k v s \<Longrightarrow> lww.dominated s (local_write k v s)"
  unfolding local_write_is_Put overwrites_newer_iff
  by (rule fresh_Put_dominates) (auto simp: lww.at_least_def lww.version_def not_le less_imp_le)

lemma local_write_closed:
  assumes "causally_closed s" and "nonneg_store s" and "depsSatisfied s (Deps v)"
    and "\<not> overwrites_newer k v s" and "zero_Timestamp \<le> ValTS v"
  shows "causally_closed (local_write k v s)" and "nonneg_store (local_write k v s)"
proof -
  show nonneg: "nonneg_store (local_write k v s)"
    using assms(2,5) by (simp add: local_write_is_Put nonneg_Put)
  show "causally_closed (local_write k v s)"
  proof (rule causally_closed_update [OF assms(1) _ local_write_dominates [OF assms(4)] nonneg])
    fix k' u
    assume "store_data (local_write k v s) k' = Some u"
    then show "store_data s k' = Some u \<or> depsSatisfied s (Deps u)"
      using depsSatisfied_stored_form [OF assms(3)]
      by (auto simp: local_write_is_Put store_simps split: if_splits)
  qed
qed

lemma local_write_at_least: "lww.at_least (local_write k v s) k (ValTS v)"
  by (auto simp: local_write_is_Put lww.at_least_def lww.version_def store_simps)

lemma releases_entries:
  assumes "releases (s, M) (s', M')" "store_data s' k = Some u"
  shows "store_data s k = Some u \<or> (\<exists>p \<in># M. pw_key p = k \<and> u = stored_form (pw_val p))"
  using assms
proof (induction arbitrary: u rule: rtranclp_induct2)
  case refl
  then show ?case by simp
next
  case (step s1 M1 s2 M2)
  from step.hyps(2) obtain p where p: "M1 = add_mset p M2"
    "s2 = applyLocked (pw_key p) (pw_val p) s1"
    by (elim release_pairE) simp
  have "p \<in># M"
    using set_mset_mono [OF releases_subset [OF step.hyps(1)]] p(1) by auto
  moreover have "store_data s1 k = Some u \<or> pw_key p = k \<and> u = stored_form (pw_val p)"
    using step.prems p(2) by (auto simp: store_simps split: if_splits option.splits)
  ultimately show ?case using step.IH by blast
qed

section \<open>The configuration is fixed\<close>

definition cfg_inv :: "config \<Rightarrow> cluster \<Rightarrow> bool" where
  "cfg_inv c s \<longleftrightarrow> (\<forall>i. Mode (nodes s i) = cfg_mode c \<and> buffered (nodes s i) \<and>
     (Tracker (nodes s i) = None \<longleftrightarrow> cfg_mode c \<noteq> ''causal'') \<and>
     NewHandler (cfg_mode c) (cfg_peers c i) (cfg_opts c i) = Some (NHandler (nodes s i)))"

lemma cfg_invD:
  assumes "cfg_inv c s"
  shows "Mode (nodes s i) = cfg_mode c" "buffered (nodes s i)"
    "Tracker (nodes s i) = None \<longleftrightarrow> cfg_mode c \<noteq> ''causal''"
    "NewHandler (cfg_mode c) (cfg_peers c i) (cfg_opts c i) = Some (NHandler (nodes s i))"
  using assms by (simp_all add: cfg_inv_def)

lemma cfg_inv_initial:
  assumes "initial c s"
  shows "cfg_inv c s"
  unfolding cfg_inv_def
proof
  fix i
  obtain now where "start_node (cfg_mode c) (cfg_peers c i) (cfg_opts c i) now = Some (nodes s i)"
    using assms by (auto simp: initial_def)
  then show "Mode (nodes s i) = cfg_mode c \<and> buffered (nodes s i) \<and>
      (Tracker (nodes s i) = None \<longleftrightarrow> cfg_mode c \<noteq> ''causal'') \<and>
      NewHandler (cfg_mode c) (cfg_peers c i) (cfg_opts c i) = Some (NHandler (nodes s i))"
    by (auto simp: start_node_Some NewNode_def buffered_def split: if_splits)
qed

lemma buffered_frame [simp]:
  "buffered (n\<lparr>NStore := st\<rparr>) = buffered n" "buffered (n\<lparr>NClock := clk\<rparr>) = buffered n"
  "buffered (n\<lparr>Tracker := rt\<rparr>) = buffered n"
  by (simp_all add: buffered_def)

lemma buffered_deliver: "deliver_value k v n = (ok, n') \<Longrightarrow> buffered n' = buffered n"
  using deliver_value_frame [of k v n] by (simp add: buffered_def)

lemma buffered_take_deps: "take_deps n = (deps, n') \<Longrightarrow> buffered n' = buffered n"
  using take_deps_frame [of n] by (simp add: buffered_def)

lemma cfg_inv_step:
  assumes "cstep ids s s'" and "cfg_inv c s"
  shows "cfg_inv c s'"
  using assms
proof (cases rule: cstep.cases)
  case (write_snapshot i k data del ts T deps n)
  with assms(2) take_deps_frame [of "nodes s i"] show ?thesis
    by (simp add: cfg_inv_def buffered_take_deps)
next
  case (replicate_apply i k v T ok n)
  with assms(2) deliver_value_frame [of k v "nodes s i"] show ?thesis
    by (simp add: cfg_inv_def buffered_deliver)
next
  case (get_record i k t T rt)
  with cfg_invD(3) [OF assms(2), of i] have "cfg_mode c = ''causal''" by simp
  with assms(2) get_record show ?thesis by (simp add: cfg_inv_def)
qed (auto simp: cfg_inv_def)

lemma reachable_cfg: "reachable c s \<Longrightarrow> cfg_inv c s"
  by (induction rule: reachable.induct) (auto intro: cfg_inv_initial cfg_inv_step)

section \<open>What travels on the network\<close>

text \<open>The request that carries a logged write in a mode, and the value a replica makes of it.\<close>

definition wire_req :: "string \<Rightarrow> key \<Rightarrow> Value \<Rightarrow> ReplicateRequest" where
  "wire_req m k v = buildReplicateRequest k v (if m = ''causal'' then Deps v else [])"

definition wire :: "string \<Rightarrow> Value \<Rightarrow> Value" where
  "wire m v = \<lparr>Data = Data v, ValTS = ValTS v, Deps = (if m = ''causal'' then Deps v else []),
     Deleted = (Data v = [])\<rparr>"

lemma ValTS_wire [simp]: "ValTS (wire m v) = ValTS v"
  by (simp add: wire_def)

lemma wire_req_sel:
  "rreq_Key (wire_req m k v) = k"
  "rreq_Timestamp (wire_req m k v) = Some (to_rep_Timestamp (ValTS v))"
  "replicated_value (ValTS v) (wire_req m k v) = wire m v"
  by (simp_all add: wire_req_def wire_def replicated_value_build) (simp_all add: buildReplicateRequest_def)

lemma async_handler:
  assumes "async_config c" and "cfg_inv c s"
  shows "NHandler (nodes s i) =
    (if cfg_mode c = ''causal'' then CausalHandler (cfg_peers c i) (cfg_opts c i)
     else EventualHandler (cfg_peers c i) (cfg_opts c i))"
  using assms(1) cfg_invD(4) [OF assms(2), of i]
  by (auto simp: async_config_def NewHandler_def)

lemma async_OnWrite:
  assumes "async_config c" and "cfg_inv c s"
    and "Handler_OnWrite call (NHandler (nodes s i)) k v = (r, rpcs)"
  shows "messages rpcs = image_mset (\<lambda>j. (j, wire_req (cfg_mode c) k v)) (mset (cfg_peers c i))"
proof -
  have "rpcs = map (send_to (cfg_opts c i) k (wire_req (cfg_mode c) k v)) (cfg_peers c i)"
    using assms(3) unfolding async_handler [OF assms(1,2)]
    by (auto simp: EventualHandler_OnWrite_def CausalHandler_OnWrite_def wire_req_def Let_def
        split: if_splits)
  then show ?thesis by (simp add: messages_def send_to_def comp_def)
qed

section \<open>Shape of the writes\<close>

text \<open>
  Every clock is at or above zero, every write in progress or logged has a timestamp at or above
  zero, a deletion has no data, and only the causal mode attaches dependencies.
\<close>

definition shaped :: "string \<Rightarrow> Value \<Rightarrow> bool" where
  "shaped m v \<longleftrightarrow> zero_Timestamp \<le> ValTS v \<and> (Deleted v \<longrightarrow> Data v = []) \<and>
     (m \<noteq> ''causal'' \<longrightarrow> Deps v = [])"

fun shape_thread :: "string \<Rightarrow> thread \<Rightarrow> bool" where
  "shape_thread m (WSnap k data del ts) = (zero_Timestamp \<le> ts \<and> (del \<longrightarrow> data = []))"
| "shape_thread m (WLocal k v) = shaped m v"
| "shape_thread m _ = True"

definition shape_local :: "string \<Rightarrow> nat Node \<Rightarrow> thread multiset \<Rightarrow> bool" where
  "shape_local m n T \<longleftrightarrow> zero_Timestamp \<le> Clock_Now (NClock n) \<and> (\<forall>t \<in># T. shape_thread m t)"

definition shape_inv :: "config \<Rightarrow> cluster \<Rightarrow> bool" where
  "shape_inv c s \<longleftrightarrow>
     (\<forall>i. shape_local (cfg_mode c) (nodes s i) (threads s i)) \<and>
     (\<forall>(i, k, v) \<in> set (log s). shaped (cfg_mode c) v \<and> i \<in> cfg_ids c)"

text \<open>Only the node that moved has to be looked at.\<close>

lemma shape_inv_set_node:
  "shape_inv c s \<Longrightarrow> shape_local (cfg_mode c) n T \<Longrightarrow> shape_inv c (set_node i n T s)"
  by (simp add: shape_inv_def)

lemma shape_inv_frame [simp]:
  "shape_inv c (s\<lparr>net := M\<rparr>) = shape_inv c s" "shape_inv c (s\<lparr>lost := b\<rparr>) = shape_inv c s"
  "shape_inv c (s\<lparr>stale := b\<rparr>) = shape_inv c s"
  by (simp_all add: shape_inv_def)

lemma initial_node:
  assumes "initial c s"
  obtains now h where "0 \<le> sint now"
    and "nodes s i = NewNode (cfg_mode c) Store_New (Clock_New now)
           (if cfg_mode c = ''causal'' then Some Buffer_New else None) h"
proof -
  from assms have "\<exists>now. 0 \<le> sint now \<and>
      start_node (cfg_mode c) (cfg_peers c i) (cfg_opts c i) now = Some (nodes s i)"
    by (simp add: initial_def)
  with that show ?thesis by (auto simp: start_node_Some)
qed

lemma shape_inv_initial:
  assumes "initial c s"
  shows "shape_inv c s"
proof -
  have "zero_Timestamp \<le> Clock_Now (NClock (nodes s i))" for i
    by (rule initial_node [OF assms, of i])
      (auto simp: NewNode_def Clock_New_def Clock_Now_def zero_Timestamp_def less_eq_Timestamp_iff
        sint_eq_iff [of 0, symmetric])
  with assms show ?thesis by (simp add: shape_inv_def shape_local_def initial_def)
qed

lemma shape_inv_step:
  assumes "cstep (cfg_ids c) s s'" and "cfg_inv c s" and inv: "shape_inv c s"
  shows "shape_inv c s'"
proof -
  have loc: "shape_local (cfg_mode c) (nodes s i) (threads s i)" for i
    using inv by (simp add: shape_inv_def)
  from assms(1) show ?thesis
  proof (cases rule: cstep.cases)
    case (write_stamp i del data now ts clk k)
    have "zero_Timestamp \<le> ts" "Clock_Now clk = ts"
      using Clock_Send_ok [OF write_stamp(4)] loc [of i] by (auto simp: shape_local_def)
    with loc [of i] write_stamp show ?thesis
      by (auto intro!: shape_inv_set_node [OF inv] simp: shape_local_def)
  next
    case (write_snapshot i k data del ts T deps n)
    have "cfg_mode c \<noteq> ''causal'' \<Longrightarrow> deps = []"
      using write_snapshot(4) cfg_invD(1,3) [OF assms(2), of i]
      by (auto simp: take_deps_def split: option.splits)
    with loc [of i] write_snapshot take_deps_frame [of "nodes s i"] show ?thesis
      by (auto intro!: shape_inv_set_node [OF inv] simp: shape_local_def shaped_def)
  next
    case (write_local i k v T)
    with loc [of i] inv show ?thesis by (auto simp: shape_inv_def shape_local_def)
  next
    case (write_send i k v T call rpcs)
    with loc [of i] show ?thesis
      by (auto intro!: shape_inv_set_node [OF inv] simp: shape_local_def)
  next
    case (replicate_clock i req M pts now ts clk)
    have "zero_Timestamp \<le> Clock_Now clk"
      using Clock_Receive_ok [OF replicate_clock(5)] loc [of i] by (auto simp: shape_local_def)
    with loc [of i] replicate_clock show ?thesis
      by (auto intro!: shape_inv_set_node [OF inv] simp: shape_local_def)
  next
    case (replicate_apply i k v T ok n)
    with loc [of i] deliver_value_frame [of k v "nodes s i"] show ?thesis
      by (auto intro!: shape_inv_set_node [OF inv] simp: shape_local_def)
  next
    case (rpc_fails j req M)
    with inv show ?thesis by (simp add: shape_inv_def)
  next
    case (get_read i k v)
    with loc [of i] show ?thesis
      by (auto intro!: shape_inv_set_node [OF inv] simp: shape_local_def)
  next
    case (get_record i k t T rt)
    with loc [of i] show ?thesis
      by (auto intro!: shape_inv_set_node [OF inv] simp: shape_local_def)
  qed
qed

lemma reachable_shape: "reachable c s \<Longrightarrow> shape_inv c s"
  by (induction rule: reachable.induct)
    (auto intro: shape_inv_initial shape_inv_step reachable_cfg)

section \<open>Provenance\<close>

text \<open>A logged write of a key with a timestamp.\<close>

definition logged :: "(nat \<times> key \<times> Value) list \<Rightarrow> key \<Rightarrow> Timestamp \<Rightarrow> bool" where
  "logged L k t \<longleftrightarrow> (\<exists>i v. (i, k, v) \<in> set L \<and> ValTS v = t)"

text \<open>Every dependency of a logged write was logged before that write.\<close>

fun log_ok :: "(nat \<times> key \<times> Value) list \<Rightarrow> bool" where
  "log_ok [] = True"
| "log_ok ((i, k, v) # L) = ((\<forall>d \<in> set (Deps v). logged L (DepKey d) (MinTS d)) \<and> log_ok L)"

fun prov_thread :: "string \<Rightarrow> (nat \<times> key \<times> Value) list \<Rightarrow> nat \<Rightarrow> thread \<Rightarrow> bool" where
  "prov_thread m L i (WSnap k data del ts) = True"
| "prov_thread m L i (WLocal k v) = (\<forall>d \<in> set (Deps v). logged L (DepKey d) (MinTS d))"
| "prov_thread m L i (WSend k v) = ((i, k, v) \<in> set L)"
| "prov_thread m L i (RApply k w) = (\<exists>j v. (j, k, v) \<in> set L \<and> w = wire m v)"
| "prov_thread m L i (GRecord k t) = logged L k t"

definition prov_local ::
  "string \<Rightarrow> (nat \<times> key \<times> Value) list \<Rightarrow> nat \<Rightarrow> nat Node \<Rightarrow> thread multiset \<Rightarrow> bool" where
  "prov_local m L i n T \<longleftrightarrow>
     (\<forall>t \<in># T. prov_thread m L i t) \<and>
     (\<forall>rt. Tracker n = Some rt \<longrightarrow> (\<forall>d \<in> set (reads rt). logged L (DepKey d) (MinTS d))) \<and>
     (\<forall>p \<in> set (held_of n). \<exists>j v. (j, pw_key p, v) \<in> set L \<and> pw_val p = wire m v) \<and>
     (\<forall>k u. store_data (NStore n) k = Some u \<longrightarrow>
        (\<exists>j v. (j, k, v) \<in> set L \<and> (u = stored_form v \<or> u = stored_form (wire m v))))"

text \<open>Everything in flight, held, read or stored stems from a logged write.\<close>

definition prov_inv :: "config \<Rightarrow> cluster \<Rightarrow> bool" where
  "prov_inv c s \<longleftrightarrow> log_ok (log s) \<and>
     (\<forall>i. prov_local (cfg_mode c) (log s) i (nodes s i) (threads s i)) \<and>
     (\<forall>x \<in># net s. \<exists>i k v. (i, k, v) \<in> set (log s) \<and> snd x = wire_req (cfg_mode c) k v)"

lemma logged_Cons: "logged L k t \<Longrightarrow> logged (e # L) k t"
  by (auto simp: logged_def)

lemma log_ok_deps:
  "log_ok L \<Longrightarrow> (i, k, v) \<in> set L \<Longrightarrow> d \<in> set (Deps v) \<Longrightarrow> logged L (DepKey d) (MinTS d)"
  by (induction L rule: log_ok.induct) (auto simp: logged_Cons)

lemma prov_thread_Cons: "prov_thread m L i t \<Longrightarrow> prov_thread m (e # L) i t"
  by (cases t) (auto simp: logged_Cons)

lemma prov_local_Cons: "prov_local m L i n T \<Longrightarrow> prov_local m (e # L) i n T"
  unfolding prov_local_def by (fastforce simp: logged_Cons prov_thread_Cons)

lemma prov_inv_set_node:
  "prov_inv c s \<Longrightarrow> prov_local (cfg_mode c) (log s) i n T \<Longrightarrow> prov_inv c (set_node i n T s)"
  by (simp add: prov_inv_def)

lemma prov_inv_net:
  "prov_inv c (s\<lparr>net := M\<rparr>) \<longleftrightarrow> log_ok (log s) \<and>
     (\<forall>i. prov_local (cfg_mode c) (log s) i (nodes s i) (threads s i)) \<and>
     (\<forall>x \<in># M. \<exists>i k v. (i, k, v) \<in> set (log s) \<and> snd x = wire_req (cfg_mode c) k v)"
  by (simp add: prov_inv_def)

lemma logged_store:
  assumes "prov_local m L i n T" and "store_data (NStore n) k = Some u"
  shows "logged L k (ValTS u)"
  using assms by (fastforce simp: prov_local_def logged_def)

lemma prov_local_write:
  assumes "prov_local m ((i, k, v) # L) i n (add_mset (WLocal k v) T)"
  shows "prov_local m ((i, k, v) # L) i (n\<lparr>NStore := local_write k v (NStore n)\<rparr>)
    (add_mset (WSend k v) T)"
proof -
  have "\<exists>j v'. (j, k', v') \<in> set ((i, k, v) # L) \<and> (u = stored_form v' \<or> u = stored_form (wire m v'))"
    if "store_data (local_write k v (NStore n)) k' = Some u" for k' u
  proof (cases "k' = k")
    case True
    with that have "u = stored_form v" by (simp add: local_write_is_Put store_simps)
    with True show ?thesis by (intro exI [of _ i] exI [of _ v]) simp
  next
    case False
    with that have "store_data (NStore n) k' = Some u" by (simp add: local_write_is_Put store_simps)
    with assms show ?thesis unfolding prov_local_def by blast
  qed
  with assms show ?thesis unfolding prov_local_def by simp
qed

lemma prov_inv_initial:
  assumes "initial c s"
  shows "prov_inv c s"
proof -
  have "store_data (NStore (nodes s i)) k = None \<and> held_of (nodes s i) = [] \<and>
      (\<forall>rt. Tracker (nodes s i) = Some rt \<longrightarrow> reads rt = [])" for i k
    by (rule initial_node [OF assms, of i])
      (auto simp: NewNode_def Store_New_def held_of_def Buffer_New_def NewReadTracker_def)
  with assms show ?thesis by (simp add: prov_inv_def prov_local_def initial_def)
qed

text \<open>A delivery only moves the write and the held ones into the store.\<close>

lemma deliver_wire_ready:
  assumes "cfg_inv c s" and "w = wire (cfg_mode c) v" and "deliver_value k w (nodes s i) = (ok, n)"
  shows "releases (NStore (nodes s i), add_mset \<lparr>pw_key = k, pw_val = w\<rparr> (mset (held_of (nodes s i))))
      (NStore n, mset (held_of n))"
    and "stuck (NStore n) (mset (held_of n)) \<or>
      NStore n = NStore (nodes s i) \<and> held_of n = held_of (nodes s i) @ [\<lparr>pw_key = k, pw_val = w\<rparr>] \<and>
      \<not> depsSatisfied (NStore (nodes s i)) (Deps w)"
proof -
  have b: "buffered (nodes s i)" using assms(1) by (rule cfg_invD)
  have d: "Mode (nodes s i) \<noteq> ''causal'' \<Longrightarrow> Deps w = []"
    using cfg_invD(1) [OF assms(1), of i] assms(2) by (simp add: wire_def)
  have n: "n = snd (deliver_value k w (nodes s i))" using assms(3) by simp
  show "releases (NStore (nodes s i), add_mset \<lparr>pw_key = k, pw_val = w\<rparr> (mset (held_of (nodes s i))))
      (NStore n, mset (held_of n))"
    by (rule deliver_value_releases(1) [OF b d n])
  show "stuck (NStore n) (mset (held_of n)) \<or>
      NStore n = NStore (nodes s i) \<and> held_of n = held_of (nodes s i) @ [\<lparr>pw_key = k, pw_val = w\<rparr>] \<and>
      \<not> depsSatisfied (NStore (nodes s i)) (Deps w)"
    by (rule deliver_value_releases(2) [OF b d n])
qed

lemma prov_local_deliver:
  assumes "cfg_inv c s" and "prov_local (cfg_mode c) L i (nodes s i) (add_mset (RApply k w) T)"
    and "deliver_value k w (nodes s i) = (ok, n)"
  shows "prov_local (cfg_mode c) L i n T"
proof -
  let ?m = "cfg_mode c" and ?p = "\<lparr>pw_key = k, pw_val = w\<rparr>"
  obtain j v where v: "(j, k, v) \<in> set L" "w = wire ?m v"
    using assms(2) by (auto simp: prov_local_def)
  note rel = deliver_wire_ready(1) [OF assms(1) v(2) assms(3)]
  have bag: "\<exists>j v. (j, pw_key p, v) \<in> set L \<and> pw_val p = wire ?m v"
    if "p \<in># add_mset ?p (mset (held_of (nodes s i)))" for p
  proof (cases "p = ?p")
    case True
    with v show ?thesis by (intro exI [of _ j] exI [of _ v]) simp
  next
    case False
    with that have "p \<in> set (held_of (nodes s i))" by simp
    with assms(2) show ?thesis unfolding prov_local_def by blast
  qed
  have held: "\<exists>j v. (j, pw_key p, v) \<in> set L \<and> pw_val p = wire ?m v" if "p \<in> set (held_of n)" for p
  proof (rule bag)
    show "p \<in># add_mset ?p (mset (held_of (nodes s i)))"
      by (rule mset_subset_eqD [OF releases_subset [OF rel]]) (use that in simp)
  qed
  have store: "\<exists>j v. (j, k', v) \<in> set L \<and> (u = stored_form v \<or> u = stored_form (wire ?m v))"
    if "store_data (NStore n) k' = Some u" for k' u
  proof (rule disjE [OF releases_entries [OF rel that]])
    assume "store_data (NStore (nodes s i)) k' = Some u"
    then show ?thesis using assms(2) by (simp add: prov_local_def)
  next
    assume "\<exists>p \<in># add_mset ?p (mset (held_of (nodes s i))). pw_key p = k' \<and> u = stored_form (pw_val p)"
    then obtain p where p: "p \<in># add_mset ?p (mset (held_of (nodes s i)))"
      "pw_key p = k'" "u = stored_form (pw_val p)" by blast
    from bag [OF p(1)] p(2,3) show ?thesis by fastforce
  qed
  show ?thesis
    using assms(2,3) held store deliver_value_frame [of k w "nodes s i"] by (simp add: prov_local_def)
qed

lemma prov_inv_step:
  assumes "cstep (cfg_ids c) s s'" and async: "async_config c" and cfg: "cfg_inv c s"
    and inv: "prov_inv c s"
  shows "prov_inv c s'"
proof -
  have loc: "prov_local (cfg_mode c) (log s) i (nodes s i) (threads s i)" for i
    using inv by (simp add: prov_inv_def)
  from assms(1) show ?thesis
  proof (cases rule: cstep.cases)
    case (write_stamp i del data now ts clk k)
    with loc [of i] show ?thesis by (auto intro!: prov_inv_set_node [OF inv] simp: prov_local_def)
  next
    case (write_snapshot i k data del ts T deps n)
    have deps: "\<forall>d \<in> set deps. logged (log s) (DepKey d) (MinTS d)"
      and rest: "\<forall>rt. Tracker n = Some rt \<longrightarrow> (\<forall>d \<in> set (reads rt). logged (log s) (DepKey d) (MinTS d))"
      using write_snapshot(4) loc [of i]
      by (auto simp: take_deps_def SnapshotAndClear_def prov_local_def
          split: option.splits if_splits)
    have "held_of n = held_of (nodes s i)" "NStore n = NStore (nodes s i)"
      using write_snapshot(4) take_deps_frame [of "nodes s i"] by (simp_all add: held_of_def)
    with loc [of i] write_snapshot(3) deps rest
    have new: "prov_local (cfg_mode c) (log s) i n
        (add_mset (WLocal k \<lparr>Data = data, ValTS = ts, Deps = deps, Deleted = del\<rparr>) T)"
      by (simp add: prov_local_def)
    show ?thesis unfolding write_snapshot(1) by (rule prov_inv_set_node [OF inv new])
  next
    case (write_local i k v T)
    let ?L = "(i, k, v) # log s"
    let ?n = "(nodes s i)\<lparr>NStore := local_write k v (NStore (nodes s i))\<rparr>"
    have old: "prov_local (cfg_mode c) ?L j (nodes s j) (threads s j)" for j
      using loc by (rule prov_local_Cons)
    have deps: "\<forall>d \<in> set (Deps v). logged (log s) (DepKey d) (MinTS d)"
      using loc [of i] write_local(3) by (simp add: prov_local_def)
    have new: "prov_local (cfg_mode c) ?L i ?n (add_mset (WSend k v) T)"
      by (rule prov_local_write) (use old [of i] write_local(3) in simp)
    have "\<forall>x \<in># net s. \<exists>i k v. (i, k, v) \<in> set ?L \<and> snd x = wire_req (cfg_mode c) k v"
      using inv unfolding prov_inv_def by (meson list.set_intros(2))
    with deps new old inv show ?thesis
      unfolding write_local(1) by (simp add: prov_inv_def)
  next
    case (write_send i k v T call rpcs)
    have "(i, k, v) \<in> set (log s)" and T: "prov_local (cfg_mode c) (log s) i (nodes s i) T"
      using loc [of i] write_send(3) by (simp_all add: prov_local_def)
    moreover have "messages rpcs = image_mset (\<lambda>j. (j, wire_req (cfg_mode c) k v)) (mset (cfg_peers c i))"
      by (rule async_OnWrite [OF async cfg write_send(4)])
    ultimately have "\<forall>x \<in># net s + messages rpcs.
        \<exists>i k v. (i, k, v) \<in> set (log s) \<and> snd x = wire_req (cfg_mode c) k v"
      using inv by (auto simp: prov_inv_def) blast
    with T inv write_send(1) show ?thesis by (simp add: prov_inv_net) (simp add: prov_inv_def)
  next
    case (replicate_clock i req M pts now ts clk)
    then obtain o' k v where v: "(o', k, v) \<in> set (log s)" "req = wire_req (cfg_mode c) k v"
      using inv by (auto simp: prov_inv_def)
    then have "rreq_Key req = k" "replicated_value (fromProtoTS pts) req = wire (cfg_mode c) v"
      using replicate_clock(4) by (auto simp: wire_req_sel)
    with v loc [of i] have "prov_local (cfg_mode c) (log s) i ((nodes s i)\<lparr>NClock := clk\<rparr>)
        (add_mset (RApply (rreq_Key req) (replicated_value (fromProtoTS pts) req)) (threads s i))"
      by (auto simp: prov_local_def)
    with inv replicate_clock(1,3) show ?thesis by (simp add: prov_inv_net) (simp add: prov_inv_def)
  next
    case (replicate_apply i k v T ok n)
    have "prov_local (cfg_mode c) (log s) i (nodes s i) (add_mset (RApply k v) T)"
      using loc [of i] replicate_apply(3) by simp
    with prov_local_deliver [OF cfg _ replicate_apply(4)] inv replicate_apply(1) show ?thesis
      by (auto intro: prov_inv_set_node)
  next
    case (rpc_fails j req M)
    with inv show ?thesis by (simp add: prov_inv_def)
  next
    case (get_read i k v)
    have "store_data (NStore (nodes s i)) k = Some v"
      using get_read(4) by (auto simp: Store_Get_def split: option.splits if_splits)
    with logged_store [OF loc] have "logged (log s) k (ValTS v)" by blast
    with loc [of i] get_read(1) show ?thesis
      by (auto intro!: prov_inv_set_node [OF inv] simp: prov_local_def)
  next
    case (get_record i k t T rt)
    with loc [of i] show ?thesis
      by (auto intro!: prov_inv_set_node [OF inv] simp: prov_local_def Tracker_Record_def)
  qed
qed

lemma reachable_prov: "reachable c s \<Longrightarrow> async_config c \<Longrightarrow> prov_inv c s"
  by (induction rule: reachable.induct)
    (auto intro: prov_inv_initial prov_inv_step reachable_cfg)

end
