(* ===== verification/Scenarios.thy ===== *)
theory Scenarios
  imports Cluster
begin

text \<open>
  An executable scheduler of the cluster's step relation, and concrete runs that the theorems on
  reachable states are applied to or that show which of their hypotheses are needed.
\<close>

section \<open>The scheduler\<close>

text \<open>
  One action names the next locked section to run: a client request that begins, a handler that
  goes on, a message that arrives or is lost, a read.
\<close>

datatype action =
    ABegin nat int64 key bytes bool
  | AGo nat thread
  | ADeliver nat int64 ReplicateRequest
  | ALose nat ReplicateRequest
  | ARead nat key

fun exec_go :: "nat \<Rightarrow> thread \<Rightarrow> thread multiset \<Rightarrow> cluster \<Rightarrow> cluster option" where
  "exec_go i (WSnap k data del ts) T s =
     (case take_deps (nodes s i) of (deps, n) \<Rightarrow>
        Some (set_node i n
          (add_mset (WLocal k \<lparr>Data = data, ValTS = ts, Deps = deps, Deleted = del\<rparr>) T) s))"
| "exec_go i (WLocal k v) T s =
     Some ((set_node i ((nodes s i)\<lparr>NStore := local_write k v (NStore (nodes s i))\<rparr>)
       (add_mset (WSend k v) T) s)
       \<lparr>log := (i, k, v) # log s,
        stale := (stale s \<or> overwrites_newer k v (NStore (nodes s i)))\<rparr>)"
| "exec_go i (WSend k v) T s =
     (case Handler_OnWrite (\<lambda>_ _. RPCError) (NHandler (nodes s i)) k v of
        (None, rpcs) \<Rightarrow> Some ((set_node i (nodes s i) T s)\<lparr>net := net s + messages rpcs\<rparr>)
      | (Some _, _) \<Rightarrow> None)"
| "exec_go i (RApply k v) T s =
     (case deliver_value k v (nodes s i) of (_, n) \<Rightarrow> Some (set_node i n T s))"
| "exec_go i (GRecord k t) T s =
     (case Tracker (nodes s i) of
        None \<Rightarrow> None
      | Some rt \<Rightarrow> Some (set_node i ((nodes s i)\<lparr>Tracker := Some (Tracker_Record k t rt)\<rparr>) T s))"

fun exec :: "nat set \<Rightarrow> action \<Rightarrow> cluster \<Rightarrow> cluster option" where
  "exec ids (ABegin i now k data del) s =
     (if i \<in> ids \<and> (del \<longrightarrow> data = []) then
        (case Clock_Send now (NClock (nodes s i)) of
           (Inr ts, clk) \<Rightarrow> Some (set_node i ((nodes s i)\<lparr>NClock := clk\<rparr>)
              (add_mset (WSnap k data del ts) (threads s i)) s)
         | (Inl _, _) \<Rightarrow> None)
      else None)"
| "exec ids (AGo i t) s =
     (if i \<in> ids \<and> t \<in># threads s i then exec_go i t (threads s i - {#t#}) s else None)"
| "exec ids (ADeliver i now req) s =
     (if i \<in> ids \<and> (i, req) \<in># net s then
        (case rreq_Timestamp req of
           None \<Rightarrow> None
         | Some pts \<Rightarrow>
             (case Clock_Receive now (fromProtoTS pts) (NClock (nodes s i)) of
                (Inr ts, clk) \<Rightarrow> Some ((set_node i ((nodes s i)\<lparr>NClock := clk\<rparr>)
                  (add_mset (RApply (rreq_Key req) (replicated_value (fromProtoTS pts) req))
                     (threads s i)) s)\<lparr>net := net s - {#(i, req)#}\<rparr>)
              | (Inl _, _) \<Rightarrow> None))
      else None)"
| "exec ids (ALose j req) s =
     (if (j, req) \<in># net s then Some (s\<lparr>net := net s - {#(j, req)#}, lost := True\<rparr>) else None)"
| "exec ids (ARead i k) s =
     (if i \<in> ids \<and> Mode (nodes s i) = ''causal'' then
        (case Store_Get k (NStore (nodes s i)) of
           None \<Rightarrow> None
         | Some v \<Rightarrow> Some (set_node i (nodes s i) (add_mset (GRecord k (ValTS v)) (threads s i)) s))
      else None)"

fun execs :: "nat set \<Rightarrow> action list \<Rightarrow> cluster \<Rightarrow> cluster option" where
  "execs ids [] s = Some s"
| "execs ids (a # as) s = (case exec ids a s of None \<Rightarrow> None | Some s' \<Rightarrow> execs ids as s')"

lemma exec_go_step:
  assumes "i \<in> ids" and T: "threads s i = add_mset t T" and "exec_go i t T s = Some s'"
  shows "cstep ids s s'"
proof (cases t)
  case (WSnap k data del ts)
  with assms show ?thesis by (auto split: prod.splits intro: cstep.write_snapshot)
next
  case (WLocal k v)
  with assms show ?thesis by (auto intro: cstep.write_local)
next
  case (WSend k v)
  with assms show ?thesis by (auto split: prod.splits option.splits intro: cstep.write_send)
next
  case (RApply k v)
  with assms show ?thesis by (auto split: prod.splits intro: cstep.replicate_apply)
next
  case (GRecord k ts)
  with assms show ?thesis by (auto split: option.splits intro: cstep.get_record)
qed

text \<open>Every executed action is a step.\<close>

lemma exec_step:
  assumes "exec ids a s = Some s'"
  shows "cstep ids s s'"
proof (cases a)
  case (ABegin i now k data del)
  with assms show ?thesis
    by (auto split: prod.splits sum.splits if_splits intro: cstep.write_stamp)
next
  case (AGo i t)
  with assms show ?thesis
    by (auto split: if_splits intro!: exec_go_step [of i ids s t "threads s i - {#t#}"])
next
  case (ADeliver i now req)
  with assms show ?thesis
    by (auto split: prod.splits sum.splits if_splits option.splits
        intro!: cstep.replicate_clock [of i ids s req "net s - {#(i, req)#}"])
next
  case (ALose j req)
  with assms show ?thesis
    by (auto split: if_splits intro!: cstep.rpc_fails [of s j req "net s - {#(j, req)#}"])
next
  case (ARead i k)
  with assms show ?thesis by (auto split: if_splits option.splits intro: cstep.get_read)
qed

lemma execs_reachable: "reachable c s \<Longrightarrow> execs (cfg_ids c) as s = Some s' \<Longrightarrow> reachable c s'"
proof (induction as arbitrary: s)
  case Nil
  then show ?case by simp
next
  case (Cons a as)
  from Cons.prems(2) obtain t where t: "exec (cfg_ids c) a s = Some t" "execs (cfg_ids c) as t = Some s'"
    by (auto split: option.splits)
  from Cons.IH [OF reachable.step [OF Cons.prems(1) exec_step [OF t(1)]] t(2)] show ?case .
qed

section \<open>Clusters to run\<close>

definition ex_options :: Options where
  "ex_options = \<lparr>DelayPrefix = [], Delay = 0, PeerDelay = 0\<rparr>"

text \<open>Nodes \<open>0 .. sz - 1\<close>, each the peer of the others.\<close>

definition others :: "nat \<Rightarrow> nat \<Rightarrow> nat list" where
  "others sz i = filter (\<lambda>j. j \<noteq> i) [0..<sz]"

definition ex_config :: "string \<Rightarrow> nat \<Rightarrow> config" where
  "ex_config mode sz = \<lparr>cfg_mode = mode, cfg_ids = {0..<sz},
     cfg_peers = others sz, cfg_opts = (\<lambda>_. ex_options)\<rparr>"

definition ex_node :: "string \<Rightarrow> nat \<Rightarrow> nat \<Rightarrow> nat Node" where
  "ex_node mode sz i =
     \<lparr>Mode = mode, NStore = Store_New, NClock = Clock_New 0,
      NBuffer = (if mode = ''causal'' then Some Buffer_New else None),
      NHandler = (if mode = ''causal'' then CausalHandler else EventualHandler)
        (others sz i) ex_options,
      Tracker = (if mode = ''causal'' then Some NewReadTracker else None)\<rparr>"

definition ex_cluster :: "string \<Rightarrow> nat \<Rightarrow> cluster" where
  "ex_cluster mode sz = \<lparr>nodes = ex_node mode sz, threads = (\<lambda>_. {#}), net = {#},
     log = [], stale = False, lost = False\<rparr>"

lemma ex_async: "mode = ''eventual'' \<or> mode = ''causal'' \<Longrightarrow> async_config (ex_config mode sz)"
  by (auto simp: async_config_def ex_config_def others_def)

lemma ex_initial:
  assumes "mode = ''eventual'' \<or> mode = ''causal''"
  shows "initial (ex_config mode sz) (ex_cluster mode sz)"
proof -
  have "start_node mode peers ex_options 0 = Some \<lparr>Mode = mode, NStore = Store_New,
      NClock = Clock_New 0, NBuffer = (if mode = ''causal'' then Some Buffer_New else None),
      NHandler = (if mode = ''causal'' then CausalHandler else EventualHandler) peers ex_options,
      Tracker = (if mode = ''causal'' then Some NewReadTracker else None)\<rparr>" for peers :: "nat list"
    using assms by (elim disjE)
      (simp_all add: start_node_def wire_node_def validModes_def NewHandler_def NewNode_def Let_def)
  then show ?thesis
    unfolding initial_def by (intro conjI allI exI [of _ 0])
      (simp_all add: ex_config_def ex_cluster_def ex_node_def)
qed

lemma ex_reachable:
  assumes "mode = ''eventual'' \<or> mode = ''causal''"
    and "execs {0..<sz} as (ex_cluster mode sz) = Some s"
  shows "reachable (ex_config mode sz) s"
proof -
  have "cfg_ids (ex_config mode sz) = {0..<sz}" by (simp add: ex_config_def)
  then show ?thesis
    using execs_reachable [OF reachable.start [OF ex_initial [OF assms(1)]]] assms(2) by simp
qed

section \<open>Evaluating a run\<close>

lemma others_eval:
  "others 2 0 = [1]" "others 2 (Suc 0) = [0]"
  "others 3 0 = [1, 2]" "others 3 (Suc 0) = [0, 2]" "others 3 2 = [0, 1]"
  by (simp_all add: others_def upt_rec)

lemma messages_eval:
  "messages [] = {#}"
  "messages (r # rs) = add_mset (rpc_peer r, rpc_request r) (messages rs)"
  by (simp_all add: messages_def)

lemma quiescent_eval:
  "quiescent (ex_config mode 2) s \<longleftrightarrow> net s = {#} \<and> threads s 0 = {#} \<and> threads s 1 = {#}"
  "quiescent (ex_config mode 3) s \<longleftrightarrow>
     net s = {#} \<and> threads s 0 = {#} \<and> threads s 1 = {#} \<and> threads s 2 = {#}"
proof -
  have "{0..<2 :: nat} = {0, 1}" "{0..<3 :: nat} = {0, 1, 2}" by auto
  then show "quiescent (ex_config mode 2) s \<longleftrightarrow> net s = {#} \<and> threads s 0 = {#} \<and> threads s 1 = {#}"
    "quiescent (ex_config mode 3) s \<longleftrightarrow>
       net s = {#} \<and> threads s 0 = {#} \<and> threads s 1 = {#} \<and> threads s 2 = {#}"
    by (simp_all add: quiescent_def ex_config_def)
qed

text \<open>A one-byte write of the key \<open>x\<close>, and the four sections of the \<open>Put\<close> that makes it.\<close>

definition ex_val :: "byte \<Rightarrow> int64 \<Rightarrow> Value" where
  "ex_val d t = \<lparr>Data = [d], ValTS = Timestamp t 0, Deps = [], Deleted = False\<rparr>"

definition run_stamp :: "nat \<Rightarrow> key \<Rightarrow> Value \<Rightarrow> action list" where
  "run_stamp i k v = [ABegin i (WallTime (ValTS v)) k (Data v) False, AGo i (WSnap k (Data v) False (ValTS v))]"

definition run_write :: "nat \<Rightarrow> key \<Rightarrow> Value \<Rightarrow> action list" where
  "run_write i k v = [AGo i (WLocal k v), AGo i (WSend k v)]"

definition run_deliver :: "string \<Rightarrow> nat \<Rightarrow> int64 \<Rightarrow> key \<Rightarrow> Value \<Rightarrow> action list" where
  "run_deliver mode i now k v = [ADeliver i now (wire_req mode k v), AGo i (RApply k (wire mode v))]"

lemmas run_defs = run_stamp_def run_write_def run_deliver_def wire_def

lemmas node_eval = ex_cluster_def ex_node_def ex_val_def Clock_Send_cases Clock_Receive_cases
  Clock_New_def take_deps_def NewReadTracker_def Tracker_Record_def SnapshotAndClear_def
  local_write_def overwrites_newer_def deliver_value_def apply_direct_def replicated_value_def
  Buffer_Receive_def Buffer_New_def drainLocked.simps

lemmas net_eval = others_eval messages_eval EventualHandler_OnWrite_def CausalHandler_OnWrite_def
  send_to_def sleepBeforeReplicate_def ex_options_def wire_req_def buildReplicateRequest_def
  to_rep_Timestamp_def fromProtoTS_def Let_def

lemmas store_eval = Store_Put_def Store_Delete_def Store_Get_def Store_GetVersion_def Store_Apply_def
  Store_ApplyDelete_def Store_New_def applyLocked_is_Apply stored_form_def AfterOrEqual_iff
  zero_Timestamp_def Compare_order less_eq_Timestamp_iff

section \<open>A causal chain over three nodes\<close>

text \<open>
  Node 0 writes \<open>x\<close>; node 1 receives it, reads it and writes \<open>y\<close>; \<open>y\<close> reaches node 2 before
  \<open>x\<close> does and is held there.
\<close>

definition chain_early :: "action list" where
  "chain_early = run_stamp 0 ''x'' ex_x @ run_write 0 ''x'' ex_x @ run_deliver ''causal'' 1 100 ''x'' ex_x @
    [ARead 1 ''x'', AGo 1 (GRecord ''x'' (ValTS ex_x))] @
    run_stamp 1 ''y'' ex_y @ run_write 1 ''y'' ex_y @ run_deliver ''causal'' 2 200 ''y'' ex_y"

definition chain_late :: "action list" where
  "chain_late = run_deliver ''causal'' 2 200 ''x'' ex_x @ run_deliver ''causal'' 0 200 ''y'' ex_y"

lemma chain_held:
  "\<exists>s. reachable (ex_config ''causal'' 3) s \<and> \<not> stale s \<and> \<not> lost s \<and>
     NStore (nodes s 1) = ex_both \<and> NStore (nodes s 2) = Store_New \<and>
     held_of (nodes s 2) = [\<lparr>pw_key = ''y'', pw_val = ex_y\<rparr>]"
proof -
  have "\<exists>s. execs {0..<3} chain_early (ex_cluster ''causal'' 3) = Some s \<and> \<not> stale s \<and> \<not> lost s \<and>
     NStore (nodes s 1) = ex_both \<and> NStore (nodes s 2) = Store_New \<and>
     held_of (nodes s 2) = [\<lparr>pw_key = ''y'', pw_val = ex_y\<rparr>]"
    unfolding chain_early_def
    by (simp add: run_defs ex_x_def ex_y_def ex_both_def node_eval net_eval store_eval held_of_def)
  then show ?thesis using ex_reachable by blast
qed

lemma chain_done:
  "\<exists>s. reachable (ex_config ''causal'' 3) s \<and> quiescent (ex_config ''causal'' 3) s \<and>
     \<not> stale s \<and> \<not> lost s \<and> log s = [(1, ''y'', ex_y), (0, ''x'', ex_x)] \<and>
     NStore (nodes s 0) = ex_both"
proof -
  have "\<exists>s. execs {0..<3} (chain_early @ chain_late) (ex_cluster ''causal'' 3) = Some s \<and>
     quiescent (ex_config ''causal'' 3) s \<and>
     \<not> stale s \<and> \<not> lost s \<and> log s = [(1, ''y'', ex_y), (0, ''x'', ex_x)] \<and>
     NStore (nodes s 0) = ex_both"
    unfolding chain_early_def chain_late_def quiescent_eval
    by (simp add: run_defs ex_x_def ex_y_def ex_both_def node_eval net_eval store_eval)
  then show ?thesis using ex_reachable by blast
qed

section \<open>Properties\<close>

text \<open>
  C36: A \<open>Put\<close> is not atomic: a replicated write that arrives between its timestamp and its
  unconditional \<open>Store.Put\<close> is overwritten by the older timestamp. The origin then keeps the older
  version and its peers the newer one, with every message delivered and every handler finished.
\<close>

theorem interleaved_put_diverges:
  "\<exists>s. reachable (ex_config ''eventual'' 2) s \<and> quiescent (ex_config ''eventual'' 2) s \<and> \<not> lost s \<and>
     Store_GetVersion ''x'' (NStore (nodes s 0)) = Some (Timestamp 100 0) \<and>
     Store_GetVersion ''x'' (NStore (nodes s 1)) = Some (Timestamp 200 0)"
proof -
  have "\<exists>s. execs {0..<2}
      (run_stamp 0 ''x'' (ex_val 97 100) @
       run_stamp 1 ''x'' (ex_val 98 200) @ run_write 1 ''x'' (ex_val 98 200) @
       run_deliver ''eventual'' 0 200 ''x'' (ex_val 98 200) @
       run_write 0 ''x'' (ex_val 97 100) @ run_deliver ''eventual'' 1 200 ''x'' (ex_val 97 100))
      (ex_cluster ''eventual'' 2) = Some s \<and> quiescent (ex_config ''eventual'' 2) s \<and> \<not> lost s \<and>
     Store_GetVersion ''x'' (NStore (nodes s 0)) = Some (Timestamp 100 0) \<and>
     Store_GetVersion ''x'' (NStore (nodes s 1)) = Some (Timestamp 200 0)"
    unfolding quiescent_eval by (simp add: run_defs node_eval net_eval store_eval)
  then show ?thesis using ex_reachable by blast
qed

text \<open>
  C37: Timestamps carry no node number: two nodes that write one key at one reading of their clocks
  produce equal timestamps, each replica ignores the other's write as not newer, and the two
  stores differ for good with every message delivered.
\<close>

theorem tied_puts_diverge:
  "\<exists>s. reachable (ex_config ''causal'' 2) s \<and> quiescent (ex_config ''causal'' 2) s \<and>
     \<not> lost s \<and> \<not> stale s \<and>
     Store_GetVersion ''x'' (NStore (nodes s 0)) = Store_GetVersion ''x'' (NStore (nodes s 1)) \<and>
     Store_Get ''x'' (NStore (nodes s 0)) = Some (ex_val 97 100) \<and>
     Store_Get ''x'' (NStore (nodes s 1)) = Some (ex_val 98 100)"
proof -
  have "\<exists>s. execs {0..<2}
      (run_stamp 0 ''x'' (ex_val 97 100) @ run_write 0 ''x'' (ex_val 97 100) @
       run_stamp 1 ''x'' (ex_val 98 100) @ run_write 1 ''x'' (ex_val 98 100) @
       run_deliver ''causal'' 0 100 ''x'' (ex_val 98 100) @
       run_deliver ''causal'' 1 100 ''x'' (ex_val 97 100))
      (ex_cluster ''causal'' 2) = Some s \<and> quiescent (ex_config ''causal'' 2) s \<and> \<not> lost s \<and> \<not> stale s \<and>
     Store_GetVersion ''x'' (NStore (nodes s 0)) = Store_GetVersion ''x'' (NStore (nodes s 1)) \<and>
     Store_Get ''x'' (NStore (nodes s 0)) = Some (ex_val 97 100) \<and>
     Store_Get ''x'' (NStore (nodes s 1)) = Some (ex_val 98 100)"
    unfolding quiescent_eval by (simp add: run_defs node_eval net_eval store_eval)
  then show ?thesis using ex_reachable by blast
qed

text \<open>
  The eventual mode does not keep causal order: in the chain above, run in that mode, node 2
  shows \<open>y\<close>, written at a node that held \<open>x\<close>, while it has no version of \<open>x\<close>. (In the causal mode
  \<open>y\<close> is held in this state.)
\<close>

theorem eventual_shows_effect_without_cause:
  "\<exists>s y. reachable (ex_config ''eventual'' 3) s \<and> \<not> stale s \<and> \<not> lost s \<and>
     log s = [(1, ''y'', y), (0, ''x'', ex_x)] \<and>
     Store_Get ''x'' (NStore (nodes s 1)) = Some ex_x \<and>
     Store_Get ''y'' (NStore (nodes s 2)) = Some y \<and>
     Store_GetVersion ''x'' (NStore (nodes s 2)) = None"
proof -
  let ?y = "ex_val 121 200"
  have "\<exists>s. execs {0..<3}
      (run_stamp 0 ''x'' ex_x @ run_write 0 ''x'' ex_x @ run_deliver ''eventual'' 1 100 ''x'' ex_x @
       run_stamp 1 ''y'' ?y @ run_write 1 ''y'' ?y @ run_deliver ''eventual'' 2 200 ''y'' ?y)
      (ex_cluster ''eventual'' 3) = Some s \<and> \<not> stale s \<and> \<not> lost s \<and>
     log s = [(1, ''y'', ?y), (0, ''x'', ex_x)] \<and>
     Store_Get ''x'' (NStore (nodes s 1)) = Some ex_x \<and>
     Store_Get ''y'' (NStore (nodes s 2)) = Some ?y \<and>
     Store_GetVersion ''x'' (NStore (nodes s 2)) = None"
    by (simp add: run_defs ex_x_def node_eval net_eval store_eval)
  then show ?thesis using ex_reachable by blast
qed

text \<open>
  C38: The causal mode does not keep the order of one node's own writes: a write takes all recorded
  reads with it and is not recorded itself, so the next write of the node has no dependencies. Here
  node 1 reads \<open>x\<close>, writes \<open>z\<close> and then writes \<open>y\<close>, and node 2 shows \<open>y\<close> while it has neither \<open>x\<close>
  nor \<open>z\<close>.
\<close>

theorem second_put_loses_causal_past:
  "\<exists>s y z. reachable (ex_config ''causal'' 3) s \<and> \<not> stale s \<and> \<not> lost s \<and>
     log s = [(1, ''y'', y), (1, ''z'', z), (0, ''x'', ex_x)] \<and>
     map DepKey (Deps z) = [''x''] \<and> Deps y = [] \<and>
     Store_Get ''y'' (NStore (nodes s 2)) = Some y \<and>
     Store_GetVersion ''x'' (NStore (nodes s 2)) = None \<and>
     Store_GetVersion ''z'' (NStore (nodes s 2)) = None"
proof -
  let ?y = "ex_val 121 300"
  let ?z = "\<lparr>Data = [122], ValTS = Timestamp 200 0,
    Deps = [\<lparr>DepKey = ''x'', MinTS = Timestamp 100 0\<rparr>], Deleted = False\<rparr>"
  have "\<exists>s. execs {0..<3}
      (run_stamp 0 ''x'' ex_x @ run_write 0 ''x'' ex_x @ run_deliver ''causal'' 1 100 ''x'' ex_x @
       [ARead 1 ''x'', AGo 1 (GRecord ''x'' (ValTS ex_x))] @
       run_stamp 1 ''z'' ?z @ run_write 1 ''z'' ?z @ run_stamp 1 ''y'' ?y @ run_write 1 ''y'' ?y @
       run_deliver ''causal'' 2 300 ''y'' ?y)
      (ex_cluster ''causal'' 3) = Some s \<and> \<not> stale s \<and> \<not> lost s \<and>
     log s = [(1, ''y'', ?y), (1, ''z'', ?z), (0, ''x'', ex_x)] \<and>
     Store_Get ''y'' (NStore (nodes s 2)) = Some ?y \<and>
     Store_GetVersion ''x'' (NStore (nodes s 2)) = None \<and>
     Store_GetVersion ''z'' (NStore (nodes s 2)) = None"
    by (simp add: run_defs ex_x_def node_eval net_eval store_eval)
  then obtain s where s: "execs {0..<3}
      (run_stamp 0 ''x'' ex_x @ run_write 0 ''x'' ex_x @ run_deliver ''causal'' 1 100 ''x'' ex_x @
       [ARead 1 ''x'', AGo 1 (GRecord ''x'' (ValTS ex_x))] @
       run_stamp 1 ''z'' ?z @ run_write 1 ''z'' ?z @ run_stamp 1 ''y'' ?y @ run_write 1 ''y'' ?y @
       run_deliver ''causal'' 2 300 ''y'' ?y)
      (ex_cluster ''causal'' 3) = Some s" and facts: "\<not> stale s \<and> \<not> lost s \<and>
     log s = [(1, ''y'', ?y), (1, ''z'', ?z), (0, ''x'', ex_x)] \<and>
     Store_Get ''y'' (NStore (nodes s 2)) = Some ?y \<and>
     Store_GetVersion ''x'' (NStore (nodes s 2)) = None \<and>
     Store_GetVersion ''z'' (NStore (nodes s 2)) = None" by blast
  have "reachable (ex_config ''causal'' 3) s" by (rule ex_reachable [OF _ s]) simp
  with facts show ?thesis
    by (intro exI [of _ s] exI [of _ ?y] exI [of _ ?z]) (simp add: ex_val_def)
qed

end
