(* ===== verification/Causality.thy ===== *)
theory Causality
  imports Scenarios
begin

text \<open>
  Causal consistency of the cluster: as long as no local write has overwritten a newer version,
  every store of a cluster in the causal mode is causally closed, in every interleaving of the
  handlers and every order of delivery.
\<close>

section \<open>Nothing is older than the epoch\<close>

definition base_inv :: "config \<Rightarrow> cluster \<Rightarrow> bool" where
  "base_inv c s \<longleftrightarrow> async_config c \<and> cfg_inv c s \<and> shape_inv c s \<and> prov_inv c s"

lemma reachable_base: "reachable c s \<Longrightarrow> async_config c \<Longrightarrow> base_inv c s"
  by (simp add: base_inv_def reachable_cfg reachable_shape reachable_prov)

lemma base_log_nonneg:
  assumes "base_inv c s" and "(o', k, v) \<in> set (log s)"
  shows "zero_Timestamp \<le> ValTS v"
  using assms by (auto simp: base_inv_def shape_inv_def shaped_def)

lemma base_prov:
  assumes "base_inv c s"
  shows "prov_local (cfg_mode c) (log s) i (nodes s i) (threads s i)"
  using assms by (simp add: base_inv_def prov_inv_def)

lemma logged_nonneg:
  assumes "base_inv c s" and "logged (log s) k t"
  shows "zero_Timestamp \<le> t"
  using assms base_log_nonneg by (auto simp: logged_def)

lemma base_store:
  assumes "base_inv c s" and "store_data (NStore (nodes s i)) k = Some u"
  shows "\<exists>j v. (j, k, v) \<in> set (log s) \<and> (u = stored_form v \<or> u = stored_form (wire (cfg_mode c) v))"
  using base_prov [OF assms(1), of i] assms(2) unfolding prov_local_def by blast

lemma base_nonneg_store:
  assumes "base_inv c s"
  shows "nonneg_store (NStore (nodes s i))"
  unfolding nonneg_store_def
  using logged_store [OF base_prov [OF assms]] logged_nonneg [OF assms] by blast

lemma base_RApply:
  assumes "base_inv c s" and "RApply k w \<in># threads s i"
  shows "\<exists>j v. (j, k, v) \<in> set (log s) \<and> w = wire (cfg_mode c) v"
proof -
  have "\<forall>t \<in># threads s i. prov_thread (cfg_mode c) (log s) i t"
    using base_prov [OF assms(1), of i] by (simp add: prov_local_def)
  from bspec [OF this assms(2)] show ?thesis by simp
qed

lemma base_bag:
  assumes "base_inv c s" and "RApply k w \<in># threads s i"
    and "p \<in># add_mset \<lparr>pw_key = k, pw_val = w\<rparr> (mset (held_of (nodes s i)))"
  shows "\<exists>j v. (j, pw_key p, v) \<in> set (log s) \<and> pw_val p = wire (cfg_mode c) v"
proof (cases "p = \<lparr>pw_key = k, pw_val = w\<rparr>")
  case True
  with base_RApply [OF assms(1,2)] show ?thesis by simp
next
  case False
  with assms(3) have "p \<in> set (held_of (nodes s i))" by simp
  with base_prov [OF assms(1), of i] show ?thesis by (simp add: prov_local_def)
qed

lemma base_nonneg_bag:
  assumes "base_inv c s" and "RApply k w \<in># threads s i"
  shows "nonneg_writes (set_mset (add_mset \<lparr>pw_key = k, pw_val = w\<rparr> (mset (held_of (nodes s i)))))"
  unfolding nonneg_writes_def
proof
  fix p
  assume "p \<in># add_mset \<lparr>pw_key = k, pw_val = w\<rparr> (mset (held_of (nodes s i)))"
  from base_bag [OF assms this] show "zero_Timestamp \<le> ValTS (pw_val p)"
    using base_log_nonneg [OF assms(1)] by fastforce
qed

text \<open>What a delivery does, in a reachable state.\<close>

lemma base_deliver:
  assumes "base_inv c s" and "RApply k w \<in># threads s i" and "deliver_value k w (nodes s i) = (ok, n)"
  shows "releases (NStore (nodes s i), add_mset \<lparr>pw_key = k, pw_val = w\<rparr> (mset (held_of (nodes s i))))
      (NStore n, mset (held_of n))"
    and "stuck (NStore n) (mset (held_of n)) \<or>
      NStore n = NStore (nodes s i) \<and> held_of n = held_of (nodes s i) @ [\<lparr>pw_key = k, pw_val = w\<rparr>] \<and>
      \<not> depsSatisfied (NStore (nodes s i)) (Deps w)"
proof -
  obtain v where v: "w = wire (cfg_mode c) v" using base_RApply [OF assms(1,2)] by blast
  have cfg: "cfg_inv c s" using assms(1) by (simp add: base_inv_def)
  note facts = deliver_wire_ready [OF cfg v assms(3)]
  show "releases (NStore (nodes s i), add_mset \<lparr>pw_key = k, pw_val = w\<rparr> (mset (held_of (nodes s i))))
      (NStore n, mset (held_of n))"
    by (rule facts(1))
  show "stuck (NStore n) (mset (held_of n)) \<or>
      NStore n = NStore (nodes s i) \<and> held_of n = held_of (nodes s i) @ [\<lparr>pw_key = k, pw_val = w\<rparr>] \<and>
      \<not> depsSatisfied (NStore (nodes s i)) (Deps w)"
    by (rule facts(2))
qed

section \<open>The causal invariant\<close>

text \<open>What a node's store owes to its readers and to its handlers in progress.\<close>

fun causal_thread :: "Store \<Rightarrow> thread \<Rightarrow> bool" where
  "causal_thread st (WLocal k v) = depsSatisfied st (Deps v)"
| "causal_thread st (GRecord k t) = (t \<le> effective st k)"
| "causal_thread st t = True"

definition causal_local :: "nat Node \<Rightarrow> thread multiset \<Rightarrow> bool" where
  "causal_local n T \<longleftrightarrow> causally_closed (NStore n) \<and>
     (\<forall>rt. Tracker n = Some rt \<longrightarrow> depsSatisfied (NStore n) (reads rt)) \<and>
     (\<forall>t \<in># T. causal_thread (NStore n) t)"

definition causal_inv :: "cluster \<Rightarrow> bool" where
  "causal_inv s \<longleftrightarrow> stale s \<or> (\<forall>i. causal_local (nodes s i) (threads s i))"

lemma causal_thread_mono:
  assumes "causal_thread st t" and "lww.dominated st st'" and "nonneg_store st'"
  shows "causal_thread st' t"
  using assms(1) depsSatisfied_mono [OF _ assms(2,3)] order_trans [OF _ effective_mono [OF assms(2,3)]]
  by (cases t) auto

text \<open>A step that lets versions only grow and keeps the store closed keeps the rest.\<close>

lemma causal_local_grow:
  assumes old: "causal_local n T" and closed: "causally_closed (NStore n')"
    and grow: "lww.dominated (NStore n) (NStore n')" "nonneg_store (NStore n')"
    and tracker: "Tracker n' = Tracker n"
    and threads: "\<And>t. t \<in># T' \<Longrightarrow> t \<in># T \<or> causal_thread (NStore n') t"
  shows "causal_local n' T'"
  unfolding causal_local_def
proof (intro conjI allI impI ballI)
  show "causally_closed (NStore n')" by (rule closed)
next
  fix rt
  assume "Tracker n' = Some rt"
  with old tracker have "depsSatisfied (NStore n) (reads rt)" by (simp add: causal_local_def)
  then show "depsSatisfied (NStore n') (reads rt)" using grow by (rule depsSatisfied_mono)
next
  fix t
  assume "t \<in># T'"
  with threads consider "t \<in># T" | "causal_thread (NStore n') t" by blast
  then show "causal_thread (NStore n') t"
    using old causal_thread_mono [OF _ grow] by cases (auto simp: causal_local_def)
qed

lemma causal_inv_set_node:
  "causal_inv s \<Longrightarrow> \<not> stale s \<Longrightarrow> causal_local n T \<Longrightarrow> causal_inv (set_node i n T s)"
  by (simp add: causal_inv_def)

lemma causal_inv_net [simp]: "causal_inv (s\<lparr>net := M\<rparr>) = causal_inv s"
  by (simp add: causal_inv_def)

lemma causal_inv_initial:
  assumes "initial c s"
  shows "causal_inv s"
proof -
  have "causal_local (nodes s i) {#}" for i
    by (rule initial_node [OF assms, of i])
      (auto simp: causal_local_def NewNode_def causally_closed_New NewReadTracker_def)
  with assms show ?thesis by (simp add: causal_inv_def initial_def)
qed

lemma take_deps_causal:
  assumes "take_deps n = (deps, n')" and "causal_local n T"
  shows "depsSatisfied (NStore n) deps" and "NStore n' = NStore n"
    and "Tracker n' = Some rt \<Longrightarrow> depsSatisfied (NStore n) (reads rt)"
  using assms
  by (auto simp: take_deps_def SnapshotAndClear_def causal_local_def split: option.splits if_splits)

lemma causal_local_write:
  assumes "causal_local n (add_mset (WLocal k v) T)" and "\<not> overwrites_newer k v (NStore n)"
    and "nonneg_store (NStore n)" and "zero_Timestamp \<le> ValTS v"
  shows "causal_local (n\<lparr>NStore := local_write k v (NStore n)\<rparr>) (add_mset (WSend k v) T)"
proof -
  let ?n = "n\<lparr>NStore := local_write k v (NStore n)\<rparr>"
  have grow: "lww.dominated (NStore n) (NStore ?n)"
    using local_write_dominates [OF assms(2)] by simp
  have "depsSatisfied (NStore n) (Deps v)" and "causally_closed (NStore n)"
    using assms(1) by (simp_all add: causal_local_def)
  with local_write_closed [OF _ assms(3) _ assms(2,4)]
  have nonneg: "nonneg_store (NStore ?n)" and closed: "causally_closed (NStore ?n)" by simp_all
  show ?thesis
    by (rule causal_local_grow [OF assms(1) closed grow nonneg]) (auto split: if_splits)
qed

lemma causal_local_deliver:
  assumes base: "base_inv c s" and T: "threads s i = add_mset (RApply k w) T"
    and deliver: "deliver_value k w (nodes s i) = (ok, n)"
    and old: "causal_local (nodes s i) (threads s i)"
  shows "causal_local n T"
proof -
  have thread: "RApply k w \<in># threads s i" using T by simp
  note rel = base_deliver(1) [OF base thread deliver]
  note nonneg = base_nonneg_store [OF base, of i] base_nonneg_bag [OF base thread]
  have closed: "causally_closed (NStore (nodes s i))" using old by (simp add: causal_local_def)
  show ?thesis
  proof (rule causal_local_grow [OF old])
    show "causally_closed (NStore n)" by (rule releases_causally_closed [OF rel closed nonneg])
    show "lww.dominated (NStore (nodes s i)) (NStore n)" by (rule releases_dominated [OF rel])
    show "nonneg_store (NStore n)" by (rule releases_nonneg [OF rel nonneg])
    show "Tracker n = Tracker (nodes s i)"
      using deliver deliver_value_frame(4) [of k w "nodes s i"] by simp
    show "t \<in># T \<Longrightarrow> t \<in># threads s i \<or> causal_thread (NStore n) t" for t using T by simp
  qed
qed

lemma causal_inv_step:
  assumes "cstep (cfg_ids c) s s'" and base: "base_inv c s" and inv: "causal_inv s"
  shows "causal_inv s'"
proof (cases "stale s")
  case True
  with assms(1) show ?thesis by (cases rule: cstep.cases) (simp_all add: causal_inv_def)
next
  case fresh: False
  with inv have loc: "causal_local (nodes s i) (threads s i)" for i
    by (simp add: causal_inv_def)
  note set_node = causal_inv_set_node [OF inv fresh]
  from assms(1) show ?thesis
  proof (cases rule: cstep.cases)
    case (write_stamp i del data now ts clk k)
    with loc [of i] show ?thesis by (auto intro!: set_node simp: causal_local_def)
  next
    case (write_snapshot i k data del ts T deps n)
    have "causal_local n (add_mset (WLocal k \<lparr>Data = data, ValTS = ts, Deps = deps, Deleted = del\<rparr>) T)"
      using take_deps_causal [OF write_snapshot(4) loc] loc [of i] write_snapshot(3)
      by (simp add: causal_local_def)
    then show ?thesis unfolding write_snapshot(1) by (rule set_node)
  next
    case (write_local i k v T)
    show ?thesis
    proof (cases "overwrites_newer k v (NStore (nodes s i))")
      case True
      with write_local(1) show ?thesis by (simp add: causal_inv_def)
    next
      case False
      have "zero_Timestamp \<le> ValTS v"
        using base write_local(3)
        by (auto simp: base_inv_def shape_inv_def shape_local_def shaped_def dest!: spec [of _ i])
      with loc [of i] write_local(3) False base_nonneg_store [OF base]
      have "causal_local ((nodes s i)\<lparr>NStore := local_write k v (NStore (nodes s i))\<rparr>)
          (add_mset (WSend k v) T)"
        by (intro causal_local_write) simp_all
      with loc write_local(1) show ?thesis by (simp add: causal_inv_def)
    qed
  next
    case (write_send i k v T call rpcs)
    with loc [of i] have "causal_local (nodes s i) T" by (simp add: causal_local_def)
    with write_send(1) show ?thesis by (simp add: set_node)
  next
    case (replicate_clock i req M pts now ts clk)
    with loc [of i] show ?thesis by (auto intro!: set_node simp: causal_local_def)
  next
    case (replicate_apply i k v T ok n)
    show ?thesis unfolding replicate_apply(1)
      by (rule set_node [OF causal_local_deliver [OF base replicate_apply(3,4) loc]])
  next
    case (rpc_fails j req M)
    with inv show ?thesis by (simp add: causal_inv_def)
  next
    case (get_read i k v)
    have "store_data (NStore (nodes s i)) k = Some v"
      using get_read(4) by (auto simp: Store_Get_def split: option.splits if_splits)
    with loc [of i] get_read(1) show ?thesis
      by (auto intro!: set_node simp: causal_local_def effective_def Store_GetVersion_def)
  next
    case (get_record i k t T rt)
    with loc [of i] have "causal_local ((nodes s i)\<lparr>Tracker := Some (Tracker_Record k t rt)\<rparr>) T"
      by (auto simp: causal_local_def depsSatisfied_iff Tracker_Record_def)
    with get_record(1) show ?thesis by (auto intro: set_node)
  qed
qed

lemma reachable_causal: "reachable c s \<Longrightarrow> async_config c \<Longrightarrow> causal_inv s"
  by (induction rule: reachable.induct)
    (auto intro: causal_inv_initial causal_inv_step reachable_base)

section \<open>Property\<close>

text \<open>
  C1: Causal safety of the running cluster: in every reachable state in which no local write has
  overwritten a newer version, whatever node a client asks, every value it can see is accompanied
  by the versions that the value depends on, and each of those dependencies is the timestamp of a
  write that was made somewhere in the cluster. This holds in every interleaving of handlers,
  with messages reordered, delayed or lost.
\<close>

theorem causal_safety:
  assumes "reachable c s" and "async_config c" and "\<not> stale s"
  shows "causally_closed (NStore (nodes s i)) \<and>
    (\<forall>k v d. Store_Get k (NStore (nodes s i)) = Some v \<and> d \<in> set (Deps v) \<longrightarrow>
       logged (log s) (DepKey d) (MinTS d))"
proof (intro conjI allI impI)
  show "causally_closed (NStore (nodes s i))"
    using reachable_causal [OF assms(1,2)] assms(3) by (simp add: causal_inv_def causal_local_def)
next
  fix k v d
  assume vis: "Store_Get k (NStore (nodes s i)) = Some v \<and> d \<in> set (Deps v)"
  have base: "base_inv c s" using assms(1,2) by (rule reachable_base)
  have "store_data (NStore (nodes s i)) k = Some v"
    using vis by (auto simp: Store_Get_def split: option.splits if_splits)
  then obtain j u where u: "(j, k, u) \<in> set (log s)" "v = stored_form u \<or> v = stored_form (wire (cfg_mode c) u)"
    using base_store [OF base] by blast
  have "d \<in> set (Deps u)"
    using u(2) vis by (auto simp: wire_def dest!: Deps_stored_form split: if_splits)
  moreover have "log_ok (log s)" using base by (simp add: base_inv_def prov_inv_def)
  ultimately show "logged (log s) (DepKey d) (MinTS d)" using u(1) log_ok_deps by blast
qed

theorem causal_safety_witness:
  "\<exists>s. reachable (ex_config ''causal'' 3) s \<and> Store_Get ''y'' (NStore (nodes s 0)) = Some ex_y \<and>
     causally_closed (NStore (nodes s 0)) \<and> logged (log s) ''x'' (Timestamp 100 0)"
proof -
  obtain s where s: "reachable (ex_config ''causal'' 3) s" "\<not> stale s" "NStore (nodes s 0) = ex_both"
    using chain_done by blast
  have "async_config (ex_config ''causal'' 3)" by (simp add: ex_async)
  note safe = causal_safety [OF s(1) this s(2), of 0]
  have "Store_Get ''y'' ex_both = Some ex_y" "\<lparr>DepKey = ''x'', MinTS = Timestamp 100 0\<rparr> \<in> set (Deps ex_y)"
    by (simp_all add: ex_both_def ex_y_def Store_Get_def)
  with safe s(1,3) show ?thesis by (intro exI [of _ s]) fastforce
qed

end
