(* ===== verification/Convergence.thy ===== *)
theory Convergence
  imports Causality
begin

text \<open>
  Delivery and convergence of the cluster: where every logged write is, for every replica; what
  every held write waits for; and what remains when no message is in flight and no handler runs.
\<close>

section \<open>Where a write is\<close>

text \<open>
  The logged write \<open>(o, k, v)\<close> is on its way to node \<open>j\<close>: node \<open>o\<close> is about to send it, it is on the
  network, a handler of \<open>j\<close> is about to apply it, or the buffer of \<open>j\<close> holds it.
\<close>

fun outstanding :: "config \<Rightarrow> cluster \<Rightarrow> nat \<Rightarrow> nat \<times> key \<times> Value \<Rightarrow> bool" where
  "outstanding c s j (o', k, v) \<longleftrightarrow> o' \<noteq> j \<and>
     (WSend k v \<in># threads s o' \<or> (j, wire_req (cfg_mode c) k v) \<in># net s \<or>
      RApply k (wire (cfg_mode c) v) \<in># threads s j \<or>
      \<lparr>pw_key = k, pw_val = wire (cfg_mode c) v\<rparr> \<in> set (held_of (nodes s j)))"

abbreviation reached :: "cluster \<Rightarrow> nat \<Rightarrow> key \<Rightarrow> Value \<Rightarrow> bool" where
  "reached s j k v \<equiv> lww.at_least (NStore (nodes s j)) k (ValTS v)"

abbreviation drained :: "cluster \<Rightarrow> nat \<Rightarrow> bool" where
  "drained s j \<equiv> stuck (NStore (nodes s j)) (mset (held_of (nodes s j)))"

text \<open>A step that overwrites no newer version lets every version of every node only grow.\<close>

lemma step_dominates:
  assumes "cstep (cfg_ids c) s s'" and base: "base_inv c s" and "\<not> stale s'"
  shows "lww.dominated (NStore (nodes s j)) (NStore (nodes s' j))"
  using assms(1)
proof (cases rule: cstep.cases)
  case (write_snapshot i k data del ts T deps n)
  with take_deps_frame [of "nodes s i"] show ?thesis by (simp add: lww.dominated_refl)
next
  case (write_local i k v T)
  with assms(3) local_write_dominates [of k v "NStore (nodes s i)"] show ?thesis
    by (simp add: lww.dominated_refl)
next
  case (replicate_apply i k v T ok n)
  then have "RApply k v \<in># threads s i" by simp
  with releases_dominated [OF base_deliver(1) [OF base this replicate_apply(4)]] replicate_apply(1)
  show ?thesis by (simp add: lww.dominated_refl)
qed (simp_all add: lww.dominated_refl)

text \<open>
  An outstanding write stays outstanding until a delivery drains the node's buffer and leaves the
  node with that version or a newer one, unless a message is lost.
\<close>

lemma outstanding_deliver:
  assumes base: "base_inv c s" and T: "threads s i = add_mset (RApply k w) T"
    and deliver: "deliver_value k w (nodes s i) = (ok, n)"
    and out: "outstanding c s i (o', k', v)"
  shows "outstanding c (set_node i n T s) i (o', k', v) \<or>
    lww.at_least (NStore n) k' (ValTS v) \<and> stuck (NStore n) (mset (held_of n))"
proof -
  let ?p = "\<lparr>pw_key = k', pw_val = wire (cfg_mode c) v\<rparr>"
  let ?bag = "add_mset \<lparr>pw_key = k, pw_val = w\<rparr> (mset (held_of (nodes s i)))"
  have thread: "RApply k w \<in># threads s i" using T by simp
  note facts = base_deliver [OF base thread deliver]
  show ?thesis
  proof (cases "?p \<in># ?bag")
    case True
    then consider "?p \<in># mset (held_of n)" | "absorbed (NStore n) ?p"
      using releases_absorbed [OF facts(1)] by blast
    then show ?thesis
    proof cases
      case 1
      with out show ?thesis by simp
    next
      case 2
      from facts(2) show ?thesis
      proof
        assume "stuck (NStore n) (mset (held_of n))"
        with 2 show ?thesis by simp
      next
        assume "NStore n = NStore (nodes s i) \<and> held_of n = held_of (nodes s i) @ [\<lparr>pw_key = k, pw_val = w\<rparr>] \<and>
          \<not> depsSatisfied (NStore (nodes s i)) (Deps w)"
        with True have "?p \<in> set (held_of n)" by auto
        with out show ?thesis by simp
      qed
    qed
  next
    case False
    with out T show ?thesis by auto
  qed
qed

lemma outstanding_step:
  assumes "cstep (cfg_ids c) s s'" and base: "base_inv c s" and "\<not> lost s'" and j: "j \<in> cfg_ids c"
    and out: "outstanding c s j (o', k, v)"
  shows "outstanding c s' j (o', k, v) \<or> reached s' j k v \<and> drained s' j"
  using assms(1)
proof (cases rule: cstep.cases)
  case (write_stamp i del data now ts clk k)
  with out show ?thesis by auto
next
  case (write_snapshot i k' data del ts T deps n)
  have "held_of n = held_of (nodes s i)"
    using write_snapshot(4) take_deps_frame(4) [of "nodes s i"] by (simp add: held_of_def)
  with out write_snapshot(1,3) show ?thesis by auto
next
  case (write_local i k' v' T)
  with out show ?thesis by auto
next
  case (write_send i k' v' T call rpcs)
  have "async_config c" "cfg_inv c s" using base by (simp_all add: base_inv_def)
  then have "messages rpcs = image_mset (\<lambda>j. (j, wire_req (cfg_mode c) k' v')) (mset (cfg_peers c i))"
    and "set (cfg_peers c i) = cfg_ids c - {i}"
    using async_OnWrite [OF _ _ write_send(4)] write_send(2) by (auto simp: async_config_def)
  with out write_send(1,3) j show ?thesis by auto
next
  case (replicate_clock i req M pts now ts clk)
  show ?thesis
  proof (cases "i = j \<and> req = wire_req (cfg_mode c) k v")
    case True
    then have "rreq_Key req = k" "replicated_value (fromProtoTS pts) req = wire (cfg_mode c) v"
      using replicate_clock(4) by (auto simp: wire_req_sel)
    with True out replicate_clock(1) show ?thesis by auto
  next
    case False
    with out replicate_clock(1,3) show ?thesis by auto
  qed
next
  case (replicate_apply i k' w T ok n)
  show ?thesis
  proof (cases "i = j")
    case True
    with out have "outstanding c s i (o', k, v)" by simp
    from outstanding_deliver [OF base replicate_apply(3,4) this] True replicate_apply(1)
    show ?thesis by simp
  next
    case False
    with out replicate_apply(1,3) show ?thesis by auto
  qed
next
  case (rpc_fails j' req M)
  with assms(3) show ?thesis by simp
next
  case (get_read i k' v')
  with out show ?thesis by auto
next
  case (get_record i k' t T rt)
  with out show ?thesis by auto
qed

text \<open>A write that a step adds to a buffer, or that stays there after a drain, is not ready.\<close>

lemma held_step:
  assumes "cstep (cfg_ids c) s s'" and base: "base_inv c s" and p: "p \<in> set (held_of (nodes s' j))"
  shows "p \<in> set (held_of (nodes s j)) \<or> \<not> ready (NStore (nodes s' j)) p"
  using assms(1)
proof (cases rule: cstep.cases)
  case (write_snapshot i k' data del ts T deps n)
  have "held_of n = held_of (nodes s i)"
    using write_snapshot(4) take_deps_frame(4) [of "nodes s i"] by (simp add: held_of_def)
  with p write_snapshot(1) show ?thesis by (auto split: if_splits)
next
  case (replicate_apply i k w T ok n)
  then have "RApply k w \<in># threads s i" by simp
  from base_deliver(2) [OF base this replicate_apply(4)] p replicate_apply(1) show ?thesis
    by (auto simp: stuck_def split: if_splits)
qed (use p in \<open>auto split: if_splits\<close>)

section \<open>Accounting\<close>

text \<open>
  Every logged write has reached every node or is on its way there, unless a message was lost or
  a version was overwritten by an older one.
\<close>

definition settled :: "config \<Rightarrow> cluster \<Rightarrow> nat \<Rightarrow> nat \<times> key \<times> Value \<Rightarrow> bool" where
  "settled c s j e = (case e of (o', k, v) \<Rightarrow> reached s j k v \<or> outstanding c s j e)"

definition acct_inv :: "config \<Rightarrow> cluster \<Rightarrow> bool" where
  "acct_inv c s \<longleftrightarrow> stale s \<or> lost s \<or> (\<forall>e \<in> set (log s). \<forall>j \<in> cfg_ids c. settled c s j e)"

lemma acct_invD:
  "acct_inv c s \<Longrightarrow> \<not> stale s \<Longrightarrow> \<not> lost s \<Longrightarrow> e \<in> set (log s) \<Longrightarrow> j \<in> cfg_ids c \<Longrightarrow> settled c s j e"
  by (simp add: acct_inv_def)

lemma settled_step:
  assumes "cstep (cfg_ids c) s s'" "base_inv c s" "\<not> stale s'" "\<not> lost s'" "j \<in> cfg_ids c"
    and "settled c s j e"
  shows "settled c s' j e"
proof -
  obtain o' k v where e: "e = (o', k, v)" by (cases e)
  from assms(6) consider "reached s j k v" | "outstanding c s j (o', k, v)"
    unfolding settled_def e prod.case by blast
  then show ?thesis
  proof cases
    case 1
    have "reached s' j k v" by (rule lww.dominatedD [OF step_dominates [OF assms(1-3)] 1])
    then show ?thesis by (simp add: settled_def e)
  next
    case 2
    from outstanding_step [OF assms(1,2,4,5) this] show ?thesis
      unfolding settled_def e prod.case by blast
  qed
qed

text \<open>The history components only grow; the log grows by a local write that is sent to all peers.\<close>

lemma step_history:
  assumes "cstep (cfg_ids c) s s'"
  shows "stale s \<longrightarrow> stale s'" and "lost s \<longrightarrow> lost s'"
    and "log s' = log s \<or> (\<exists>i k v. log s' = (i, k, v) # log s \<and> reached s' i k v \<and>
      WSend k v \<in># threads s' i)"
  using assms by (cases rule: cstep.cases; auto simp: local_write_at_least)+

lemma acct_inv_step:
  assumes step: "cstep (cfg_ids c) s s'" and base: "base_inv c s" and inv: "acct_inv c s"
  shows "acct_inv c s'"
proof (cases "stale s' \<or> lost s'")
  case True
  then show ?thesis by (auto simp: acct_inv_def)
next
  case False
  with step_history(1,2) [OF step] have fresh: "\<not> stale s" "\<not> lost s" "\<not> stale s'" "\<not> lost s'" by auto
  have "settled c s' j e" if "e \<in> set (log s')" "j \<in> cfg_ids c" for e j
  proof (cases "e \<in> set (log s)")
    case True
    from settled_step [OF step base fresh(3,4) that(2) acct_invD [OF inv fresh(1,2) True that(2)]]
    show ?thesis .
  next
    case False
    with that(1) step_history(3) [OF step] obtain i k v
      where "e = (i, k, v)" "reached s' i k v" "WSend k v \<in># threads s' i" by auto
    then show ?thesis by (cases "i = j") (simp_all add: settled_def)
  qed
  then show ?thesis by (simp add: acct_inv_def)
qed

lemma reachable_acct: "reachable c s \<Longrightarrow> async_config c \<Longrightarrow> acct_inv c s"
proof (induction rule: reachable.induct)
  case (start s)
  then show ?case by (simp add: initial_def acct_inv_def)
next
  case (step s s')
  then show ?case by (blast intro: acct_inv_step reachable_base)
qed

section \<open>What a held write waits for\<close>

text \<open>
  Behind every held write there is, among the writes logged before it, one that is still on its
  way to this node. The order of the log makes the waiting well-founded.
\<close>

definition waits :: "config \<Rightarrow> cluster \<Rightarrow> nat \<Rightarrow> pendingWrite \<Rightarrow> bool" where
  "waits c s j p \<longleftrightarrow> (\<forall>l1 o' v l2. log s = l1 @ (o', pw_key p, v) # l2 \<and>
     pw_val p = wire (cfg_mode c) v \<longrightarrow> (\<exists>e \<in> set l2. outstanding c s j e))"

definition waiting_inv :: "config \<Rightarrow> cluster \<Rightarrow> bool" where
  "waiting_inv c s \<longleftrightarrow> stale s \<or> lost s \<or>
     (\<forall>j \<in> cfg_ids c. \<forall>p \<in> set (held_of (nodes s j)). waits c s j p)"

lemma waitsD:
  "waits c s j p \<Longrightarrow> log s = l1 @ (o', pw_key p, v) # l2 \<Longrightarrow> pw_val p = wire (cfg_mode c) v \<Longrightarrow>
     \<exists>e \<in> set l2. outstanding c s j e"
  unfolding waits_def by blast

lemma log_ok_split: "log_ok (l1 @ e # l2) \<Longrightarrow> log_ok (e # l2)"
  by (induction l1) auto

text \<open>A write that is not ready lacks a dependency, and that dependency is on its way.\<close>

lemma not_ready_waits:
  assumes base: "base_inv c s" and acct: "acct_inv c s" and "\<not> stale s" "\<not> lost s"
    and j: "j \<in> cfg_ids c" and unready: "\<not> ready (NStore (nodes s j)) p"
  shows "waits c s j p"
  unfolding waits_def
proof (intro allI impI, elim conjE)
  fix l1 o' v l2
  assume split: "log s = l1 @ (o', pw_key p, v) # l2" and w: "pw_val p = wire (cfg_mode c) v"
  from unready obtain d where d: "d \<in> set (Deps (pw_val p))"
    "\<not> MinTS d \<le> effective (NStore (nodes s j)) (DepKey d)"
    by (auto simp: depsSatisfied_iff)
  have "log_ok (l1 @ (o', pw_key p, v) # l2)" using base split by (simp add: base_inv_def prov_inv_def)
  from log_ok_split [OF this] d(1) w have "logged l2 (DepKey d) (MinTS d)"
    by (auto simp: wire_def split: if_splits)
  then obtain i u where u: "(i, DepKey d, u) \<in> set l2" "ValTS u = MinTS d" by (auto simp: logged_def)
  have "(i, DepKey d, u) \<in> set (log s)" using u(1) split by simp
  then have "settled c s j (i, DepKey d, u)" using acct_invD [OF acct assms(3,4) _ j] by blast
  moreover have "\<not> reached s j (DepKey d) u"
    using d(2) u(2) by (auto simp: lww.at_least_def effective_def GetVersion_version)
  ultimately have "outstanding c s j (i, DepKey d, u)" unfolding settled_def prod.case by blast
  with u(1) show "\<exists>e \<in> set l2. outstanding c s j e" by blast
qed

lemma waits_step:
  assumes step: "cstep (cfg_ids c) s s'" and base: "base_inv c s" and fresh: "\<not> lost s'"
    and j: "j \<in> cfg_ids c" and p: "p \<in> set (held_of (nodes s j))" and waits: "waits c s j p"
    and nodrain: "\<not> drained s' j"
  shows "waits c s' j p"
  unfolding waits_def
proof (intro allI impI, elim conjE)
  fix l1 o' v l2
  assume split: "log s' = l1 @ (o', pw_key p, v) # l2" and w: "pw_val p = wire (cfg_mode c) v"
  have "\<exists>e \<in> set l2. outstanding c s j e"
  proof (cases "log s' = log s \<or> l1 \<noteq> []")
    case True
    then obtain l1' where "log s = l1' @ (o', pw_key p, v) # l2"
    proof (cases "log s' = log s")
      case True
      with split that show ?thesis by simp
    next
      case False
      with \<open>log s' = log s \<or> l1 \<noteq> []\<close> obtain e l where "l1 = e # l" by (cases l1) auto
      with split step_history(3) [OF step] False that [of l] show ?thesis by auto
    qed
    with waits w show ?thesis unfolding waits_def by blast
  next
    case False
    with split step_history(3) [OF step] have l2: "l2 = log s" by auto
    obtain i u where u: "(i, pw_key p, u) \<in> set (log s)" "pw_val p = wire (cfg_mode c) u"
      using base_prov [OF base, of j] p by (auto simp: prov_local_def)
    from u(1) obtain m1 m2 where "log s = m1 @ (i, pw_key p, u) # m2" by (auto dest: split_list)
    with waits u(2) have "\<exists>e \<in> set m2. outstanding c s j e" by (auto simp: waits_def)
    then show ?thesis using l2 \<open>log s = m1 @ (i, pw_key p, u) # m2\<close> by auto
  qed
  then obtain i k u where e: "(i, k, u) \<in> set l2" "outstanding c s j (i, k, u)" by auto
  from outstanding_step [OF step base fresh j e(2)] nodrain e(1)
  show "\<exists>e \<in> set l2. outstanding c s' j e" by blast
qed

lemma waiting_inv_step:
  assumes step: "cstep (cfg_ids c) s s'" and base: "base_inv c s" "base_inv c s'"
    and acct: "acct_inv c s'" and inv: "waiting_inv c s"
  shows "waiting_inv c s'"
proof (cases "stale s' \<or> lost s'")
  case True
  then show ?thesis by (auto simp: waiting_inv_def)
next
  case False
  with step_history(1,2) [OF step] have fresh: "\<not> stale s" "\<not> lost s" "\<not> stale s'" "\<not> lost s'" by auto
  have "waits c s' j p" if j: "j \<in> cfg_ids c" and p: "p \<in> set (held_of (nodes s' j))" for j p
  proof (cases "ready (NStore (nodes s' j)) p")
    case False
    with not_ready_waits [OF base(2) acct fresh(3,4) j] show ?thesis by blast
  next
    case True
    with p have nodrain: "\<not> drained s' j" by (auto simp: stuck_def)
    have "p \<in> set (held_of (nodes s j))" using held_step [OF step base(1) p] True by blast
    moreover from this inv fresh j have "waits c s j p" by (simp add: waiting_inv_def)
    ultimately show ?thesis using nodrain by (rule waits_step [OF step base(1) fresh(4) j])
  qed
  then show ?thesis by (simp add: waiting_inv_def)
qed

lemma initial_held: "initial c s \<Longrightarrow> held_of (nodes s i) = []"
  by (rule initial_node [of c s i]) (auto simp: NewNode_def held_of_def Buffer_New_def)

lemma reachable_waiting: "reachable c s \<Longrightarrow> async_config c \<Longrightarrow> waiting_inv c s"
proof (induction rule: reachable.induct)
  case (start s)
  then show ?case by (simp add: initial_held waiting_inv_def)
next
  case (step s s')
  then have "reachable c s'" by (blast intro: reachable.step)
  with step show ?case
    by (intro waiting_inv_step [OF step.hyps(2)]) (simp_all add: reachable_base reachable_acct)
qed

section \<open>Quiescent states\<close>

text \<open>With nothing in flight only held writes are outstanding, and a first held write waits for none.\<close>

lemma quiescent_outstanding:
  assumes "quiescent c s" and "j \<in> cfg_ids c" and "o' \<in> cfg_ids c" and "outstanding c s j (o', k, v)"
  shows "\<lparr>pw_key = k, pw_val = wire (cfg_mode c) v\<rparr> \<in> set (held_of (nodes s j))"
  using assms by (simp add: quiescent_def)

lemma quiescent_none_held:
  assumes inv: "waiting_inv c s" and base: "base_inv c s" and "\<not> stale s" "\<not> lost s"
    and quiet: "quiescent c s" and j: "j \<in> cfg_ids c"
  shows "held_of (nodes s j) = []"
proof -
  have waits: "waits c s j p" if "p \<in> set (held_of (nodes s j))" for p
    using inv assms(3,4) j that by (simp add: waiting_inv_def)
  have none: "\<lparr>pw_key = k, pw_val = wire (cfg_mode c) v\<rparr> \<notin> set (held_of (nodes s j))"
    if "log s = l1 @ (i, k, v) # l2" for l1 i k v l2
    using that
  proof (induction "length l2" arbitrary: l1 i k v l2 rule: less_induct)
    case less
    show ?case
    proof
      assume "\<lparr>pw_key = k, pw_val = wire (cfg_mode c) v\<rparr> \<in> set (held_of (nodes s j))"
      from waitsD [OF waits [OF this], of l1 i v l2] less.prems
      have "\<exists>e \<in> set l2. outstanding c s j e" by (simp del: outstanding.simps)
      then obtain e where "e \<in> set l2" "outstanding c s j e" by blast
      moreover obtain i' k' v' where "e = (i', k', v')" by (cases e)
      ultimately have e: "(i', k', v') \<in> set l2" "outstanding c s j (i', k', v')" by simp_all
      from e(1) obtain m1 m2 where l2: "l2 = m1 @ (i', k', v') # m2" by (auto dest: split_list)
      with less.prems have log: "log s = (l1 @ (i, k, v) # m1) @ (i', k', v') # m2" by simp
      have "i' \<in> cfg_ids c"
        using base log by (auto simp: base_inv_def shape_inv_def)
      from quiescent_outstanding [OF quiet j this e(2)] less.hyps [OF _ log] l2
      show False by simp
    qed
  qed
  have False if p: "p \<in> set (held_of (nodes s j))" for p
  proof -
    obtain i v where v: "(i, pw_key p, v) \<in> set (log s)" "pw_val p = wire (cfg_mode c) v"
      using base_prov [OF base, of j] p by (auto simp: prov_local_def)
    from v(1) obtain l1 l2 where "log s = l1 @ (i, pw_key p, v) # l2" by (auto dest: split_list)
    from none [OF this] p v(2) [symmetric] show False by (cases p) simp
  qed
  then show ?thesis by (cases "held_of (nodes s j)") auto
qed

text \<open>Every node then holds, for every key, the newest logged timestamp.\<close>

lemma quiescent_reached:
  assumes "reachable c s" "async_config c" "\<not> stale s" "\<not> lost s" "quiescent c s"
    and j: "j \<in> cfg_ids c" and e: "(i, k, v) \<in> set (log s)"
  shows "reached s j k v"
proof -
  have base: "base_inv c s" using assms(1,2) by (rule reachable_base)
  have "settled c s j (i, k, v)"
    by (rule acct_invD [OF reachable_acct [OF assms(1,2)] assms(3,4) e j])
  moreover have "\<not> outstanding c s j (i, k, v)"
  proof
    assume out: "outstanding c s j (i, k, v)"
    have "i \<in> cfg_ids c" using base e by (auto simp: base_inv_def shape_inv_def)
    from quiescent_outstanding [OF assms(5) j this out]
      quiescent_none_held [OF reachable_waiting [OF assms(1,2)] base assms(3-5) j]
    show False by simp
  qed
  ultimately show ?thesis unfolding settled_def prod.case by blast
qed

lemma quiescent_dominated:
  assumes "reachable c s" "async_config c" "\<not> stale s" "\<not> lost s" "quiescent c s"
    and "j \<in> cfg_ids c"
  shows "lww.dominated (NStore (nodes s i)) (NStore (nodes s j))"
  unfolding lww.dominated_def
proof (intro allI impI)
  fix k t
  assume "lww.at_least (NStore (nodes s i)) k t"
  then obtain u where u: "store_data (NStore (nodes s i)) k = Some u" "t \<le> ValTS u"
    by (auto simp: lww.at_least_def lww.version_def)
  from logged_store [OF base_prov [OF reachable_base [OF assms(1,2)]] u(1)]
  obtain o' v where v: "(o', k, v) \<in> set (log s)" "ValTS v = ValTS u" by (auto simp: logged_def)
  from quiescent_reached [OF assms v(1)] u(2) v(2) show "lww.at_least (NStore (nodes s j)) k t"
    by (auto simp: lww.at_least_def intro: order_trans)
qed

lemma quiescent_versions:
  assumes "reachable c s" "async_config c" "\<not> stale s" "\<not> lost s" "quiescent c s"
    and "i \<in> cfg_ids c" "j \<in> cfg_ids c"
  shows "lww.version (NStore (nodes s i)) k = lww.version (NStore (nodes s j)) k"
  by (rule lww.dominated_antisym; rule quiescent_dominated [OF assms(1-5)]; fact)

text \<open>A write that the replicas reconstruct exactly: one whose data is empty only if it deletes.\<close>

definition clean_log :: "(nat \<times> key \<times> Value) list \<Rightarrow> bool" where
  "clean_log L \<longleftrightarrow> (\<forall>(i, k, v) \<in> set L. (Data v = [] \<longrightarrow> Deleted v) \<and>
     (\<forall>(i', k', v') \<in> set L. k = k' \<and> ValTS v = ValTS v' \<longrightarrow> v = v'))"

lemma clean_logD:
  assumes "clean_log L" "(i, k, v) \<in> set L" "(i', k, v') \<in> set L" "ValTS v = ValTS v'"
  shows "v = v'"
proof -
  have "\<forall>(i', k', v') \<in> set L. k = k' \<and> ValTS v = ValTS v' \<longrightarrow> v = v'"
    using bspec [OF assms(1) [unfolded clean_log_def] assms(2)] by simp
  from bspec [OF this assms(3)] assms(4) show ?thesis by simp
qed

lemma wire_id:
  assumes "shaped m v" and "Data v = [] \<longrightarrow> Deleted v"
  shows "wire m v = v"
proof -
  have "(Data v = []) = Deleted v" and "m \<noteq> ''causal'' \<Longrightarrow> Deps v = []"
    using assms unfolding shaped_def by blast+
  then show ?thesis unfolding wire_def by (cases v) simp
qed

lemma clean_store:
  assumes base: "base_inv c s" and clean: "clean_log (log s)"
    and "store_data (NStore (nodes s i)) k = Some u"
  shows "\<exists>o' v. (o', k, v) \<in> set (log s) \<and> u = stored_form v"
proof -
  obtain o' v where v: "(o', k, v) \<in> set (log s)"
    "u = stored_form v \<or> u = stored_form (wire (cfg_mode c) v)"
    using base_store [OF base assms(3)] by blast
  have "shaped (cfg_mode c) v" using base v(1) by (auto simp: base_inv_def shape_inv_def)
  moreover have "Data v = [] \<longrightarrow> Deleted v" using clean v(1) by (auto simp: clean_log_def)
  ultimately have "wire (cfg_mode c) v = v" by (rule wire_id)
  with v show ?thesis by auto
qed

lemma clean_stores_eq:
  assumes base: "base_inv c s" and clean: "clean_log (log s)"
    and versions: "\<And>k. lww.version (NStore (nodes s i)) k = lww.version (NStore (nodes s j)) k"
  shows "NStore (nodes s i) = NStore (nodes s j)"
proof (rule store_eqI)
  fix k
  show "store_data (NStore (nodes s i)) k = store_data (NStore (nodes s j)) k"
  proof (cases "store_data (NStore (nodes s i)) k")
    case None
    with versions [of k] show ?thesis by (simp add: lww.version_def)
  next
    case (Some u)
    with versions [of k] obtain w where w: "store_data (NStore (nodes s j)) k = Some w" "ValTS w = ValTS u"
      by (cases "store_data (NStore (nodes s j)) k") (auto simp: lww.version_def)
    obtain o1 v1 where v1: "(o1, k, v1) \<in> set (log s)" "u = stored_form v1"
      using clean_store [OF base clean Some] by blast
    obtain o2 v2 where v2: "(o2, k, v2) \<in> set (log s)" "w = stored_form v2"
      using clean_store [OF base clean w(1)] by blast
    have "v1 = v2" using clean_logD [OF clean v1(1) v2(1)] v1(2) v2(2) w(2) by simp
    with Some w(1) v1(2) v2(2) show ?thesis by simp
  qed
qed

section \<open>Properties\<close>

text \<open>
  C3: Convergence of the cluster: when no message is in flight and no handler runs, none was lost
  and no version was overwritten by an older one, then no buffer holds a write any more (every
  held write has been released), every logged write has reached every node, and all nodes agree
  on the version of every key.
\<close>

theorem quiescent_convergence:
  assumes "reachable c s" "async_config c" "\<not> stale s" "\<not> lost s" "quiescent c s"
    and "i \<in> cfg_ids c" "j \<in> cfg_ids c"
  shows "held_of (nodes s i) = [] \<and> (\<forall>(o', k, v) \<in> set (log s). reached s i k v) \<and>
    Store_GetVersion k (NStore (nodes s i)) = Store_GetVersion k (NStore (nodes s j))"
proof (intro conjI)
  show "held_of (nodes s i) = []"
    by (rule quiescent_none_held [OF reachable_waiting reachable_base]) (use assms in simp_all)
  show "\<forall>(o', k, v) \<in> set (log s). reached s i k v"
    using quiescent_reached [OF assms(1-6)] by blast
  show "Store_GetVersion k (NStore (nodes s i)) = Store_GetVersion k (NStore (nodes s j))"
    unfolding GetVersion_version by (rule quiescent_versions [OF assms])
qed

theorem quiescent_convergence_witness:
  "\<exists>s. reachable (ex_config ''causal'' 3) s \<and> NStore (nodes s 0) = ex_both \<and>
     held_of (nodes s 2) = [] \<and>
     Store_GetVersion ''y'' (NStore (nodes s 2)) = Some (Timestamp 200 0)"
proof -
  let ?c = "ex_config ''causal'' 3"
  obtain s where s: "reachable ?c s" "quiescent ?c s" "\<not> stale s" "\<not> lost s" "NStore (nodes s 0) = ex_both"
    using chain_done by blast
  have "2 \<in> cfg_ids ?c" "0 \<in> cfg_ids ?c" by (simp_all add: ex_config_def)
  from quiescent_convergence [OF s(1) ex_async s(3,4,2) this, of "''y''"] s(5)
  have "held_of (nodes s 2) = [] \<and>
      Store_GetVersion ''y'' (NStore (nodes s 2)) = Some (Timestamp 200 0)"
    by (simp add: ex_both_def ex_y_def Store_GetVersion_def)
  with s(1,5) show ?thesis by blast
qed

text \<open>
  C4: The converged stores are equal in full, data and deletions and dependencies included, when
  no two different writes of one key carry one timestamp and no \<open>Put\<close> wrote an empty value.
\<close>

theorem quiescent_stores_equal:
  assumes "reachable c s" "async_config c" "\<not> stale s" "\<not> lost s" "quiescent c s"
    and "i \<in> cfg_ids c" "j \<in> cfg_ids c" and "clean_log (log s)"
  shows "NStore (nodes s i) = NStore (nodes s j)"
  using clean_stores_eq [OF reachable_base [OF assms(1,2)] assms(8) quiescent_versions [OF assms(1-7)]] .

theorem quiescent_stores_equal_witness:
  "\<exists>s. reachable (ex_config ''causal'' 3) s \<and>
     NStore (nodes s 1) = ex_both \<and> NStore (nodes s 2) = ex_both"
proof -
  let ?c = "ex_config ''causal'' 3"
  obtain s where s: "reachable ?c s" "quiescent ?c s" "\<not> stale s" "\<not> lost s"
    "log s = [(1, ''y'', ex_y), (0, ''x'', ex_x)]" "NStore (nodes s 0) = ex_both"
    using chain_done by blast
  have ids: "0 \<in> cfg_ids ?c" "1 \<in> cfg_ids ?c" "2 \<in> cfg_ids ?c" by (simp_all add: ex_config_def)
  have clean: "clean_log (log s)" unfolding s(5) by (simp add: clean_log_def ex_x_def ex_y_def)
  have "async_config ?c" by (simp add: ex_async)
  note eq = quiescent_stores_equal [OF s(1) this s(3,4,2)]
  from eq [OF ids(2,1) clean] eq [OF ids(3,1) clean] s(1,6) show ?thesis by auto
qed

end
