(* ===== verification/Drift.thy ===== *)
theory Drift
  imports Convergence
begin

text \<open>
  How far the timestamps of a cluster can be ahead: runs of the steps of \<open>Cluster\<close> together with the
  furthest reading that any physical clock has shown so far. The hybrid clocks of all nodes, and with
  them every timestamp that a node stores or sends, stay at or below it.
\<close>

section \<open>Readings of the physical clocks\<close>

text \<open>A step is made at readings up to \<open>B\<close>: they account for every clock that it moves.\<close>

definition paced :: "int \<Rightarrow> cluster \<Rightarrow> cluster \<Rightarrow> bool" where
  "paced B s s' \<longleftrightarrow> (\<forall>i. NClock (nodes s' i) = NClock (nodes s i) \<or>
     (\<exists>now ts. sint now \<le> B \<and>
        (Clock_Send now (NClock (nodes s i)) = (Inr ts, NClock (nodes s' i)) \<or>
         (\<exists>req pts. (i, req) \<in># net s \<and> rreq_Timestamp req = Some pts \<and>
            Clock_Receive now (fromProtoTS pts) (NClock (nodes s i)) = (Inr ts, NClock (nodes s' i))))))"

text \<open>\<open>timed c B s\<close>: a run to \<open>s\<close> in which the physical clocks have shown at most \<open>B\<close>.\<close>

inductive timed :: "config \<Rightarrow> int \<Rightarrow> cluster \<Rightarrow> bool" for c where
  start: "initial c s \<Longrightarrow> (\<And>i. sint (clk_l (NClock (nodes s i))) \<le> B) \<Longrightarrow> timed c B s"
| step: "timed c B s \<Longrightarrow> B \<le> B' \<Longrightarrow> cstep (cfg_ids c) s s' \<Longrightarrow> paced B' s s' \<Longrightarrow> timed c B' s'"

lemma timed_reachable: "timed c B s \<Longrightarrow> reachable c s"
  by (induction rule: timed.induct) (auto intro: reachable.intros)

section \<open>The bound is kept\<close>

abbreviation wall :: "Value \<Rightarrow> int" where
  "wall v \<equiv> sint (WallTime (ValTS v))"

fun wall_thread :: "int \<Rightarrow> thread \<Rightarrow> bool" where
  "wall_thread B (WSnap k data del ts) = (sint (WallTime ts) \<le> B)"
| "wall_thread B (WLocal k v) = (wall v \<le> B)"
| "wall_thread B _ = True"

definition wall_inv :: "int \<Rightarrow> cluster \<Rightarrow> bool" where
  "wall_inv B s \<longleftrightarrow> (\<forall>i. sint (clk_l (NClock (nodes s i))) \<le> B) \<and>
     (\<forall>i. \<forall>t \<in># threads s i. wall_thread B t) \<and> (\<forall>(i, k, v) \<in> set (log s). wall v \<le> B)"

lemma wall_thread_mono: "wall_thread B t \<Longrightarrow> B \<le> B' \<Longrightarrow> wall_thread B' t"
  by (cases t) auto

lemma wall_inv_mono:
  assumes "wall_inv B s" and "B \<le> B'"
  shows "wall_inv B' s"
  using assms(1) wall_thread_mono [OF _ assms(2)] order_trans [OF _ assms(2)] unfolding wall_inv_def by blast

lemma Send_wall:
  "Clock_Send now clk = (Inr ts, clk') \<Longrightarrow> sint (clk_l clk') = max (sint now) (sint (clk_l clk)) \<and> WallTime ts = clk_l clk'"
  by (auto simp: Clock_Send_cases split: if_splits)

lemma Receive_wall:
  "Clock_Receive now msg clk = (Inr ts, clk') \<Longrightarrow>
     sint (clk_l clk') = max (sint now) (max (sint (WallTime msg)) (sint (clk_l clk)))"
  by (auto simp: Clock_Receive_cases Let_def max_def split: if_splits)

lemma request_wall:
  assumes "prov_inv c s" and "\<forall>(i, k, v) \<in> set (log s). wall v \<le> B"
    and "(j, req) \<in># net s" and "rreq_Timestamp req = Some pts"
  shows "sint (WallTime (fromProtoTS pts)) \<le> B"
proof -
  obtain i k v where "(i, k, v) \<in> set (log s)" "req = wire_req (cfg_mode c) k v"
    using assms(1,3) by (fastforce simp: prov_inv_def)
  with assms(2,4) show ?thesis by (auto simp: wire_req_sel)
qed

lemma clock_wall:
  assumes "prov_inv c s" and inv: "wall_inv B s" and "paced B s s'"
  shows "sint (clk_l (NClock (nodes s' i))) \<le> B"
proof -
  have old: "sint (clk_l (NClock (nodes s i))) \<le> B" and log: "\<forall>(i, k, v) \<in> set (log s). wall v \<le> B"
    using inv by (simp_all add: wall_inv_def)
  consider "NClock (nodes s' i) = NClock (nodes s i)"
    | now ts where "sint now \<le> B" "Clock_Send now (NClock (nodes s i)) = (Inr ts, NClock (nodes s' i))"
    | now ts req pts where "sint now \<le> B" "(i, req) \<in># net s" "rreq_Timestamp req = Some pts"
      "Clock_Receive now (fromProtoTS pts) (NClock (nodes s i)) = (Inr ts, NClock (nodes s' i))"
    using assms(3) unfolding paced_def by blast
  then show ?thesis
  proof cases
    case 1
    with old show ?thesis by simp
  next
    case 2
    with old Send_wall [OF 2(2)] show ?thesis by simp
  next
    case 3
    with old Receive_wall [OF 3(4)] request_wall [OF assms(1) log 3(2,3)] show ?thesis by simp
  qed
qed

lemma wall_inv_step:
  assumes "cstep (cfg_ids c) s s'" and "prov_inv c s" and inv: "wall_inv B s" and "paced B s s'"
  shows "wall_inv B s'"
proof -
  have clock: "\<forall>i. sint (clk_l (NClock (nodes s' i))) \<le> B" using clock_wall [OF assms(2-4)] by blast
  have threads: "\<forall>t \<in># threads s i. wall_thread B t" for i using inv by (simp add: wall_inv_def)
  have log: "\<forall>(i, k, v) \<in> set (log s). wall v \<le> B" using inv by (simp add: wall_inv_def)
  have "(\<forall>i. \<forall>t \<in># threads s' i. wall_thread B t) \<and> (\<forall>(i, k, v) \<in> set (log s'). wall v \<le> B)"
    using assms(1)
  proof (cases rule: cstep.cases)
    case (write_stamp i del data now ts clk k)
    have "sint (WallTime ts) \<le> B" using Send_wall [OF write_stamp(4)] clock [rule_format, of i] write_stamp(1) by simp
    with write_stamp(1) threads log show ?thesis by simp
  next
    case (write_snapshot i k data del ts T deps n)
    with threads [of i] threads log show ?thesis by simp
  next
    case (write_local i k v T)
    with threads [of i] threads log show ?thesis by simp
  next
    case (write_send i k v T call rpcs)
    with threads [of i] threads log show ?thesis by simp
  next
    case (replicate_apply i k v T ok n)
    with threads [of i] threads log show ?thesis by simp
  next
    case (get_record i k t T rt)
    with threads [of i] threads log show ?thesis by simp
  qed (use threads log in simp_all)
  with clock show ?thesis by (simp add: wall_inv_def)
qed

lemma timed_wall:
  assumes "timed c B s" and "async_config c"
  shows "wall_inv B s"
  using assms(1)
proof (induction rule: timed.induct)
  case (start s B)
  then show ?case by (simp add: wall_inv_def initial_def)
next
  case (step B s B' s')
  have "prov_inv c s" by (rule reachable_prov [OF timed_reachable [OF step.hyps(1)] assms(2)])
  from wall_inv_step [OF step.hyps(3) this wall_inv_mono [OF step.IH step.hyps(2)] step.hyps(4)] show ?case .
qed

section \<open>Timed runs of the scheduler\<close>

fun within :: "int \<Rightarrow> action \<Rightarrow> bool" where
  "within B (ABegin i now k data del) = (sint now \<le> B)"
| "within B (ADeliver i now req) = (sint now \<le> B)"
| "within B _ = True"

lemma exec_go_clock: "exec_go i t T s = Some s' \<Longrightarrow> NClock (nodes s' j) = NClock (nodes s j)"
  using take_deps_frame(3) [of "nodes s i"] deliver_value_frame(2) [of _ _ "nodes s i"]
  by (cases t) (auto split: prod.splits option.splits, metis snd_conv)

lemma exec_paced:
  assumes "exec ids a s = Some s'" and "within B a"
  shows "paced B s s'"
proof (cases a)
  case (AGo i t)
  with assms(1) show ?thesis by (auto simp: paced_def dest: exec_go_clock split: if_splits)
qed (use assms in \<open>auto simp: paced_def split: prod.splits sum.splits if_splits option.splits\<close>)

lemma execs_timed:
  "timed c B s \<Longrightarrow> execs (cfg_ids c) as s = Some s' \<Longrightarrow> \<forall>a \<in> set as. within B a \<Longrightarrow> timed c B s'"
proof (induction as arbitrary: s)
  case (Cons a as)
  from Cons.prems(2) obtain t where t: "exec (cfg_ids c) a s = Some t" "execs (cfg_ids c) as t = Some s'"
    by (auto split: option.splits)
  have "within B a" using Cons.prems(3) by simp
  from timed.step [OF Cons.prems(1) order_refl exec_step [OF t(1)] exec_paced [OF t(1) this]]
  show ?case using Cons.IH t(2) Cons.prems(3) by simp
qed simp

section \<open>Properties\<close>

text \<open>
  C16: No timestamp of a cluster is ahead of the fastest physical clock. In the eventual and the causal
  mode, whatever the interleaving, if the physical clocks of all nodes have shown at most \<open>B\<close> so far,
  then the hybrid clocks, the versions in the stores and the timestamps on the network have wall times
  of at most \<open>B\<close>; so with clocks that are within some skew of each other, no timestamp is further ahead
  of a node's clock than that skew.
\<close>

theorem timestamps_within_clocks:
  assumes "timed c B s" and "async_config c"
  shows "sint (clk_l (NClock (nodes s i))) \<le> B \<and>
    (Store_GetVersion k (NStore (nodes s i)) = Some t \<longrightarrow> sint (WallTime t) \<le> B) \<and>
    ((j, req) \<in># net s \<and> rreq_Timestamp req = Some pts \<longrightarrow> sint (rep_WallTime pts) \<le> B)"
proof -
  have inv: "wall_inv B s" by (rule timed_wall [OF assms])
  then have log: "\<forall>(i, k, v) \<in> set (log s). wall v \<le> B" by (simp add: wall_inv_def)
  have prov: "prov_inv c s" by (rule reachable_prov [OF timed_reachable [OF assms(1)] assms(2)])
  then have loc: "prov_local (cfg_mode c) (log s) i (nodes s i) (threads s i)" by (simp add: prov_inv_def)
  have "sint (WallTime t) \<le> B" if "Store_GetVersion k (NStore (nodes s i)) = Some t"
  proof -
    from that obtain u where "store_data (NStore (nodes s i)) k = Some u" "ValTS u = t"
      by (auto simp: Store_GetVersion_def split: option.splits)
    with logged_store [OF loc] log show ?thesis by (fastforce simp: logged_def)
  qed
  moreover have "sint (rep_WallTime pts) \<le> B" if "(j, req) \<in># net s" "rreq_Timestamp req = Some pts"
    using request_wall [OF prov log that] by (simp add: fromProtoTS_def)
  ultimately show ?thesis using inv by (auto simp: wall_inv_def)
qed

text \<open>The causal chain over three nodes, with physical clocks that have shown at most 200.\<close>

lemma ex_timed:
  "\<exists>s. timed (ex_config ''causal'' 3) 200 s \<and> NStore (nodes s 0) = ex_both"
proof -
  have "\<exists>s. execs {0..<3} (chain_early @ chain_late) (ex_cluster ''causal'' 3) = Some s \<and> NStore (nodes s 0) = ex_both"
    unfolding chain_early_def chain_late_def
    by (simp add: run_defs ex_x_def ex_y_def ex_both_def node_eval net_eval store_eval)
  then obtain s where s: "execs {0..<3} (chain_early @ chain_late) (ex_cluster ''causal'' 3) = Some s"
    "NStore (nodes s 0) = ex_both" by blast
  have "\<forall>a \<in> set (chain_early @ chain_late). within 200 a"
    by (simp add: chain_early_def chain_late_def run_defs ex_x_def ex_y_def)
  moreover have "timed (ex_config ''causal'' 3) 200 (ex_cluster ''causal'' 3)"
    by (rule timed.start [OF ex_initial]) (simp_all add: ex_cluster_def ex_node_def Clock_New_def)
  ultimately show ?thesis using execs_timed s by (metis config.select_convs(2) ex_config_def)
qed

theorem timestamps_within_clocks_witness:
  "\<exists>s t. timed (ex_config ''causal'' 3) 200 s \<and> Store_GetVersion ''y'' (NStore (nodes s 0)) = Some t \<and>
     sint (WallTime t) \<le> 200 \<and> sint (clk_l (NClock (nodes s 2))) \<le> 200"
proof -
  obtain s where s: "timed (ex_config ''causal'' 3) 200 s" "NStore (nodes s 0) = ex_both" using ex_timed by blast
  have async: "async_config (ex_config ''causal'' 3)" by (simp add: ex_async)
  obtain t where t: "Store_GetVersion ''y'' (NStore (nodes s 0)) = Some t"
    unfolding s(2) by (simp add: ex_both_def Store_GetVersion_def)
  from timestamps_within_clocks [OF s(1) async, of 0 "''y''" t] timestamps_within_clocks [OF s(1) async, of 2] s(1) t
  show ?thesis by blast
qed

end
