(* ===== verification/Simulation.thy ===== *)
theory Simulation
  imports Scenarios
begin

text \<open>
  The request handlers as a whole and as steps of the cluster: a handler that runs without
  interruption is a sequence of steps of the cluster with the same effect on its node, on the
  network and on nobody else. The cluster therefore has every behaviour of the handlers, and the
  interleaved ones besides.
\<close>

abbreviation steps :: "config \<Rightarrow> cluster \<Rightarrow> cluster \<Rightarrow> bool" where
  "steps c \<equiv> (cstep (cfg_ids c))\<^sup>*\<^sup>*"

lemma set_node_funs:
  "nodes (set_node i n T s) = (nodes s)(i := n)" "threads (set_node i n T s) = (threads s)(i := T)"
  by (simp_all add: set_node_def)

lemma two_steps: "cstep (cfg_ids c) a b \<Longrightarrow> cstep (cfg_ids c) b d \<Longrightarrow> steps c a d"
  by (rule rtranclp.rtrancl_into_rtrancl [OF r_into_rtranclp])

lemma steps_trans: "steps c a b \<Longrightarrow> steps c b d \<Longrightarrow> steps c a d"
  by (rule rtranclp_trans)

text \<open>A write from its timestamp to the sending of its messages.\<close>

lemma write_steps:
  assumes "async_config c" and "cfg_inv c s" and i: "i \<in> cfg_ids c" and del: "del \<longrightarrow> data = []"
    and send: "Clock_Send now (NClock (nodes s i)) = (Inr ts, clk)"
    and take: "take_deps ((nodes s i)\<lparr>NClock := clk\<rparr>) = (deps, n1)"
    and v: "v = \<lparr>Data = data, ValTS = ts, Deps = deps, Deleted = del\<rparr>"
    and handler: "Handler_OnWrite call (NHandler n1) k v = (None, rpcs)"
  shows "\<exists>s'. steps c s s' \<and> nodes s' = (nodes s)(i := n1\<lparr>NStore := local_write k v (NStore n1)\<rparr>) \<and>
    threads s' = threads s \<and> net s' = net s + messages rpcs"
proof -
  let ?ids = "cfg_ids c" and ?T = "threads s i"
  let ?s1 = "set_node i ((nodes s i)\<lparr>NClock := clk\<rparr>) (add_mset (WSnap k data del ts) ?T) s"
  let ?s2 = "set_node i n1 (add_mset (WLocal k v) ?T) ?s1"
  let ?n2 = "n1\<lparr>NStore := local_write k v (NStore n1)\<rparr>"
  let ?s3 = "(set_node i ?n2 (add_mset (WSend k v) ?T) ?s2)
    \<lparr>log := (i, k, v) # log s, stale := (stale s \<or> overwrites_newer k v (NStore n1))\<rparr>"
  let ?s4 = "(set_node i ?n2 ?T ?s3)\<lparr>net := net s + messages rpcs\<rparr>"
  have st1: "cstep ?ids s ?s1" using i del send by (rule cstep.write_stamp)
  have st2: "cstep ?ids ?s1 ?s2"
    unfolding v using take by (intro cstep.write_snapshot [OF i]) simp_all
  have st3: "cstep ?ids ?s2 ?s3"
    using cstep.write_local [OF i, of ?s2 k v ?T] by simp
  have st4: "cstep ?ids ?s3 ?s4"
    using cstep.write_send [OF i, of ?s3 k v ?T call rpcs] handler by simp
  have "steps c s ?s4"
    by (rule steps_trans [OF two_steps [OF st1 st2] two_steps [OF st3 st4]])
  moreover have "nodes ?s4 = (nodes s)(i := ?n2)" "threads ?s4 = threads s"
    by (simp_all add: set_node_funs)
  ultimately show ?thesis by (intro exI [of _ ?s4]) simp
qed

lemma async_handler_ok:
  assumes "async_config c" and "cfg_inv c s"
  shows "fst (Handler_OnWrite call (NHandler (nodes s i)) k v) = None"
  unfolding async_handler [OF assms] by (simp add: EventualHandler_OnWrite_def CausalHandler_OnWrite_def Let_def)

lemma async_write_through:
  assumes "async_config c" and "cfg_inv c s" and "NHandler n = NHandler (nodes s i)" "Mode n = Mode (nodes s i)"
  shows "\<exists>rpcs. Handler_OnWrite call (NHandler n) k v = (None, rpcs) \<and>
    write_through call k v upd n = (None, n\<lparr>NStore := upd (NStore n)\<rparr>, rpcs)"
proof -
  obtain rpcs where "Handler_OnWrite call (NHandler n) k v = (None, rpcs)"
    using async_handler_ok [OF assms(1,2), of call i k v] assms(3) by (metis prod.collapse)
  moreover have "Mode n \<noteq> ''strong''"
    using assms(1,4) cfg_invD(1) [OF assms(2), of i] by (auto simp: async_config_def)
  ultimately show ?thesis by (simp add: write_through_def Let_def)
qed

text \<open>\<open>Put\<close> and \<open>Delete\<close> differ in the value they write and in the response only.\<close>

lemma client_write_steps:
  assumes async: "async_config c" and cfg: "cfg_inv c s" and i: "i \<in> cfg_ids c"
    and del: "del \<longrightarrow> data = []" and upd: "\<And>v. Deleted v = del \<Longrightarrow> upd v = local_write k v"
    and send: "Clock_Send now (NClock (nodes s i)) = (Inr ts, clk)"
    and take: "take_deps ((nodes s i)\<lparr>NClock := clk\<rparr>) = (deps, n1)"
    and v: "v = \<lparr>Data = data, ValTS = ts, Deps = deps, Deleted = del\<rparr>"
    and out: "write_through call k v (upd v) n1 = (e, n', rpcs)"
  shows "e = None \<and> (\<exists>s'. steps c s s' \<and> nodes s' = (nodes s)(i := n') \<and> threads s' = threads s \<and>
    net s' = net s + messages rpcs)"
proof -
  have same: "NHandler n1 = NHandler (nodes s i)" "Mode n1 = Mode (nodes s i)"
    using take_deps_frame(1,5) [of "(nodes s i)\<lparr>NClock := clk\<rparr>"] take by simp_all
  have u: "upd v = local_write k v" using v by (intro upd) simp
  obtain q where q: "Handler_OnWrite call (NHandler n1) k v = (None, q)"
    "write_through call k v (upd v) n1 = (None, n1\<lparr>NStore := upd v (NStore n1)\<rparr>, q)"
    using async_write_through [OF async cfg same] by blast
  then have "e = None" "n' = n1\<lparr>NStore := local_write k v (NStore n1)\<rparr>" "rpcs = q"
    using out u by auto
  with write_steps [OF async cfg i del send take v q(1)] show ?thesis by simp
qed

lemma no_steps: "\<exists>s'. steps c s s' \<and> nodes s' = (nodes s)(i := nodes s i) \<and> threads s' = threads s \<and>
    net s' = net s + messages []"
  by (intro exI [of _ s]) (simp add: messages_def)

lemma Node_Get_records:
  assumes "Node_Get req n = (resp, n')"
  shows "n' = n \<or> (\<exists>v rt. Store_Get (get_Key req) (NStore n) = Some v \<and> Tracker n = Some rt \<and>
    Mode n = ''causal'' \<and> n' = n\<lparr>Tracker := Some (Tracker_Record (get_Key req) (ValTS v) rt)\<rparr>)"
  using assms
  by (cases "Store_Get (get_Key req) (NStore n)"; cases "Tracker n"; cases "Mode n = ''causal''")
    (auto simp: Node_Get_def)

section \<open>Properties\<close>

text \<open>
  C9: A \<open>Put\<close> or a \<open>Delete\<close> that runs without interruption at a node of a reachable cluster is a
  sequence of its steps: the same node afterwards, the same messages on the network, nothing else
  moved. Where the clock overflows it is no step at all.
\<close>

theorem writes_run_as_steps:
  assumes "reachable c s" and async: "async_config c" and i: "i \<in> cfg_ids c"
  shows "(case Node_Put now call req (nodes s i) of (r, n', rpcs) \<Rightarrow>
      \<exists>s'. steps c s s' \<and> nodes s' = (nodes s)(i := n') \<and> threads s' = threads s \<and>
        net s' = net s + messages rpcs) \<and>
    (case Node_Delete now call dreq (nodes s i) of (r, n', rpcs) \<Rightarrow>
      \<exists>s'. steps c s s' \<and> nodes s' = (nodes s)(i := n') \<and> threads s' = threads s \<and>
        net s' = net s + messages rpcs)"
proof -
  have cfg: "cfg_inv c s" using assms(1) by (rule reachable_cfg)
  obtain x clk where send: "Clock_Send now (NClock (nodes s i)) = (x, clk)" by (rule prod.exhaust)
  show ?thesis
  proof (cases x)
    case (Inl e)
    with send Clock_Send_error [of now "NClock (nodes s i)" e clk] have "clk = NClock (nodes s i)" by simp
    with send Inl no_steps [of c s i] show ?thesis by (simp add: Node_Put_def Node_Delete_def)
  next
    case (Inr ts)
    obtain deps n1 where take: "take_deps ((nodes s i)\<lparr>NClock := clk\<rparr>) = (deps, n1)" by (rule prod.exhaust)
    have send': "Clock_Send now (NClock (nodes s i)) = (Inr ts, clk)" using send Inr by simp
    let ?v = "\<lparr>Data = put_Value req, ValTS = ts, Deps = deps, Deleted = False\<rparr>"
    let ?d = "\<lparr>Data = [], ValTS = ts, Deps = deps, Deleted = True\<rparr>"
    obtain e n' out where put: "write_through call (put_Key req) ?v (Store_Put (put_Key req) ?v) n1 = (e, n', out)"
      by (rule prod_cases3)
    obtain e2 n2 out2 where del: "write_through call (del_Key dreq) ?d (Store_Delete (del_Key dreq) ts) n1 = (e2, n2, out2)"
      by (rule prod_cases3)
    have p: "e = None \<and> (\<exists>s'. steps c s s' \<and> nodes s' = (nodes s)(i := n') \<and> threads s' = threads s \<and>
        net s' = net s + messages out)"
      by (rule client_write_steps [where upd = "Store_Put (put_Key req)", OF async cfg i _ _ send' take refl put])
        (simp_all add: local_write_def fun_eq_iff)
    have "e2 = None \<and> (\<exists>s'. steps c s s' \<and> nodes s' = (nodes s)(i := n2) \<and> threads s' = threads s \<and>
        net s' = net s + messages out2)"
      by (rule client_write_steps [where upd = "\<lambda>v. Store_Delete (del_Key dreq) (ValTS v)" and v = ?d
            and k = "del_Key dreq" and call = call, OF async cfg i _ _ send' take refl])
        (simp_all add: local_write_def fun_eq_iff del)
    with p send Inr take put del show ?thesis by (simp add: Node_Put_def Node_Delete_def Let_def)
  qed
qed

theorem writes_run_as_steps_witness:
  "\<exists>s'. reachable (ex_config ''causal'' 2) s' \<and> net s' \<noteq> {#} \<and>
     Store_Get ''z'' (NStore (nodes s' 0)) \<noteq> None"
proof -
  let ?c = "ex_config ''causal'' 2" and ?s = "ex_cluster ''causal'' 2"
  have start: "reachable ?c ?s" by (rule reachable.start, rule ex_initial) simp
  have i: "0 \<in> cfg_ids ?c" by (simp add: ex_config_def)
  obtain r n' rpcs where put: "Node_Put 100 (\<lambda>_ _. RPCError) ex_put (nodes ?s 0) = (r, n', rpcs)"
    by (rule prod_cases3)
  have eff: "messages rpcs \<noteq> {#} \<and> Store_Get ''z'' (NStore n') \<noteq> None"
    using put by (auto simp: Node_Put_def ex_cluster_def ex_node_def Clock_Send_cases Clock_New_def
        take_deps_def NewReadTracker_def SnapshotAndClear_def write_through_def ex_put_def net_eval
        Store_Put_def Store_Get_def)
  obtain s' where s': "steps ?c ?s s'" "nodes s' = (nodes ?s)(0 := n')" "net s' = net ?s + messages rpcs"
    using writes_run_as_steps [OF start _ i, of 100 "\<lambda>_ _. RPCError" ex_put undefined] put
    by (auto simp: ex_async)
  with eff reachable_steps [OF s'(1) start] show ?thesis by (intro exI [of _ s']) auto
qed

text \<open>
  C10: A \<open>Replicate\<close> that runs without interruption on a message of the network is a sequence of steps
  of the cluster, with the same node afterwards: it takes the message, and nobody else changes; where
  the clock refuses it, the step is that of a failed call. A \<open>Get\<close> is a sequence of steps too, in any
  reachable state, and leaves the network untouched.
\<close>

theorem replicate_and_get_run_as_steps:
  assumes "reachable c s" and async: "async_config c" and i: "i \<in> cfg_ids c"
  shows "(net s = add_mset (i, req) M \<longrightarrow>
      (case Node_Replicate now req (nodes s i) of (r, n') \<Rightarrow>
         \<exists>s'. steps c s s' \<and> nodes s' = (nodes s)(i := n') \<and> threads s' = threads s \<and> net s' = M \<and>
           log s' = log s \<and> (stale s' \<longleftrightarrow> stale s) \<and> (lost s' \<longleftrightarrow> lost s \<or> isl r))) \<and>
    (case Node_Get greq (nodes s i) of (gresp, n2) \<Rightarrow>
       \<exists>s'. steps c s s' \<and> nodes s' = (nodes s)(i := n2) \<and> threads s' = threads s \<and> net s' = net s \<and>
         log s' = log s \<and> (stale s' \<longleftrightarrow> stale s) \<and> (lost s' \<longleftrightarrow> lost s))"
proof
  obtain r n' where rep: "Node_Replicate now req (nodes s i) = (r, n')" by (rule prod.exhaust)
  have "\<exists>s'. steps c s s' \<and> nodes s' = (nodes s)(i := n') \<and> threads s' = threads s \<and> net s' = M \<and>
      log s' = log s \<and> (stale s' \<longleftrightarrow> stale s) \<and> (lost s' \<longleftrightarrow> lost s \<or> isl r)"
    if net: "net s = add_mset (i, req) M"
  proof -
    have "\<exists>pts. rreq_Timestamp req = Some pts"
      using reachable_prov [OF assms(1) async] net by (auto simp: prov_inv_def wire_req_sel)
    then obtain pts where pts: "rreq_Timestamp req = Some pts" by blast
    obtain x clk where rec: "Clock_Receive now (fromProtoTS pts) (NClock (nodes s i)) = (x, clk)"
      by (rule prod.exhaust)
    show ?thesis
    proof (cases x)
      case (Inl e)
      with rep pts rec Clock_Receive_error have "r = Inl (ErrHLC e)" "n' = nodes s i"
        by (auto simp: Node_Replicate_def Let_def)
      moreover have "steps c s (s\<lparr>net := M, lost := True\<rparr>)"
        by (rule r_into_rtranclp, rule cstep.rpc_fails, rule net)
      ultimately show ?thesis by (intro exI [of _ "s\<lparr>net := M, lost := True\<rparr>"]) simp
    next
      case (Inr ts)
      let ?v = "replicated_value (fromProtoTS pts) req"
      obtain ok where ok: "deliver_value (rreq_Key req) ?v ((nodes s i)\<lparr>NClock := clk\<rparr>) = (ok, n')"
        and r: "\<not> isl r"
        using rep pts rec Inr by (auto simp: Node_Replicate_def Let_def split: prod.splits)
      let ?s1 = "(set_node i ((nodes s i)\<lparr>NClock := clk\<rparr>)
          (add_mset (RApply (rreq_Key req) ?v) (threads s i)) s)\<lparr>net := M\<rparr>"
      have "cstep (cfg_ids c) s ?s1" using rec Inr by (intro cstep.replicate_clock [OF i net pts]) simp
      moreover have "cstep (cfg_ids c) ?s1 (set_node i n' (threads s i) ?s1)"
        using ok by (intro cstep.replicate_apply [OF i]) simp_all
      ultimately have "steps c s (set_node i n' (threads s i) ?s1)" by (rule two_steps)
      then show ?thesis
        using r by (intro exI [of _ "set_node i n' (threads s i) ?s1"]) (simp add: set_node_def)
    qed
  qed
  with rep show "net s = add_mset (i, req) M \<longrightarrow>
      (case Node_Replicate now req (nodes s i) of (r, n') \<Rightarrow>
         \<exists>s'. steps c s s' \<and> nodes s' = (nodes s)(i := n') \<and> threads s' = threads s \<and> net s' = M \<and>
           log s' = log s \<and> (stale s' \<longleftrightarrow> stale s) \<and> (lost s' \<longleftrightarrow> lost s \<or> isl r))"
    by simp
next
  obtain gresp n2 where get: "Node_Get greq (nodes s i) = (gresp, n2)" by (rule prod.exhaust)
  have "\<exists>s'. steps c s s' \<and> nodes s' = (nodes s)(i := n2) \<and> threads s' = threads s \<and> net s' = net s \<and>
      log s' = log s \<and> (stale s' \<longleftrightarrow> stale s) \<and> (lost s' \<longleftrightarrow> lost s)"
  proof (cases "n2 = nodes s i")
    case True
    then show ?thesis by (intro exI [of _ s]) simp
  next
    case False
    then obtain v rt where v: "Store_Get (get_Key greq) (NStore (nodes s i)) = Some v"
      "Tracker (nodes s i) = Some rt" "Mode (nodes s i) = ''causal''"
      "n2 = (nodes s i)\<lparr>Tracker := Some (Tracker_Record (get_Key greq) (ValTS v) rt)\<rparr>"
      using Node_Get_records [OF get] by blast
    let ?s1 = "set_node i (nodes s i) (add_mset (GRecord (get_Key greq) (ValTS v)) (threads s i)) s"
    have "cstep (cfg_ids c) s ?s1" by (rule cstep.get_read [OF i v(3,1)])
    moreover have "cstep (cfg_ids c) ?s1 (set_node i n2 (threads s i) ?s1)"
      using cstep.get_record [OF i, of ?s1 "get_Key greq" "ValTS v" "threads s i" rt] v(2,4)
      by (simp add: set_node_funs)
    ultimately have "steps c s (set_node i n2 (threads s i) ?s1)" by (rule two_steps)
    then show ?thesis
      by (intro exI [of _ "set_node i n2 (threads s i) ?s1"]) (simp add: set_node_def)
  qed
  with get show "case Node_Get greq (nodes s i) of (gresp, n2) \<Rightarrow>
      \<exists>s'. steps c s s' \<and> nodes s' = (nodes s)(i := n2) \<and> threads s' = threads s \<and> net s' = net s \<and>
        log s' = log s \<and> (stale s' \<longleftrightarrow> stale s) \<and> (lost s' \<longleftrightarrow> lost s)"
    by simp
qed

theorem replicate_and_get_run_as_steps_witness:
  "\<exists>s'. reachable (ex_config ''eventual'' 2) s' \<and> net s' = {#} \<and> \<not> lost s' \<and>
     Store_Get ''x'' (NStore (nodes s' 1)) = Some (ex_val 97 100)"
proof -
  let ?c = "ex_config ''eventual'' 2" and ?req = "wire_req ''eventual'' ''x'' (ex_val 97 100)"
  have "\<exists>s. execs {0..<2} (run_stamp 0 ''x'' (ex_val 97 100) @ run_write 0 ''x'' (ex_val 97 100))
      (ex_cluster ''eventual'' 2) = Some s \<and> net s = {#(1, ?req)#} \<and> nodes s 1 = ex_node ''eventual'' 2 1 \<and> \<not> lost s"
    by (simp add: run_defs node_eval net_eval store_eval)
  then obtain s where s: "reachable ?c s" "net s = add_mset (1, ?req) {#}" "nodes s 1 = ex_node ''eventual'' 2 1" "\<not> lost s"
    using ex_reachable by fastforce
  have i: "1 \<in> cfg_ids ?c" by (simp add: ex_config_def)
  obtain resp n' where rep: "Node_Replicate 200 ?req (nodes s 1) = (Inr resp, n')"
    and eff: "Store_Get ''x'' (NStore n') = Some (ex_val 97 100)"
    unfolding s(3) by (simp add: Node_Replicate_def node_eval net_eval store_eval)
  note sim = replicate_and_get_run_as_steps [OF s(1) _ i, where greq = "\<lparr>get_Key = ''x''\<rparr>"]
  from sim [where req = ?req and M = "{#}" and now = 200] obtain s'
    where "steps ?c s s'" "nodes s' = (nodes s)(1 := n')" "net s' = {#}" "\<not> lost s'"
    using s(2,4) rep by (auto simp: ex_async)
  with reachable_steps [OF this(1) s(1)] eff show ?thesis by (intro exI [of _ s']) simp
qed

end
