(* ===== verification/StrongCluster.thy ===== *)
theory StrongCluster
  imports Scenarios
begin

text \<open>
  A cluster of nodes in the strong mode, as a step relation. A \<open>Put\<close> or \<open>Delete\<close> takes its timestamp,
  calls every peer in a goroutine of its own, waits for all replies, and writes its own store only
  when the handler has counted a quorum; meanwhile other requests and replicated writes go on. A
  call may be reported as failed at any time, whether or not the peer ever handles it, and whether
  or not the peer's reply arrives later.

  A handler in progress is identified by its node and its write: no other write of the node has
  its timestamp. The history variables \<open>acked\<close>, \<open>failed\<close> and \<open>stale\<close> are read by no step.
\<close>

section \<open>State\<close>

text \<open>\<open>rc_req\<close> is the request that travels; the rest says whose call it is.\<close>

record rcall =
  rc_origin :: nat
  rc_key :: key
  rc_val :: Value
  rc_peer :: nat
  rc_req :: ReplicateRequest

text \<open>
  \<open>SCall\<close>: a write that has its timestamp and will call \<open>OnWrite\<close>; \<open>SWait\<close>: it waits in \<open>OnWrite\<close> with
  the replies so far, latest first; \<open>SApply\<close>: a \<open>Replicate\<close> that has advanced the clock and will apply the write.
\<close>

datatype sthread =
    SCall key Value
  | SWait key Value "(nat \<times> rpc_reply) list"
  | SApply rcall key Value

record scluster =
  snodes :: "nat \<Rightarrow> nat Node"
  sthreads :: "nat \<Rightarrow> sthread multiset"
  requests :: "rcall multiset"
  replies :: "(rcall \<times> rpc_reply) multiset"
  acked :: "(nat \<times> key \<times> Value) set"
  failed :: "(nat \<times> key \<times> Value) set"
  sstale :: bool

definition sset :: "nat \<Rightarrow> nat Node \<Rightarrow> sthread multiset \<Rightarrow> scluster \<Rightarrow> scluster" where
  "sset i n T s = s\<lparr>snodes := (snodes s)(i := n), sthreads := (sthreads s)(i := T)\<rparr>"

definition calls :: "nat \<Rightarrow> key \<Rightarrow> Value \<Rightarrow> nat RPC list \<Rightarrow> rcall multiset" where
  "calls i k v rpcs = mset (map (\<lambda>r. \<lparr>rc_origin = i, rc_key = k, rc_val = v, rc_peer = rpc_peer r,
     rc_req = rpc_request r\<rparr>) rpcs)"

text \<open>The outcome of \<open>OnWrite\<close> when all replies are in; and the peers that it asks.\<close>

definition outcome :: "nat Node \<Rightarrow> key \<Rightarrow> Value \<Rightarrow> (nat \<times> rpc_reply) list \<Rightarrow> replication_error option" where
  "outcome n k v R = fst (Handler_OnWrite (\<lambda>p _. case map_of R p of None \<Rightarrow> RPCError | Some r \<Rightarrow> r) (NHandler n) k v)"

definition asked :: "nat Node \<Rightarrow> key \<Rightarrow> Value \<Rightarrow> nat RPC list" where
  "asked n k v = snd (Handler_OnWrite (\<lambda>_ _. RPCError) (NHandler n) k v)"

section \<open>Steps\<close>

inductive sstep :: "nat set \<Rightarrow> scluster \<Rightarrow> scluster \<Rightarrow> bool" for ids where
  strong_stamp:
    "i \<in> ids \<Longrightarrow> del \<longrightarrow> data = [] \<Longrightarrow>
     Clock_Send now (NClock (snodes s i)) = (Inr ts, clk) \<Longrightarrow>
     take_deps ((snodes s i)\<lparr>NClock := clk\<rparr>) = (deps, n) \<Longrightarrow>
     sstep ids s (sset i n
       (add_mset (SCall k \<lparr>Data = data, ValTS = ts, Deps = deps, Deleted = del\<rparr>) (sthreads s i)) s)"
| strong_call:
    "i \<in> ids \<Longrightarrow> sthreads s i = add_mset (SCall k v) T \<Longrightarrow>
     sstep ids s ((sset i (snodes s i) (add_mset (SWait k v []) T) s)
       \<lparr>requests := requests s + calls i k v (asked (snodes s i) k v)\<rparr>)"
| strong_clock:
    "i \<in> ids \<Longrightarrow> rc_peer c = i \<Longrightarrow> requests s = add_mset c M \<Longrightarrow> rreq_Timestamp (rc_req c) = Some pts \<Longrightarrow>
     Clock_Receive now (fromProtoTS pts) (NClock (snodes s i)) = (Inr ts, clk) \<Longrightarrow>
     sstep ids s ((sset i ((snodes s i)\<lparr>NClock := clk\<rparr>)
       (add_mset (SApply c (rreq_Key (rc_req c)) (replicated_value (fromProtoTS pts) (rc_req c)))
          (sthreads s i)) s)\<lparr>requests := M\<rparr>)"
| strong_refuse:
    "i \<in> ids \<Longrightarrow> rc_peer c = i \<Longrightarrow> requests s = add_mset c M \<Longrightarrow> rreq_Timestamp (rc_req c) = Some pts \<Longrightarrow>
     Clock_Receive now (fromProtoTS pts) (NClock (snodes s i)) = (Inl e, clk) \<Longrightarrow>
     sstep ids s (s\<lparr>requests := M, replies := add_mset (c, RPCError) (replies s)\<rparr>)"
| strong_apply:
    "i \<in> ids \<Longrightarrow> sthreads s i = add_mset (SApply c k v) T \<Longrightarrow>
     deliver_value k v (snodes s i) = (ok, n) \<Longrightarrow>
     sstep ids s ((sset i n T s)
       \<lparr>replies := add_mset (c, RPCReply (Some \<lparr>rresp_Success = ok\<rparr>)) (replies s)\<rparr>)"
| strong_reply:
    "i \<in> ids \<Longrightarrow> replies s = add_mset (c, r) M \<Longrightarrow> rc_origin c = i \<Longrightarrow>
     sthreads s i = add_mset (SWait (rc_key c) (rc_val c) R) T \<Longrightarrow> rc_peer c \<notin> fst ` set R \<Longrightarrow>
     sstep ids s ((sset i (snodes s i)
       (add_mset (SWait (rc_key c) (rc_val c) ((rc_peer c, r) # R)) T) s)\<lparr>replies := M\<rparr>)"
| strong_timeout:
    "i \<in> ids \<Longrightarrow> sthreads s i = add_mset (SWait k v R) T \<Longrightarrow> j \<notin> fst ` set R \<Longrightarrow>
     sstep ids s (sset i (snodes s i) (add_mset (SWait k v ((j, RPCError) # R)) T) s)"
| strong_accept:
    "i \<in> ids \<Longrightarrow> sthreads s i = add_mset (SWait k v R) T \<Longrightarrow>
     rpc_peer ` set (asked (snodes s i) k v) \<subseteq> fst ` set R \<Longrightarrow>
     outcome (snodes s i) k v R = None \<Longrightarrow>
     sstep ids s ((sset i ((snodes s i)\<lparr>NStore := local_write k v (NStore (snodes s i))\<rparr>) T s)
       \<lparr>acked := insert (i, k, v) (acked s),
        sstale := (sstale s \<or> overwrites_newer k v (NStore (snodes s i)))\<rparr>)"
| strong_reject:
    "i \<in> ids \<Longrightarrow> sthreads s i = add_mset (SWait k v R) T \<Longrightarrow>
     rpc_peer ` set (asked (snodes s i) k v) \<subseteq> fst ` set R \<Longrightarrow>
     outcome (snodes s i) k v R = Some e \<Longrightarrow>
     sstep ids s ((sset i (snodes s i) T s)\<lparr>failed := insert (i, k, v) (failed s)\<rparr>)"

text \<open>A configuration: finitely many nodes, each with all others as its peers.\<close>

definition strong_config :: "config \<Rightarrow> bool" where
  "strong_config c \<longleftrightarrow> cfg_mode c = ''strong'' \<and> finite (cfg_ids c) \<and>
     (\<forall>i \<in> cfg_ids c. set (cfg_peers c i) = cfg_ids c - {i} \<and> distinct (cfg_peers c i))"

definition sinitial :: "config \<Rightarrow> scluster \<Rightarrow> bool" where
  "sinitial c s \<longleftrightarrow>
     (\<forall>i. \<exists>now. start_node (cfg_mode c) (cfg_peers c i) (cfg_opts c i) now = Some (snodes s i)) \<and>
     sthreads s = (\<lambda>_. {#}) \<and> requests s = {#} \<and> replies s = {#} \<and> acked s = {} \<and> failed s = {} \<and>
     \<not> sstale s"

inductive sreachable :: "config \<Rightarrow> scluster \<Rightarrow> bool" for c where
  start: "sinitial c s \<Longrightarrow> sreachable c s"
| step: "sreachable c s \<Longrightarrow> sstep (cfg_ids c) s s' \<Longrightarrow> sreachable c s'"

section \<open>The configuration is fixed\<close>

lemma sset_sel [simp]:
  "snodes (sset i n T s) j = (if j = i then n else snodes s j)"
  "sthreads (sset i n T s) j = (if j = i then T else sthreads s j)"
  "requests (sset i n T s) = requests s" "replies (sset i n T s) = replies s"
  "acked (sset i n T s) = acked s" "failed (sset i n T s) = failed s" "sstale (sset i n T s) = sstale s"
  by (simp_all add: sset_def)

definition strong_node :: "config \<Rightarrow> nat \<Rightarrow> nat Node \<Rightarrow> bool" where
  "strong_node c i n \<longleftrightarrow> Mode n = ''strong'' \<and> NBuffer n = None \<and> Tracker n = None \<and>
     NewHandler ''strong'' (cfg_peers c i) (cfg_opts c i) = Some (NHandler n)"

lemma strong_node_frame [simp]:
  "strong_node c i (n\<lparr>NClock := clk\<rparr>) = strong_node c i n"
  "strong_node c i (n\<lparr>NStore := st\<rparr>) = strong_node c i n"
  by (simp_all add: strong_node_def)

lemma strong_node_take:
  "strong_node c i n \<Longrightarrow> take_deps (n\<lparr>NClock := clk\<rparr>) = ([], n\<lparr>NClock := clk\<rparr>)"
  by (simp add: strong_node_def take_deps_def)

lemma strong_node_deliver:
  assumes "strong_node c i n" and "deliver_value k v n = (ok, n')"
  shows "strong_node c i n'" "NStore n' = applyLocked k v (NStore n)"
  using assms by (auto simp: strong_node_def deliver_value_def apply_direct_store [symmetric] split: prod.splits)

lemma sreachable_node:
  assumes "sreachable c s" and c: "strong_config c"
  shows "strong_node c i (snodes s i)"
  using assms(1)
proof (induction arbitrary: i rule: sreachable.induct)
  case (start s)
  then have "\<exists>now. start_node ''strong'' (cfg_peers c i) (cfg_opts c i) now = Some (snodes s i)"
    using c by (simp add: sinitial_def strong_config_def)
  then show ?case by (auto simp: start_node_Some NewNode_def strong_node_def)
next
  case (step s s')
  from step.hyps(2) show ?case
    by (cases rule: sstep.cases)
      (use step.IH [of i] in \<open>auto simp: strong_node_take strong_node_deliver\<close>)
qed

section \<open>Who holds a write\<close>

definition holds :: "scluster \<Rightarrow> nat \<Rightarrow> key \<Rightarrow> Value \<Rightarrow> bool" where
  "holds s j k v \<longleftrightarrow> lww.at_least (NStore (snodes s j)) k (ValTS v)"

fun strong_thread :: "scluster \<Rightarrow> nat \<Rightarrow> sthread \<Rightarrow> bool" where
  "strong_thread s i (SCall k v) = True"
| "strong_thread s i (SWait k v R) = (\<forall>(j, r) \<in> set R. reply_ok r \<longrightarrow> holds s j k v)"
| "strong_thread s i (SApply c k v) = (i = rc_peer c \<and> k = rc_key c \<and> ValTS v = ValTS (rc_val c))"

definition strong_reply_ok :: "scluster \<Rightarrow> rcall \<times> rpc_reply \<Rightarrow> bool" where
  "strong_reply_ok s x \<longleftrightarrow> (reply_ok (snd x) \<longrightarrow> holds s (rc_peer (fst x)) (rc_key (fst x)) (rc_val (fst x)))"

definition strong_request :: "rcall \<Rightarrow> bool" where
  "strong_request c \<longleftrightarrow> rc_req c = buildReplicateRequest (rc_key c) (rc_val c) []"

definition on_majority :: "config \<Rightarrow> scluster \<Rightarrow> key \<Rightarrow> Value \<Rightarrow> bool" where
  "on_majority c s k v \<longleftrightarrow>
     (\<exists>A \<subseteq> cfg_ids c. quorum_size (int (card (cfg_ids c))) \<le> int (card A) \<and> (\<forall>j \<in> A. holds s j k v))"

definition quorum_inv :: "config \<Rightarrow> scluster \<Rightarrow> bool" where
  "quorum_inv c s \<longleftrightarrow> (\<forall>i. \<forall>t \<in># sthreads s i. strong_thread s i t) \<and>
     (\<forall>x \<in># requests s. strong_request x) \<and> (\<forall>x \<in># replies s. strong_reply_ok s x) \<and>
     (\<forall>(i, k, v) \<in> acked s. on_majority c s k v)"

text \<open>What is held stays held as long as versions only grow.\<close>

definition grows :: "scluster \<Rightarrow> scluster \<Rightarrow> bool" where
  "grows s s' \<longleftrightarrow> (\<forall>j. lww.dominated (NStore (snodes s j)) (NStore (snodes s' j)))"

lemma holds_grows: "grows s s' \<Longrightarrow> holds s j k v \<Longrightarrow> holds s' j k v"
  by (auto simp: grows_def holds_def dest: lww.dominatedD)

lemma thread_grows: "grows s s' \<Longrightarrow> strong_thread s i t \<Longrightarrow> strong_thread s' i t"
  by (cases t) (auto intro: holds_grows)

lemma reply_grows: "grows s s' \<Longrightarrow> strong_reply_ok s x \<Longrightarrow> strong_reply_ok s' x"
  by (auto simp: strong_reply_ok_def intro: holds_grows)

lemma majority_grows: "grows s s' \<Longrightarrow> on_majority c s k v \<Longrightarrow> on_majority c s' k v"
  unfolding on_majority_def by (meson holds_grows)

lemma sstep_grows:
  assumes "sstep (cfg_ids c) s s'" and "\<And>i. strong_node c i (snodes s i)" and "\<not> sstale s'"
  shows "grows s s'"
  using assms(1)
proof (cases rule: sstep.cases)
  case (strong_stamp i del data now ts clk deps n k)
  with strong_node_take [OF assms(2) [of i], of clk] show ?thesis
    by (auto simp: grows_def lww.dominated_refl)
next
  case (strong_apply i cl k v T ok n)
  with strong_node_deliver(2) [OF assms(2) [of i] strong_apply(4)] show ?thesis
    by (auto simp: grows_def lww.dominated_refl lww.dominated_apply)
next
  case (strong_accept i k v T R)
  then have "\<not> overwrites_newer k v (NStore (snodes s i))" using assms(3) by simp
  with strong_accept show ?thesis
    by (auto simp: grows_def lww.dominated_refl local_write_dominates)
qed (auto simp: grows_def lww.dominated_refl)

lemma counted_reply:
  "reply_ok (case map_of R p of None \<Rightarrow> RPCError | Some r \<Rightarrow> r) \<Longrightarrow> \<exists>r. (p, r) \<in> set R \<and> reply_ok r"
  by (cases "map_of R p") (auto simp: reply_ok_def dest: map_of_SomeD)

text \<open>An accepted write is held by its node and by every peer that answered with success.\<close>

lemma accept_majority:
  assumes c: "strong_config c" and i: "i \<in> cfg_ids c" and node: "strong_node c i n"
    and "outcome n k v R = None"
    and holds: "holds s i k v" "\<forall>(j, r) \<in> set R. reply_ok r \<longrightarrow> holds s j k v"
  shows "on_majority c s k v"
proof -
  let ?call = "\<lambda>p (_ :: ReplicateRequest). case map_of R p of None \<Rightarrow> RPCError | Some r \<Rightarrow> r"
  let ?A = "insert i (set (acks ?call (cfg_peers c i) (buildReplicateRequest k v [])))"
  have peers: "finite (cfg_ids c)" "set (cfg_peers c i) = cfg_ids c - {i}" "distinct (cfg_peers c i)"
    using c i by (auto simp: strong_config_def)
  have h: "NewHandler ''strong'' (cfg_peers c i) (cfg_opts c i) = Some (NHandler n)"
    using node by (simp add: strong_node_def)
  have "fst (Handler_OnWrite ?call (NHandler n) k v) = None" using assms(4) by (simp add: outcome_def)
  from strong_acceptors [OF peers(1) i peers(2,3) h this]
  have "quorum_size (int (card (cfg_ids c))) \<le> int (card ?A)" .
  moreover have "?A \<subseteq> cfg_ids c" by (rule acceptors(3) [OF peers(1) i peers(2,3)])
  moreover have "holds s j k v" if "j \<in> ?A" for j
    using that holds by (auto simp: acks_def dest!: counted_reply)
  ultimately show ?thesis unfolding on_majority_def by blast
qed

section \<open>The invariant of the acknowledged writes\<close>

lemma quorum_inv_update:
  assumes inv: "quorum_inv c s" and grows: "grows s s'"
    and "\<And>j t. t \<in># sthreads s' j \<Longrightarrow> t \<in># sthreads s j \<or> strong_thread s' j t"
    and "\<And>x. x \<in># requests s' \<Longrightarrow> x \<in># requests s \<or> strong_request x"
    and "\<And>x. x \<in># replies s' \<Longrightarrow> x \<in># replies s \<or> strong_reply_ok s' x"
    and "\<And>i k v. (i, k, v) \<in> acked s' \<Longrightarrow> (i, k, v) \<in> acked s \<or> on_majority c s' k v"
  shows "quorum_inv c s'"
proof -
  have "strong_thread s' j t" if "t \<in># sthreads s' j" for j t
    using assms(3) [OF that] inv thread_grows [OF grows] by (auto simp: quorum_inv_def)
  moreover have "strong_request x" if "x \<in># requests s'" for x
    using assms(4) [OF that] inv by (auto simp: quorum_inv_def)
  moreover have "strong_reply_ok s' x" if "x \<in># replies s'" for x
    using assms(5) [OF that] inv reply_grows [OF grows, of x] unfolding quorum_inv_def by blast
  moreover have "on_majority c s' k v" if "(i, k, v) \<in> acked s'" for i k v
    using assms(6) [OF that] inv majority_grows [OF grows] by (auto simp: quorum_inv_def)
  ultimately show ?thesis unfolding quorum_inv_def by blast
qed

lemma calls_requests:
  assumes "strong_node c i n" and "x \<in># calls i k v (asked n k v)"
  shows "strong_request x"
proof -
  have "asked n k v = map (send_to (cfg_opts c i) k (buildReplicateRequest k v [])) (cfg_peers c i)"
    unfolding asked_def by (rule strong_OnWrite_rpcs) (use assms(1) in \<open>simp add: strong_node_def\<close>)
  with assms(2) show ?thesis by (auto simp: calls_def strong_request_def send_to_def)
qed

lemma deliver_holds:
  assumes "strong_node c i (snodes s i)" and "deliver_value k v (snodes s i) = (ok, n)"
  shows "lww.at_least (NStore n) k (ValTS v)"
  using lww.apply_at_least [of k v "NStore (snodes s i)"] strong_node_deliver(2) [OF assms] by simp

lemma quorum_inv_step:
  assumes "sstep (cfg_ids c) s s'" and c: "strong_config c" and node: "\<And>i. strong_node c i (snodes s i)"
    and inv: "quorum_inv c s" and fresh: "\<not> sstale s'"
  shows "quorum_inv c s'"
proof -
  have grows: "grows s s'" by (rule sstep_grows [OF assms(1) node fresh])
  have loc: "strong_thread s i t" if "t \<in># sthreads s i" for i t
    using inv that by (simp add: quorum_inv_def)
  show ?thesis
    using assms(1)
  proof (cases rule: sstep.cases)
    case (strong_stamp i del data now ts clk deps n k)
    then show ?thesis by (intro quorum_inv_update [OF inv grows]) (auto split: if_splits)
  next
    case (strong_call i k v T)
    then show ?thesis
      by (intro quorum_inv_update [OF inv grows]) (auto split: if_splits intro: calls_requests [OF node])
  next
    case (strong_clock i cl M pts now ts clk)
    then have "strong_request cl" using inv by (simp add: quorum_inv_def)
    then have "rreq_Key (rc_req cl) = rc_key cl" "ValTS (replicated_value (fromProtoTS pts) (rc_req cl)) = ValTS (rc_val cl)"
      using strong_clock(5) by (auto simp: strong_request_def buildReplicateRequest_def replicated_value_def)
    with strong_clock show ?thesis
      by (intro quorum_inv_update [OF inv grows]) (auto split: if_splits)
  next
    case (strong_refuse i cl M pts now e clk)
    then show ?thesis
      by (intro quorum_inv_update [OF inv grows]) (auto simp: strong_reply_ok_def reply_ok_def)
  next
    case (strong_apply i cl k v T ok n)
    have "strong_thread s i (SApply cl k v)" by (rule loc) (simp add: strong_apply)
    then have "holds s' (rc_peer cl) (rc_key cl) (rc_val cl)"
      using strong_apply(1) deliver_holds [OF node strong_apply(4)] by (simp add: holds_def)
    with strong_apply show ?thesis
      by (intro quorum_inv_update [OF inv grows]) (auto simp: strong_reply_ok_def split: if_splits)
  next
    case (strong_reply i cl r M R T)
    have "strong_thread s i (SWait (rc_key cl) (rc_val cl) R)" by (rule loc) (simp add: strong_reply)
    moreover have "strong_reply_ok s (cl, r)" using inv strong_reply(3) by (simp add: quorum_inv_def)
    ultimately have "strong_thread s i (SWait (rc_key cl) (rc_val cl) ((rc_peer cl, r) # R))"
      by (auto simp: strong_reply_ok_def)
    from thread_grows [OF grows this] strong_reply show ?thesis
      by (intro quorum_inv_update [OF inv grows]) (auto split: if_splits simp del: strong_thread.simps)
  next
    case (strong_timeout i k v R T j)
    have "strong_thread s i (SWait k v R)" by (rule loc) (simp add: strong_timeout)
    then have "strong_thread s i (SWait k v ((j, RPCError) # R))" by (auto simp: reply_ok_def)
    from thread_grows [OF grows this] strong_timeout show ?thesis
      by (intro quorum_inv_update [OF inv grows]) (auto split: if_splits simp del: strong_thread.simps)
  next
    case (strong_accept i k v R T)
    have "strong_thread s i (SWait k v R)" by (rule loc) (simp add: strong_accept)
    from thread_grows [OF grows this] have replies: "\<forall>(j, r) \<in> set R. reply_ok r \<longrightarrow> holds s' j k v" by simp
    have "holds s' i k v" using strong_accept(1) by (simp add: holds_def local_write_at_least)
    from accept_majority [OF c strong_accept(2) node strong_accept(5) this replies] strong_accept
    show ?thesis by (intro quorum_inv_update [OF inv grows]) (auto split: if_splits)
  next
    case (strong_reject i k v R T e)
    then show ?thesis by (intro quorum_inv_update [OF inv grows]) (auto split: if_splits)
  qed
qed

lemma sstale_mono: "sstep ids s s' \<Longrightarrow> sstale s \<Longrightarrow> sstale s'"
  by (erule sstep.cases) auto

lemma sreachable_quorum:
  assumes "sreachable c s" and "strong_config c" and "\<not> sstale s"
  shows "quorum_inv c s"
  using assms(1,3)
proof (induction rule: sreachable.induct)
  case (start s)
  then show ?case by (simp add: quorum_inv_def sinitial_def)
next
  case (step s s')
  then show ?case
    using quorum_inv_step [OF step.hyps(2) assms(2) sreachable_node [OF step.hyps(1) assms(2)]] sstale_mono
    by blast
qed

section \<open>A scheduler\<close>

text \<open>An action names the next step; a waiting handler is named with the replies it has.\<close>

datatype saction =
    SABegin nat int64 key bytes bool
  | SAGo nat sthread
  | SADeliver nat int64 rcall
  | SAReply rcall rpc_reply "(nat \<times> rpc_reply) list"
  | SATimeout nat key Value "(nat \<times> rpc_reply) list" nat

fun sexec_go :: "nat \<Rightarrow> sthread \<Rightarrow> sthread multiset \<Rightarrow> scluster \<Rightarrow> scluster option" where
  "sexec_go i (SCall k v) T s =
     Some ((sset i (snodes s i) (add_mset (SWait k v []) T) s)
       \<lparr>requests := requests s + calls i k v (asked (snodes s i) k v)\<rparr>)"
| "sexec_go i (SWait k v R) T s =
     (if rpc_peer ` set (asked (snodes s i) k v) \<subseteq> fst ` set R then
        (case outcome (snodes s i) k v R of
           None \<Rightarrow> Some ((sset i ((snodes s i)\<lparr>NStore := local_write k v (NStore (snodes s i))\<rparr>) T s)
             \<lparr>acked := insert (i, k, v) (acked s),
              sstale := (sstale s \<or> overwrites_newer k v (NStore (snodes s i)))\<rparr>)
         | Some e \<Rightarrow> Some ((sset i (snodes s i) T s)\<lparr>failed := insert (i, k, v) (failed s)\<rparr>))
      else None)"
| "sexec_go i (SApply c k v) T s =
     (case deliver_value k v (snodes s i) of
        (ok, n) \<Rightarrow> Some ((sset i n T s)
          \<lparr>replies := add_mset (c, RPCReply (Some \<lparr>rresp_Success = ok\<rparr>)) (replies s)\<rparr>))"

fun sexec :: "nat set \<Rightarrow> saction \<Rightarrow> scluster \<Rightarrow> scluster option" where
  "sexec ids (SABegin i now k data del) s =
     (if i \<in> ids \<and> (del \<longrightarrow> data = []) then
        (case Clock_Send now (NClock (snodes s i)) of
           (Inr ts, clk) \<Rightarrow>
             (case take_deps ((snodes s i)\<lparr>NClock := clk\<rparr>) of
                (deps, n) \<Rightarrow> Some (sset i n (add_mset (SCall k \<lparr>Data = data, ValTS = ts, Deps = deps,
                   Deleted = del\<rparr>) (sthreads s i)) s))
         | (Inl _, _) \<Rightarrow> None)
      else None)"
| "sexec ids (SAGo i t) s =
     (if i \<in> ids \<and> t \<in># sthreads s i then sexec_go i t (sthreads s i - {#t#}) s else None)"
| "sexec ids (SADeliver i now c) s =
     (if i \<in> ids \<and> rc_peer c = i \<and> c \<in># requests s then
        (case rreq_Timestamp (rc_req c) of
           None \<Rightarrow> None
         | Some pts \<Rightarrow>
             (case Clock_Receive now (fromProtoTS pts) (NClock (snodes s i)) of
                (Inr ts, clk) \<Rightarrow> Some ((sset i ((snodes s i)\<lparr>NClock := clk\<rparr>)
                  (add_mset (SApply c (rreq_Key (rc_req c)) (replicated_value (fromProtoTS pts) (rc_req c)))
                     (sthreads s i)) s)\<lparr>requests := requests s - {#c#}\<rparr>)
              | (Inl e, clk) \<Rightarrow> Some (s\<lparr>requests := requests s - {#c#},
                  replies := add_mset (c, RPCError) (replies s)\<rparr>)))
      else None)"
| "sexec ids (SAReply c r R) s =
     (let i = rc_origin c; t = SWait (rc_key c) (rc_val c) R in
      if i \<in> ids \<and> (c, r) \<in># replies s \<and> t \<in># sthreads s i \<and> rc_peer c \<notin> fst ` set R then
        Some ((sset i (snodes s i) (add_mset (SWait (rc_key c) (rc_val c) ((rc_peer c, r) # R))
          (sthreads s i - {#t#})) s)\<lparr>replies := replies s - {#(c, r)#}\<rparr>)
      else None)"
| "sexec ids (SATimeout i k v R j) s =
     (if i \<in> ids \<and> SWait k v R \<in># sthreads s i \<and> j \<notin> fst ` set R then
        Some (sset i (snodes s i) (add_mset (SWait k v ((j, RPCError) # R))
          (sthreads s i - {#SWait k v R#})) s)
      else None)"

fun sexecs :: "nat set \<Rightarrow> saction list \<Rightarrow> scluster \<Rightarrow> scluster option" where
  "sexecs ids [] s = Some s"
| "sexecs ids (a # as) s = (case sexec ids a s of None \<Rightarrow> None | Some s' \<Rightarrow> sexecs ids as s')"

lemma sexec_go_step:
  assumes "i \<in> ids" and T: "sthreads s i = add_mset t T" and "sexec_go i t T s = Some s'"
  shows "sstep ids s s'"
proof (cases t)
  case (SCall k v)
  with assms show ?thesis by (auto intro: sstep.strong_call)
next
  case (SWait k v R)
  with assms show ?thesis
    by (auto split: option.splits if_splits intro: sstep.strong_accept sstep.strong_reject)
next
  case (SApply c k v)
  with assms show ?thesis by (auto split: prod.splits intro: sstep.strong_apply)
qed

lemma sexec_step:
  assumes "sexec ids a s = Some s'"
  shows "sstep ids s s'"
proof (cases a)
  case (SABegin i now k data del)
  with assms show ?thesis
    by (auto split: prod.splits sum.splits if_splits intro: sstep.strong_stamp)
next
  case (SAGo i t)
  with assms show ?thesis
    by (auto split: if_splits intro!: sexec_go_step [of i ids s t "sthreads s i - {#t#}"])
next
  case (SADeliver i now c)
  with assms show ?thesis
    by (auto split: prod.splits sum.splits if_splits option.splits
        intro!: sstep.strong_clock [of _ ids c s "requests s - {#c#}"] sstep.strong_refuse [of _ ids c s "requests s - {#c#}"])
next
  case (SAReply c r R)
  with assms show ?thesis
    by (auto simp: Let_def split: if_splits intro!: sstep.strong_reply [of _ ids s c r "replies s - {#(c, r)#}"])
next
  case (SATimeout i k v R j)
  with assms show ?thesis
    by (auto split: if_splits intro!: sstep.strong_timeout [of i ids s k v R _ j])
qed

lemma sexecs_reachable: "sreachable c s \<Longrightarrow> sexecs (cfg_ids c) as s = Some s' \<Longrightarrow> sreachable c s'"
proof (induction as arbitrary: s)
  case Nil
  then show ?case by simp
next
  case (Cons a as)
  from Cons.prems(2) obtain t where t: "sexec (cfg_ids c) a s = Some t" "sexecs (cfg_ids c) as t = Some s'"
    by (auto split: option.splits)
  from Cons.IH [OF sreachable.step [OF Cons.prems(1) sexec_step [OF t(1)]] t(2)] show ?case .
qed

section \<open>A cluster to run\<close>

definition ex_strong_node :: "nat \<Rightarrow> nat \<Rightarrow> nat Node" where
  "ex_strong_node sz i =
     \<lparr>Mode = ''strong'', NStore = Store_New, NClock = Clock_New 0, NBuffer = None,
      NHandler = StrongHandler (others sz i) (quorum_size (int (length (others sz i)) + 1)) ex_options,
      Tracker = None\<rparr>"

definition ex_scluster :: "nat \<Rightarrow> scluster" where
  "ex_scluster sz = \<lparr>snodes = ex_strong_node sz, sthreads = (\<lambda>_. {#}), requests = {#}, replies = {#},
     acked = {}, failed = {}, sstale = False\<rparr>"

lemma ex_strong_config: "strong_config (ex_config ''strong'' sz)"
  by (auto simp: strong_config_def ex_config_def others_def)

lemma ex_sinitial: "sinitial (ex_config ''strong'' sz) (ex_scluster sz)"
  by (auto simp: sinitial_def ex_config_def ex_scluster_def ex_strong_node_def start_node_def wire_node_def
      validModes_def NewHandler_def NewNode_def Let_def intro!: exI [of _ 0])

lemma ex_sreachable:
  assumes "sexecs {0..<sz} as (ex_scluster sz) = Some s"
  shows "sreachable (ex_config ''strong'' sz) s"
  using sexecs_reachable [OF sreachable.start [OF ex_sinitial]] assms by (simp add: ex_config_def)

definition ex_rcall :: "nat \<Rightarrow> key \<Rightarrow> Value \<Rightarrow> nat \<Rightarrow> rcall" where
  "ex_rcall i k v j = \<lparr>rc_origin = i, rc_key = k, rc_val = v, rc_peer = j,
     rc_req = buildReplicateRequest k v []\<rparr>"

definition ex_yes :: rpc_reply where
  "ex_yes = RPCReply (Some \<lparr>rresp_Success = True\<rparr>)"

text \<open>A \<open>Put\<close> up to its calls, and a call handled by its peer.\<close>

definition srun_put :: "nat \<Rightarrow> key \<Rightarrow> Value \<Rightarrow> saction list" where
  "srun_put i k v = [SABegin i (WallTime (ValTS v)) k (Data v) False, SAGo i (SCall k v)]"

definition srun_handle :: "nat \<Rightarrow> nat \<Rightarrow> int64 \<Rightarrow> key \<Rightarrow> Value \<Rightarrow> saction list" where
  "srun_handle i j now k v = [SADeliver j now (ex_rcall i k v j), SAGo j (SApply (ex_rcall i k v j) k v)]"

lemmas srun_eval = srun_put_def srun_handle_def ex_rcall_def ex_yes_def ex_scluster_def ex_strong_node_def
  calls_def asked_def outcome_def StrongHandler_OnWrite_def quorum_size_def reply_ok_def

section \<open>Properties\<close>

text \<open>
  C2: An acknowledged strong write is not lost: in every reachable state of a cluster in the strong
  mode in which no local write has overwritten a newer version, every majority of the nodes holds
  the write, or a newer version of its key, on one of its members. This survives any concurrency
  of handlers, lost and late replies, and the loss of any minority of the nodes.
\<close>

theorem acknowledged_write_on_quorum:
  assumes "sreachable c s" and "strong_config c" and "\<not> sstale s" and "(i, k, v) \<in> acked s"
    and Q: "Q \<subseteq> cfg_ids c" "quorum_size (int (card (cfg_ids c))) \<le> int (card Q)"
  shows "\<exists>j \<in> Q. \<exists>t. Store_GetVersion k (NStore (snodes s j)) = Some t \<and> ValTS v \<le> t"
proof -
  have "on_majority c s k v"
    using sreachable_quorum [OF assms(1-3)] assms(4) by (auto simp: quorum_inv_def)
  then obtain A where A: "A \<subseteq> cfg_ids c" "quorum_size (int (card (cfg_ids c))) \<le> int (card A)"
    "\<forall>j \<in> A. holds s j k v" by (auto simp: on_majority_def)
  have fin: "finite (cfg_ids c)" using assms(2) by (simp add: strong_config_def)
  then have "0 < card (cfg_ids c)" using Q card_mono [OF fin Q(1)] by (simp add: quorum_size_def)
  from maj.intersect [OF fin A(1) Q(1) this A(2) Q(2)] A(3) obtain j where "j \<in> Q" "holds s j k v" by blast
  then show ?thesis by (auto simp: holds_def lww.at_least_def GetVersion_version)
qed

lemma ex_acked:
  "\<exists>s. sreachable (ex_config ''strong'' 3) s \<and> \<not> sstale s \<and> (0, ''x'', ex_val 97 100) \<in> acked s"
proof -
  let ?v = "ex_val 97 100"
  have "\<exists>s. sexecs {0..<3} (srun_put 0 ''x'' ?v @ srun_handle 0 1 50 ''x'' ?v @
      [SAReply (ex_rcall 0 ''x'' ?v 1) ex_yes [], SATimeout 0 ''x'' ?v [(1, ex_yes)] 2,
       SAGo 0 (SWait ''x'' ?v [(2, RPCError), (1, ex_yes)])])
      (ex_scluster 3) = Some s \<and> \<not> sstale s \<and> (0, ''x'', ?v) \<in> acked s"
    by (simp add: srun_eval node_eval net_eval store_eval)
  then show ?thesis using ex_sreachable by blast
qed

theorem acknowledged_write_on_quorum_witness:
  "\<exists>s. sreachable (ex_config ''strong'' 3) s \<and>
     (\<exists>j \<in> {1, 2}. \<exists>t. Store_GetVersion ''x'' (NStore (snodes s j)) = Some t \<and> Timestamp 100 0 \<le> t)"
proof -
  obtain s where s: "sreachable (ex_config ''strong'' 3) s" "\<not> sstale s" "(0, ''x'', ex_val 97 100) \<in> acked s"
    using ex_acked by blast
  have "{1, 2} \<subseteq> cfg_ids (ex_config ''strong'' 3)"
    "quorum_size (int (card (cfg_ids (ex_config ''strong'' 3)))) \<le> int (card {1, 2 :: nat})"
    by (simp_all add: ex_config_def quorum_size_def)
  from acknowledged_write_on_quorum [OF s(1) ex_strong_config s(2,3) this] s(1)
  show ?thesis by (auto simp: ex_val_def)
qed

text \<open>
  C32: Without that condition the strong mode loses acknowledged writes: a \<open>Put\<close> that took its
  timestamp early writes its own store unconditionally once it has its quorum, over a newer
  acknowledged version that its node had accepted meanwhile. The newer write is then on one node of
  three only, and a quorum of the others shows the older one.
\<close>

theorem strong_write_rolled_back:
  "\<exists>s. sreachable (ex_config ''strong'' 3) s \<and> {(0, ''x'', ex_val 97 100), (1, ''x'', ex_val 98 200)} \<subseteq> acked s \<and>
     Store_Get ''x'' (NStore (snodes s 0)) = Some (ex_val 97 100) \<and>
     Store_Get ''x'' (NStore (snodes s 1)) = Some (ex_val 98 200) \<and>
     Store_Get ''x'' (NStore (snodes s 2)) = Some (ex_val 97 100)"
proof -
  let ?v = "ex_val 97 100" and ?w = "ex_val 98 200"
  have "\<exists>s. sexecs {0..<3} (srun_put 0 ''x'' ?v @ srun_handle 0 2 50 ''x'' ?v @
      srun_put 1 ''x'' ?w @ srun_handle 1 0 50 ''x'' ?w @
      [SAReply (ex_rcall 1 ''x'' ?w 0) ex_yes [], SATimeout 1 ''x'' ?w [(0, ex_yes)] 2,
       SAGo 1 (SWait ''x'' ?w [(2, RPCError), (0, ex_yes)]),
       SAReply (ex_rcall 0 ''x'' ?v 2) ex_yes [], SATimeout 0 ''x'' ?v [(2, ex_yes)] 1,
       SAGo 0 (SWait ''x'' ?v [(1, RPCError), (2, ex_yes)])])
      (ex_scluster 3) = Some s \<and> {(0, ''x'', ?v), (1, ''x'', ?w)} \<subseteq> acked s \<and>
     Store_Get ''x'' (NStore (snodes s 0)) = Some ?v \<and>
     Store_Get ''x'' (NStore (snodes s 1)) = Some ?w \<and>
     Store_Get ''x'' (NStore (snodes s 2)) = Some ?v"
    by (simp add: srun_eval node_eval net_eval store_eval)
  then show ?thesis using ex_sreachable by blast
qed

text \<open>
  C33: A strong write that failed may still be visible: its \<open>Put\<close> returned an error and its own node
  does not have it, but a peer that applied it, and whose reply was lost, shows it to its clients.
\<close>

theorem failed_write_visible:
  "\<exists>s. sreachable (ex_config ''strong'' 3) s \<and> failed s = {(0, ''x'', ex_val 97 100)} \<and> acked s = {} \<and>
     Store_Get ''x'' (NStore (snodes s 0)) = None \<and>
     Store_Get ''x'' (NStore (snodes s 1)) = Some (ex_val 97 100)"
proof -
  let ?v = "ex_val 97 100"
  have "\<exists>s. sexecs {0..<3} (srun_put 0 ''x'' ?v @ srun_handle 0 1 50 ''x'' ?v @
      [SATimeout 0 ''x'' ?v [] 1, SATimeout 0 ''x'' ?v [(1, RPCError)] 2,
       SAGo 0 (SWait ''x'' ?v [(2, RPCError), (1, RPCError)])])
      (ex_scluster 3) = Some s \<and> failed s = {(0, ''x'', ?v)} \<and> acked s = {} \<and>
     Store_Get ''x'' (NStore (snodes s 0)) = None \<and>
     Store_Get ''x'' (NStore (snodes s 1)) = Some ?v"
    by (simp add: srun_eval node_eval net_eval store_eval)
  then show ?thesis using ex_sreachable by blast
qed

end
