(* ===== verification/StrongSimulation.thy ===== *)
theory StrongSimulation
  imports StrongCluster
begin

text \<open>
  The handlers of a node in the strong mode as a whole, with the peers they call, and as steps of
  the strong cluster: a \<open>Put\<close> or \<open>Delete\<close> that runs without interruption, while each peer either
  handles its call at once or cannot be reached, is a sequence of steps with the same effect on all
  nodes.
\<close>

abbreviation ssteps :: "config \<Rightarrow> scluster \<Rightarrow> scluster \<Rightarrow> bool" where
  "ssteps c \<equiv> (sstep (cfg_ids c))\<^sup>*\<^sup>*"

section \<open>Peers that answer at once\<close>

text \<open>
  \<open>at j\<close> is the reading of the clock at which peer \<open>j\<close> handles a call, or \<^const>\<open>None\<close> where it cannot be
  reached.
\<close>

definition peer_reply ::
  "(nat \<Rightarrow> int64 option) \<Rightarrow> (nat \<Rightarrow> nat Node) \<Rightarrow> nat \<Rightarrow> ReplicateRequest \<Rightarrow> rpc_reply \<times> nat Node" where
  "peer_reply at ns j req =
     (case at j of
        None \<Rightarrow> (RPCError, ns j)
      | Some now \<Rightarrow>
          (case Node_Replicate now req (ns j) of
             (Inl e, n) \<Rightarrow> (RPCError, n)
           | (Inr resp, n) \<Rightarrow> (RPCReply (Some resp), n)))"

definition after_rpc :: "(nat \<Rightarrow> int64 option) \<Rightarrow> nat RPC \<Rightarrow> (nat \<Rightarrow> nat Node) \<Rightarrow> nat \<Rightarrow> nat Node" where
  "after_rpc at r ns = ns(rpc_peer r := snd (peer_reply at ns (rpc_peer r) (rpc_request r)))"

definition after_rpcs :: "(nat \<Rightarrow> int64 option) \<Rightarrow> nat RPC list \<Rightarrow> (nat \<Rightarrow> nat Node) \<Rightarrow> nat \<Rightarrow> nat Node" where
  "after_rpcs at rpcs ns = fold (after_rpc at) rpcs ns"

lemma peer_reply_cong: "ns j = ms j \<Longrightarrow> peer_reply at ns j req = peer_reply at ms j req"
  by (simp add: peer_reply_def split: option.split)

lemma after_rpcs_other: "i \<notin> rpc_peer ` set rpcs \<Longrightarrow> after_rpcs at rpcs ns i = ns i"
  by (induction rpcs arbitrary: ns) (auto simp: after_rpcs_def after_rpc_def)

lemma after_rpc_upd:
  assumes "i \<noteq> rpc_peer r"
  shows "after_rpc at r (ns(i := n)) = (after_rpc at r ns)(i := n)"
proof -
  have "peer_reply at (ns(i := n)) (rpc_peer r) (rpc_request r) = peer_reply at ns (rpc_peer r) (rpc_request r)"
    using assms by (intro peer_reply_cong) simp
  with assms show ?thesis by (simp add: after_rpc_def fun_upd_twist)
qed

lemma after_rpcs_upd:
  "i \<notin> rpc_peer ` set rpcs \<Longrightarrow> after_rpcs at rpcs (ns(i := n)) = (after_rpcs at rpcs ns)(i := n)"
  by (induction rpcs arbitrary: ns) (simp_all add: after_rpcs_def after_rpc_upd)

section \<open>One call\<close>

text \<open>Two states that agree on everything but one handler, the nodes and the requests left behind.\<close>

definition call_done :: "scluster \<Rightarrow> scluster \<Rightarrow> nat \<Rightarrow> sthread \<Rightarrow> sthread multiset \<Rightarrow> (nat \<Rightarrow> nat Node) \<Rightarrow>
  rcall multiset \<Rightarrow> bool" where
  "call_done s s' i t T ns M \<longleftrightarrow> snodes s' = ns \<and> sthreads s' = (sthreads s)(i := add_mset t T) \<and>
     M \<subseteq># requests s' \<and> replies s' = replies s \<and> acked s' = acked s \<and> failed s' = failed s \<and> sstale s' = sstale s"

lemma call_runs:
  assumes i: "i \<in> cfg_ids c" and j: "rpc_peer r \<in> cfg_ids c" "rpc_peer r \<noteq> i"
    and T: "sthreads s i = add_mset (SWait k v R) T" and fresh: "rpc_peer r \<notin> fst ` set R"
    and req: "requests s = calls i k v [r] + M" "rreq_Timestamp (rpc_request r) = Some pts"
    and out: "peer_reply at (snodes s) (rpc_peer r) (rpc_request r) = (reply, n)"
  shows "\<exists>s'. ssteps c s s' \<and>
    call_done s s' i (SWait k v ((rpc_peer r, reply) # R)) T ((snodes s)(rpc_peer r := n)) M"
proof -
  let ?j = "rpc_peer r"
  let ?c = "\<lparr>rc_origin = i, rc_key = k, rc_val = v, rc_peer = ?j, rc_req = rpc_request r\<rparr>"
  have M: "requests s = add_mset ?c M" using req(1) by (simp add: calls_def)
  show ?thesis
  proof (cases "at ?j")
    case None
    let ?s = "sset i (snodes s i) (add_mset (SWait k v ((?j, RPCError) # R)) T) s"
    have "sstep (cfg_ids c) s ?s" by (rule sstep.strong_timeout [OF i T fresh])
    moreover have "call_done s ?s i (SWait k v ((?j, reply) # R)) T ((snodes s)(?j := n)) M"
      using None out M by (auto simp: call_done_def sset_def peer_reply_def)
    ultimately show ?thesis by blast
  next
    case (Some now)
    obtain x clk where recv: "Clock_Receive now (fromProtoTS pts) (NClock (snodes s ?j)) = (x, clk)"
      by (rule prod.exhaust)
    have answered: "\<exists>s'. ssteps c s s' \<and>
        call_done s s' i (SWait k v ((?j, reply) # R)) T ((snodes s)(?j := n)) M"
      if "ssteps c s s2" "snodes s2 = (snodes s)(?j := n)" "sthreads s2 = sthreads s" "requests s2 = M"
        "replies s2 = add_mset (?c, reply) (replies s)" "acked s2 = acked s" "failed s2 = failed s"
        "sstale s2 = sstale s" for s2
    proof -
      let ?s3 = "(sset i (snodes s2 i) (add_mset (SWait k v ((?j, reply) # R)) T) s2)\<lparr>replies := replies s\<rparr>"
      have "sstep (cfg_ids c) s2 ?s3"
        using sstep.strong_reply [OF i that(5), of R T] T fresh that(3) by simp
      with that(1) have "ssteps c s ?s3" by (rule rtranclp.rtrancl_into_rtrancl)
      moreover have "call_done s ?s3 i (SWait k v ((?j, reply) # R)) T ((snodes s)(?j := n)) M"
        using that j(2) by (auto simp: call_done_def sset_def fun_eq_iff)
      ultimately show ?thesis by blast
    qed
    show ?thesis
    proof (cases x)
      case (Inl e)
      let ?s2 = "s\<lparr>requests := M, replies := add_mset (?c, RPCError) (replies s)\<rparr>"
      have "sstep (cfg_ids c) s ?s2"
        using sstep.strong_refuse [OF j(1) _ M, of pts now e clk] recv Inl req(2) by simp
      moreover have "reply = RPCError" "n = snodes s ?j"
        using out Some recv Inl req(2) Clock_Receive_error by (auto simp: peer_reply_def Node_Replicate_def)
      ultimately show ?thesis by (intro answered [of ?s2]) auto
    next
      case (Inr ts)
      let ?v = "replicated_value (fromProtoTS pts) (rpc_request r)" and ?k = "rreq_Key (rpc_request r)"
      let ?m = "(snodes s ?j)\<lparr>NClock := clk\<rparr>"
      obtain ok n' where del: "deliver_value ?k ?v ?m = (ok, n')" by (rule prod.exhaust)
      let ?s1 = "(sset ?j ?m (add_mset (SApply ?c ?k ?v) (sthreads s ?j)) s)\<lparr>requests := M\<rparr>"
      let ?s2 = "(sset ?j n' (sthreads s ?j) ?s1)
        \<lparr>replies := add_mset (?c, RPCReply (Some \<lparr>rresp_Success = ok\<rparr>)) (replies s)\<rparr>"
      have "sstep (cfg_ids c) s ?s1"
        using sstep.strong_clock [OF j(1) _ M, of pts now ts clk] recv Inr req(2) by simp
      moreover have "sstep (cfg_ids c) ?s1 ?s2"
        using sstep.strong_apply [OF j(1), of ?s1 ?c ?k ?v "sthreads s ?j" ok n'] del by simp
      ultimately have "ssteps c s ?s2" by (rule rtranclp.rtrancl_into_rtrancl [OF r_into_rtranclp])
      moreover have "reply = RPCReply (Some \<lparr>rresp_Success = ok\<rparr>)" "n = n'"
        using out Some recv Inr req(2) del by (auto simp: peer_reply_def Node_Replicate_def Let_def)
      ultimately show ?thesis by (intro answered [of ?s2]) (auto simp: sset_def fun_eq_iff)
    qed
  qed
qed

section \<open>All calls of a write\<close>

definition replies_of :: "(nat \<Rightarrow> int64 option) \<Rightarrow> (nat \<Rightarrow> nat Node) \<Rightarrow> nat RPC list \<Rightarrow> (nat \<times> rpc_reply) list" where
  "replies_of at ns rpcs = map (\<lambda>r. (rpc_peer r, fst (peer_reply at ns (rpc_peer r) (rpc_request r)))) rpcs"

lemma replies_of_cong:
  "(\<And>j. j \<in> rpc_peer ` set rpcs \<Longrightarrow> ns j = ms j) \<Longrightarrow> replies_of at ns rpcs = replies_of at ms rpcs"
  by (auto simp: replies_of_def intro!: arg_cong [where f = fst] peer_reply_cong)

lemma calls_Cons: "calls i k v (r # rpcs) = calls i k v [r] + calls i k v rpcs"
  by (simp add: calls_def)

lemma calls_run:
  assumes "i \<in> cfg_ids c" and "rpc_peer ` set rpcs \<subseteq> cfg_ids c - {i}" and "distinct (map rpc_peer rpcs)"
    and "\<forall>r \<in> set rpcs. rreq_Timestamp (rpc_request r) \<noteq> None"
    and "sthreads s i = add_mset (SWait k v R) T" and "fst ` set R \<inter> rpc_peer ` set rpcs = {}"
    and "requests s = calls i k v rpcs + M"
  shows "\<exists>s'. ssteps c s s' \<and> call_done s s' i (SWait k v (rev (replies_of at (snodes s) rpcs) @ R)) T
    (after_rpcs at rpcs (snodes s)) M"
  using assms
proof (induction rpcs arbitrary: s R M)
  case Nil
  then show ?case
    by (intro exI [of _ s]) (auto simp: call_done_def replies_of_def after_rpcs_def calls_def fun_eq_iff)
next
  case (Cons r rpcs)
  obtain pts where pts: "rreq_Timestamp (rpc_request r) = Some pts" using Cons.prems(4) by auto
  obtain reply n where out: "peer_reply at (snodes s) (rpc_peer r) (rpc_request r) = (reply, n)"
    by (rule prod.exhaust)
  have peer: "rpc_peer r \<in> cfg_ids c" "rpc_peer r \<noteq> i" "rpc_peer r \<notin> fst ` set R" using Cons.prems(2,6) by auto
  have req: "requests s = calls i k v [r] + (calls i k v rpcs + M)"
    using Cons.prems(7) calls_Cons [of i k v r rpcs] by simp
  obtain s1 where s1: "ssteps c s s1" "call_done s s1 i (SWait k v ((rpc_peer r, reply) # R)) T
      ((snodes s)(rpc_peer r := n)) (calls i k v rpcs + M)"
    using call_runs [OF Cons.prems(1) peer(1,2) Cons.prems(5) peer(3) req pts out] by blast
  then obtain M1 where M1: "requests s1 = calls i k v rpcs + (M + M1)"
    by (auto simp: call_done_def mset_subset_eq_exists_conv ac_simps)
  have "snodes s1 j = snodes s j" if "j \<in> rpc_peer ` set rpcs" for j
  proof -
    have "rpc_peer r \<notin> rpc_peer ` set rpcs" using Cons.prems(3) by simp
    with that have "j \<noteq> rpc_peer r" by blast
    with s1(2) show ?thesis by (simp add: call_done_def)
  qed
  then have "replies_of at (snodes s1) rpcs = replies_of at (snodes s) rpcs" by (rule replies_of_cong)
  moreover have "sthreads s1 i = add_mset (SWait k v ((rpc_peer r, reply) # R)) T"
    using s1(2) by (simp add: call_done_def)
  moreover have "snodes s1 = after_rpc at r (snodes s)"
    using s1(2) out by (simp add: call_done_def after_rpc_def)
  ultimately obtain s2 where s2: "ssteps c s1 s2" "call_done s1 s2 i
      (SWait k v (rev (replies_of at (snodes s) rpcs) @ (rpc_peer r, reply) # R)) T
      (after_rpcs at (r # rpcs) (snodes s)) (M + M1)"
    using Cons.IH [of s1 "(rpc_peer r, reply) # R" "M + M1"] Cons.prems M1 by (force simp: after_rpcs_def)
  have "ssteps c s s2" using s1(1) s2(1) by (rule rtranclp_trans)
  moreover have "call_done s s2 i (SWait k v (rev (replies_of at (snodes s) (r # rpcs)) @ R)) T
      (after_rpcs at (r # rpcs) (snodes s)) M"
    using s1(2) s2(2) out subset_mset.order_trans [OF mset_subset_eq_add_left [of M M1]]
    by (simp add: call_done_def replies_of_def)
  ultimately show ?case by blast
qed

section \<open>A whole write\<close>

lemma same_error: "(x = None \<longleftrightarrow> y = None) \<Longrightarrow> x = (y :: replication_error option)"
  by (metis option.exhaust replication_error.exhaust)

text \<open>What the handler decides depends only on the replies of its peers.\<close>

lemma strong_decision:
  assumes h: "NewHandler ''strong'' peers opts = Some (NHandler n)" and "distinct peers"
    and "\<And>p. p \<in> set peers \<Longrightarrow> map_of R p = Some (call p (buildReplicateRequest k v []))"
  shows "outcome n k v R = fst (Handler_OnWrite call (NHandler n) k v)"
    and "asked n k v = snd (Handler_OnWrite call (NHandler n) k v)"
proof -
  let ?req = "buildReplicateRequest k v []"
  have "acks (\<lambda>p _. case map_of R p of None \<Rightarrow> RPCError | Some r \<Rightarrow> r) peers ?req = acks call peers ?req"
    using assms(3) by (auto simp: acks_def intro!: filter_cong)
  then have "outcome n k v R = None \<longleftrightarrow> fst (Handler_OnWrite call (NHandler n) k v) = None"
    unfolding outcome_def strong_OnWrite_iff [OF h] by simp
  then show "outcome n k v R = fst (Handler_OnWrite call (NHandler n) k v)"
    by (rule same_error)
  show "asked n k v = snd (Handler_OnWrite call (NHandler n) k v)"
    by (simp add: asked_def strong_OnWrite_rpcs [OF h])
qed

lemma decision_step:
  assumes "i \<in> ids" and "sthreads s i = add_mset (SWait k v R) T"
    and "rpc_peer ` set (asked (snodes s i) k v) \<subseteq> fst ` set R"
  shows "\<exists>s'. sstep ids s s' \<and> snodes s' = (snodes s)(i := if outcome (snodes s i) k v R = None
        then (snodes s i)\<lparr>NStore := local_write k v (NStore (snodes s i))\<rparr> else snodes s i) \<and>
    sthreads s' = (sthreads s)(i := T) \<and> requests s' = requests s \<and> replies s' = replies s \<and>
    (if outcome (snodes s i) k v R = None then acked s' = insert (i, k, v) (acked s) \<and> failed s' = failed s
     else failed s' = insert (i, k, v) (failed s) \<and> acked s' = acked s)"
proof (cases "outcome (snodes s i) k v R")
  case None
  from sstep.strong_accept [OF assms None] None show ?thesis by (fastforce simp: sset_def)
next
  case (Some e)
  from sstep.strong_reject [OF assms Some] Some show ?thesis by (fastforce simp: sset_def)
qed

text \<open>
  A write from its timestamp to its outcome, with the calls between; \<open>upd\<close> is the local write.
\<close>

lemma strong_write_steps:
  assumes c: "strong_config c" and nodes: "\<And>j. strong_node c j (snodes s j)" and i: "i \<in> cfg_ids c"
    and del: "del \<longrightarrow> data = []"
    and send: "Clock_Send now (NClock (snodes s i)) = (Inr ts, clk)"
    and take: "take_deps ((snodes s i)\<lparr>NClock := clk\<rparr>) = (deps, n1)"
    and v: "v = \<lparr>Data = data, ValTS = ts, Deps = deps, Deleted = del\<rparr>"
    and out: "write_through (\<lambda>j req. fst (peer_reply at (snodes s) j req)) k v (local_write k v) n1 = (e, n', rpcs)"
  shows "\<exists>s'. ssteps c s s' \<and> snodes s' = (after_rpcs at rpcs (snodes s))(i := n') \<and> sthreads s' = sthreads s \<and>
    requests s \<subseteq># requests s' \<and> replies s' = replies s \<and>
    (if e = None then acked s' = insert (i, k, v) (acked s) \<and> failed s' = failed s
     else failed s' = insert (i, k, v) (failed s) \<and> acked s' = acked s)"
proof -
  let ?call = "\<lambda>j req. fst (peer_reply at (snodes s) j req)" and ?req = "buildReplicateRequest k v []"
  have n1: "n1 = (snodes s i)\<lparr>NClock := clk\<rparr>" using strong_node_take [OF nodes [of i], of clk] take by simp
  have node: "strong_node c i n1" using nodes [of i] by (simp add: n1)
  then have h: "NewHandler ''strong'' (cfg_peers c i) (cfg_opts c i) = Some (NHandler n1)"
    and mode: "Mode n1 = ''strong''" by (simp_all add: strong_node_def)
  have peers: "set (cfg_peers c i) = cfg_ids c - {i}" "distinct (cfg_peers c i)"
    using c i by (auto simp: strong_config_def)
  define sent where "sent = map (send_to (cfg_opts c i) k ?req) (cfg_peers c i)"
  have asked: "asked n1 k v = sent" by (simp add: asked_def strong_OnWrite_rpcs [OF h] sent_def)
  have sent: "rpc_peer ` set sent = cfg_ids c - {i}" "distinct (map rpc_peer sent)"
    "\<forall>r \<in> set sent. rreq_Timestamp (rpc_request r) \<noteq> None"
    using peers by (simp_all add: sent_def send_to_def comp_def image_image buildReplicateRequest_def)
  let ?s1 = "sset i n1 (add_mset (SCall k v) (sthreads s i)) s"
  let ?s2 = "(sset i n1 (add_mset (SWait k v []) (sthreads s i)) ?s1)\<lparr>requests := requests s + calls i k v sent\<rparr>"
  have "sstep (cfg_ids c) s ?s1" unfolding v using i del send take by (rule sstep.strong_stamp)
  moreover have "sstep (cfg_ids c) ?s1 ?s2"
    using sstep.strong_call [OF i, of ?s1 k v "sthreads s i"] asked by simp
  ultimately have s2: "ssteps c s ?s2" by (rule rtranclp.rtrancl_into_rtrancl [OF r_into_rtranclp])
  define R where "R = rev (replies_of at (snodes ?s2) sent)"
  obtain s3 where s3: "ssteps c ?s2 s3"
    "call_done ?s2 s3 i (SWait k v R) (sthreads s i) (after_rpcs at sent (snodes ?s2)) (requests s)"
    using calls_run [OF i _ sent(2,3), of ?s2 k v "[]" "sthreads s i" "requests s" at] sent(1)
    by (force simp: R_def add.commute)
  have own: "snodes s3 i = n1"
    using s3(2) sent(1) after_rpcs_other [of i sent at "snodes ?s2"] by (simp add: call_done_def)
  have replies: "map_of R p = Some (?call p ?req)" if "p \<in> set (cfg_peers c i)" for p
  proof -
    have "map fst R = rev (map rpc_peer sent)" by (simp add: R_def replies_of_def rev_map comp_def)
    then have "distinct (map fst R)" using sent(2) by simp
    moreover have "(p, ?call p ?req) \<in> set R"
    proof -
      have "send_to (cfg_opts c i) k ?req p \<in> set sent" using that by (simp add: sent_def)
      moreover have "peer_reply at (snodes ?s2) p ?req = peer_reply at (snodes s) p ?req"
        using that peers(1) by (intro peer_reply_cong) auto
      ultimately show ?thesis by (force simp: R_def replies_of_def send_to_def)
    qed
    ultimately show ?thesis by simp
  qed
  have "outcome n1 k v R = fst (Handler_OnWrite ?call (NHandler n1) k v)"
    "sent = snd (Handler_OnWrite ?call (NHandler n1) k v)"
    using strong_decision [OF h peers(2), of R ?call k v] replies asked by simp_all
  then have decided: "Handler_OnWrite ?call (NHandler n1) k v = (outcome n1 k v R, sent)" by simp
  have covered: "rpc_peer ` set (asked (snodes s3 i) k v) \<subseteq> fst ` set R"
    by (simp add: own asked R_def replies_of_def image_image)
  have T: "sthreads s3 i = add_mset (SWait k v R) (sthreads s i)" using s3(2) by (simp add: call_done_def)
  have rpcs: "rpcs = sent" and e: "e = outcome n1 k v R"
    and n': "n' = (if e = None then n1\<lparr>NStore := local_write k v (NStore n1)\<rparr> else n1)"
    using out mode decided by (auto simp: write_through_def split: option.splits)
  have frame: "after_rpcs at sent (snodes ?s2) = (after_rpcs at sent (snodes s))(i := n1)"
    using sent(1) by (simp add: sset_def after_rpcs_upd)
  have rest: "snodes s3 = (after_rpcs at sent (snodes s))(i := n1)"
    "sthreads s3 = (sthreads s)(i := add_mset (SWait k v R) (sthreads s i))" "requests s \<subseteq># requests s3"
    "replies s3 = replies s" "acked s3 = acked s" "failed s3 = failed s"
    using s3(2) frame by (auto simp: call_done_def sset_def fun_eq_iff)
  from decision_step [OF i T covered] obtain s4 where s4: "sstep (cfg_ids c) s3 s4"
    "snodes s4 = (snodes s3)(i := n')" "sthreads s4 = (sthreads s3)(i := sthreads s i)"
    "requests s4 = requests s3" "replies s4 = replies s3"
    "if e = None then acked s4 = insert (i, k, v) (acked s3) \<and> failed s4 = failed s3
     else failed s4 = insert (i, k, v) (failed s3) \<and> acked s4 = acked s3"
    unfolding own n' e by blast
  have "ssteps c s s4" using s2 s3(1) s4(1) by (meson rtranclp_trans rtranclp.rtrancl_into_rtrancl)
  with s4 rest rpcs show ?thesis by auto
qed

text \<open>What the history variables record of a write that has returned \<open>r\<close>.\<close>

definition recorded :: "nat \<Rightarrow> key \<Rightarrow> bytes \<Rightarrow> bool \<Rightarrow> scluster \<Rightarrow> scluster \<Rightarrow> node_error + 'r \<Rightarrow> bool" where
  "recorded i k data del s s' r \<longleftrightarrow>
     (case r of
        Inl (ErrHLC e) \<Rightarrow> s' = s
      | Inl (ErrReplication e) \<Rightarrow> \<exists>v. Data v = data \<and> Deleted v = del \<and>
          failed s' = insert (i, k, v) (failed s) \<and> acked s' = acked s
      | Inr resp \<Rightarrow> \<exists>v. Data v = data \<and> Deleted v = del \<and>
          acked s' = insert (i, k, v) (acked s) \<and> failed s' = failed s)"

lemma strong_client_write:
  assumes "strong_config c" and "\<And>j. strong_node c j (snodes s j)" and "i \<in> cfg_ids c" and "del \<longrightarrow> data = []"
    and "Clock_Send now (NClock (snodes s i)) = (Inr ts, clk)"
    and "take_deps ((snodes s i)\<lparr>NClock := clk\<rparr>) = (deps, n1)"
    and v: "v = \<lparr>Data = data, ValTS = ts, Deps = deps, Deleted = del\<rparr>"
    and "write_through (\<lambda>j req. fst (peer_reply at (snodes s) j req)) k v (local_write k v) n1 = (e, n', rpcs)"
  shows "\<exists>s'. ssteps c s s' \<and> snodes s' = (after_rpcs at rpcs (snodes s))(i := n') \<and> sthreads s' = sthreads s \<and>
    replies s' = replies s \<and>
    recorded i k data del s s' (case e of None \<Rightarrow> Inr resp | Some x \<Rightarrow> Inl (ErrReplication x))"
proof -
  from strong_write_steps [OF assms] obtain s' where s': "ssteps c s s'"
    "snodes s' = (after_rpcs at rpcs (snodes s))(i := n')" "sthreads s' = sthreads s" "replies s' = replies s"
    "if e = None then acked s' = insert (i, k, v) (acked s) \<and> failed s' = failed s
     else failed s' = insert (i, k, v) (failed s) \<and> acked s' = acked s" by blast
  have "recorded i k data del s s' (case e of None \<Rightarrow> Inr resp | Some x \<Rightarrow> Inl (ErrReplication x))"
  proof -
    have "Data v = data" "Deleted v = del" by (simp_all add: v)
    with s'(5) show ?thesis by (cases e) (auto simp: recorded_def intro!: exI [of _ v])
  qed
  with s'(1-4) show ?thesis by blast
qed

lemma no_write:
  assumes "Clock_Send now (NClock (snodes s i)) = (Inl e, clk)"
  shows "(after_rpcs at [] (snodes s))(i := (snodes s i)\<lparr>NClock := clk\<rparr>) = snodes s"
proof -
  have "clk = NClock (snodes s i)" using Clock_Send_error [OF assms] by simp
  then show ?thesis by (simp add: after_rpcs_def)
qed

section \<open>Properties\<close>

text \<open>
  C11: A \<open>Put\<close> or a \<open>Delete\<close> of a strong node that runs without interruption, while every peer either
  handles its call at once or cannot be reached, is a sequence of steps of the strong cluster: the
  same node afterwards, its peers as their \<open>Replicate\<close> handlers leave them, no handler and no reply
  left over; and the cluster records it as acknowledged or as failed as the response says.
\<close>

theorem strong_writes_run_as_steps:
  assumes "sreachable c s" and config: "strong_config c" and i: "i \<in> cfg_ids c"
  shows "(case Node_Put now (\<lambda>j r. fst (peer_reply at (snodes s) j r)) req (snodes s i) of (r, n', rpcs) \<Rightarrow>
      \<exists>s'. ssteps c s s' \<and> snodes s' = (after_rpcs at rpcs (snodes s))(i := n') \<and> sthreads s' = sthreads s \<and>
        replies s' = replies s \<and> recorded i (put_Key req) (put_Value req) False s s' r) \<and>
    (case Node_Delete now (\<lambda>j r. fst (peer_reply at (snodes s) j r)) dreq (snodes s i) of (r, n', rpcs) \<Rightarrow>
      \<exists>s'. ssteps c s s' \<and> snodes s' = (after_rpcs at rpcs (snodes s))(i := n') \<and> sthreads s' = sthreads s \<and>
        replies s' = replies s \<and> recorded i (del_Key dreq) [] True s s' r)"
proof -
  have nodes: "strong_node c j (snodes s j)" for j by (rule sreachable_node [OF assms(1) config])
  obtain x clk where send: "Clock_Send now (NClock (snodes s i)) = (x, clk)" by (rule prod.exhaust)
  show ?thesis
  proof (cases x)
    case (Inl e)
    with send no_write [of now s i e clk at] show ?thesis
      by (auto simp: Node_Put_def Node_Delete_def recorded_def intro!: exI [of _ s])
  next
    case (Inr ts)
    obtain deps n1 where take: "take_deps ((snodes s i)\<lparr>NClock := clk\<rparr>) = (deps, n1)" by (rule prod.exhaust)
    let ?call = "\<lambda>j r. fst (peer_reply at (snodes s) j r)"
    let ?v = "\<lparr>Data = put_Value req, ValTS = ts, Deps = deps, Deleted = False\<rparr>"
    let ?d = "\<lparr>Data = [], ValTS = ts, Deps = deps, Deleted = True\<rparr>"
    obtain e n' rpcs where put: "write_through ?call (put_Key req) ?v (local_write (put_Key req) ?v) n1 = (e, n', rpcs)"
      by (rule prod_cases3)
    obtain e2 n2 rpcs2 where del: "write_through ?call (del_Key dreq) ?d (local_write (del_Key dreq) ?d) n1 =
        (e2, n2, rpcs2)" by (rule prod_cases3)
    have "local_write (put_Key req) ?v = Store_Put (put_Key req) ?v"
      "local_write (del_Key dreq) ?d = Store_Delete (del_Key dreq) ts" by (simp_all add: local_write_def fun_eq_iff)
    then have puts: "Node_Put now ?call req (snodes s i) =
        (case e of None \<Rightarrow> Inr \<lparr>putr_Timestamp = Some (toProtoTS ts)\<rparr> | Some x \<Rightarrow> Inl (ErrReplication x), n', rpcs)"
      and dels: "Node_Delete now ?call dreq (snodes s i) =
        (case e2 of None \<Rightarrow> Inr \<lparr>delr_Timestamp = Some (toProtoTS ts)\<rparr> | Some x \<Rightarrow> Inl (ErrReplication x), n2, rpcs2)"
      using send Inr take put del by (auto simp: Node_Put_def Node_Delete_def Let_def split: option.split)
    note send' = send [unfolded Inr]
    have "\<exists>s'. ssteps c s s' \<and> snodes s' = (after_rpcs at rpcs (snodes s))(i := n') \<and> sthreads s' = sthreads s \<and>
        replies s' = replies s \<and> recorded i (put_Key req) (put_Value req) False s s'
          (case e of None \<Rightarrow> Inr \<lparr>putr_Timestamp = Some (toProtoTS ts)\<rparr> | Some x \<Rightarrow> Inl (ErrReplication x))"
      by (rule strong_client_write [OF config nodes i _ send' take refl put]) simp
    moreover have "\<exists>s'. ssteps c s s' \<and> snodes s' = (after_rpcs at rpcs2 (snodes s))(i := n2) \<and>
        sthreads s' = sthreads s \<and> replies s' = replies s \<and> recorded i (del_Key dreq) [] True s s'
          (case e2 of None \<Rightarrow> Inr \<lparr>delr_Timestamp = Some (toProtoTS ts)\<rparr> | Some x \<Rightarrow> Inl (ErrReplication x))"
      by (rule strong_client_write [OF config nodes i _ send' take refl del]) simp
    ultimately show ?thesis unfolding puts dels by simp
  qed
qed

text \<open>Node 0 of three puts; node 1 answers, node 2 cannot be reached.\<close>

theorem strong_writes_run_as_steps_witness:
  "\<exists>s'. sreachable (ex_config ''strong'' 3) s' \<and> (\<exists>v. Data v = [97] \<and> acked s' = {(0, ''x'', v)}) \<and>
     Store_Get ''x'' (NStore (snodes s' 1)) = Some (ex_val 97 100)"
proof -
  let ?c = "ex_config ''strong'' 3" and ?s = "ex_scluster 3" and ?at = "\<lambda>j. if j = 1 then Some 50 else None"
  let ?call = "\<lambda>j r. fst (peer_reply ?at (snodes ?s) j r)" and ?req = "\<lparr>put_Key = ''x'', put_Value = [97]\<rparr>"
  have start: "sreachable ?c ?s" by (rule sreachable.start [OF ex_sinitial])
  obtain r n' rpcs where put: "Node_Put 100 ?call ?req (snodes ?s 0) = (r, n', rpcs)" by (rule prod_cases3)
  have ok: "\<not> isl r" and peer: "Store_Get ''x'' (NStore (after_rpcs ?at rpcs (snodes ?s) 1)) = Some (ex_val 97 100)"
    using put by (auto simp: node_eval net_eval store_eval srun_eval handler_defs write_through_def
        peer_reply_def after_rpcs_def after_rpc_def StrongHandler_OnWrite_def Let_def)
  from strong_writes_run_as_steps [OF start ex_strong_config, where i = 0 and now = 100 and at = ?at and req = ?req] put obtain s' where
    s': "ssteps ?c ?s s'" "snodes s' = (after_rpcs ?at rpcs (snodes ?s))(0 := n')"
    "recorded 0 ''x'' [97] False ?s s' r"
    by (auto simp: ex_config_def)
  have "sreachable ?c s'" using s'(1) start by (induction rule: rtranclp_induct) (auto intro: sreachable.step)
  moreover have "\<exists>v. Data v = [97] \<and> acked s' = {(0, ''x'', v)}"
    using s'(3) ok by (auto simp: recorded_def ex_scluster_def split: sum.splits)
  ultimately show ?thesis using s'(2) peer by auto
qed

end
