(* ===== verification/StrongConvergence.thy ===== *)
theory StrongConvergence
  imports StrongSimulation
begin

text \<open>
  What the strong mode brings about in the end: a cluster at rest in which no write has failed
  agrees on every version, even where calls timed out, as long as every peer has handled its calls;
  and how long a write waits.
\<close>

section \<open>The writes that have called their peers\<close>

definition waiting :: "scluster \<Rightarrow> nat \<Rightarrow> key \<Rightarrow> Value \<Rightarrow> bool" where
  "waiting s i k v \<longleftrightarrow> (\<exists>R. SWait k v R \<in># sthreads s i)"

definition called :: "scluster \<Rightarrow> (nat \<times> key \<times> Value) set" where
  "called s = {(i, k, v). waiting s i k v} \<union> acked s \<union> failed s"

abbreviation write_of :: "rcall \<Rightarrow> nat \<times> key \<times> Value" where
  "write_of x \<equiv> (rc_origin x, rc_key x, rc_val x)"

text \<open>A write that is still on its way to a peer.\<close>

definition pending :: "scluster \<Rightarrow> nat \<times> key \<times> Value \<Rightarrow> nat \<Rightarrow> bool" where
  "pending s w j \<longleftrightarrow> (\<exists>x \<in># requests s. write_of x = w \<and> rc_peer x = j) \<or>
     (\<exists>x k v. SApply x k v \<in># sthreads s j \<and> write_of x = w)"

definition spread :: "config \<Rightarrow> scluster \<Rightarrow> bool" where
  "spread c s \<longleftrightarrow> (\<forall>x \<in># requests s. write_of x \<in> called s) \<and>
     (\<forall>j x k v. SApply x k v \<in># sthreads s j \<longrightarrow> write_of x \<in> called s) \<and>
     (\<forall>j k t. Store_GetVersion k (NStore (snodes s j)) = Some t \<longrightarrow> (\<exists>i v. (i, k, v) \<in> called s \<and> ValTS v = t)) \<and>
     (\<forall>(i, k, v) \<in> called s. \<forall>j \<in> cfg_ids c - {i}. holds s j k v \<or> pending s (i, k, v) j) \<and>
     (\<forall>(i, k, v) \<in> acked s. holds s i k v)"

lemma spread_update:
  assumes inv: "spread c s" and grows: "grows s s'" and mono: "called s \<subseteq> called s'"
    and "\<And>x. x \<in># requests s' \<Longrightarrow> x \<in># requests s \<or> write_of x \<in> called s'"
    and "\<And>j x k v. SApply x k v \<in># sthreads s' j \<Longrightarrow> SApply x k v \<in># sthreads s j \<or> write_of x \<in> called s'"
    and "\<And>j k t. Store_GetVersion k (NStore (snodes s' j)) = Some t \<Longrightarrow>
      Store_GetVersion k (NStore (snodes s j)) = Some t \<or> (\<exists>i v. (i, k, v) \<in> called s' \<and> ValTS v = t)"
    and "\<And>i k v j. (i, k, v) \<in> called s' \<Longrightarrow> j \<in> cfg_ids c - {i} \<Longrightarrow> (i, k, v) \<in> called s \<or> pending s' (i, k, v) j"
    and "\<And>i k v j. pending s (i, k, v) j \<Longrightarrow> pending s' (i, k, v) j \<or> holds s' j k v"
    and "\<And>i k v. (i, k, v) \<in> acked s' \<Longrightarrow> (i, k, v) \<in> acked s \<or> holds s' i k v"
  shows "spread c s'"
proof -
  have "write_of x \<in> called s'" if "x \<in># requests s'" for x
    using assms(4) [OF that] inv mono by (auto simp: spread_def)
  moreover have "write_of x \<in> called s'" if "SApply x k v \<in># sthreads s' j" for j x k v
    using assms(5) [OF that] inv mono unfolding spread_def by blast
  moreover have "\<exists>i v. (i, k, v) \<in> called s' \<and> ValTS v = t"
    if "Store_GetVersion k (NStore (snodes s' j)) = Some t" for j k t
    using assms(6) [OF that] inv mono unfolding spread_def by blast
  moreover have "holds s' j k v \<or> pending s' (i, k, v) j" if "(i, k, v) \<in> called s'" "j \<in> cfg_ids c - {i}" for i k v j
    using assms(7) [OF that]
  proof
    assume "(i, k, v) \<in> called s"
    then have "holds s j k v \<or> pending s (i, k, v) j" using inv that(2) unfolding spread_def by blast
    then show ?thesis using assms(8) holds_grows [OF grows] by blast
  qed simp
  moreover have "holds s' i k v" if "(i, k, v) \<in> acked s'" for i k v
    using assms(9) [OF that] inv holds_grows [OF grows] by (auto simp: spread_def)
  ultimately show ?thesis unfolding spread_def by blast
qed

text \<open>Steps that touch neither the stores nor the calls.\<close>

lemma spread_quiet:
  assumes "spread c s" and "\<And>j. NStore (snodes s' j) = NStore (snodes s j)" and "requests s' = requests s"
    and "acked s' = acked s" and "called s' = called s"
    and "\<And>j x k v. SApply x k v \<in># sthreads s' j \<longleftrightarrow> SApply x k v \<in># sthreads s j"
  shows "spread c s'"
  using assms(1) by (simp add: spread_def pending_def holds_def assms(2-6))

lemma another_reply:
  assumes "sthreads s i = add_mset (SWait k v R) T" and "sthreads s' = (sthreads s)(i := add_mset (SWait k v R') T)"
  shows "waiting s' i' k' v' \<longleftrightarrow> waiting s i' k' v'"
    and "SApply x k' v' \<in># sthreads s' j \<longleftrightarrow> SApply x k' v' \<in># sthreads s j"
proof -
  show "waiting s' i' k' v' \<longleftrightarrow> waiting s i' k' v'"
    using assms unfolding waiting_def by (cases "i' = i") (simp_all, blast)
  show "SApply x k' v' \<in># sthreads s' j \<longleftrightarrow> SApply x k' v' \<in># sthreads s j"
    using assms by (cases "j = i") simp_all
qed

text \<open>A step in which a peer refuses a call: it goes, and its reply is there already.\<close>

definition refuses :: "scluster \<Rightarrow> scluster \<Rightarrow> bool" where
  "refuses s s' \<longleftrightarrow> size (requests s') < size (requests s) \<and> size (replies s) < size (replies s')"

text \<open>The states that are reached without a refusal.\<close>

inductive served :: "config \<Rightarrow> scluster \<Rightarrow> bool" for c where
  start: "sinitial c s \<Longrightarrow> served c s"
| step: "served c s \<Longrightarrow> sstep (cfg_ids c) s s' \<Longrightarrow> \<not> refuses s s' \<Longrightarrow> served c s'"

lemma served_reachable: "served c s \<Longrightarrow> sreachable c s"
  by (induction rule: served.induct) (auto intro: sreachable.intros)

lemma asked_peers:
  assumes "strong_node c i n"
  shows "asked n k v = map (send_to (cfg_opts c i) k (buildReplicateRequest k v [])) (cfg_peers c i)"
  unfolding asked_def by (rule strong_OnWrite_rpcs) (use assms in \<open>simp add: strong_node_def\<close>)

lemma calls_pending:
  assumes "strong_config c" "i \<in> cfg_ids c" "strong_node c i n" "j \<in> cfg_ids c - {i}"
    and "calls i k v (asked n k v) \<subseteq># requests s"
  shows "pending s (i, k, v) j"
proof -
  have "j \<in> set (cfg_peers c i)" using assms(1,2,4) by (auto simp: strong_config_def)
  then have "\<exists>x \<in># calls i k v (asked n k v). write_of x = (i, k, v) \<and> rc_peer x = j"
    by (force simp: calls_def asked_peers [OF assms(3)] send_to_def)
  with assms(5) show ?thesis by (auto simp: pending_def dest: mset_subset_eqD)
qed

lemma calls_write: "x \<in># calls i k v rpcs \<Longrightarrow> write_of x = (i, k, v)"
  by (auto simp: calls_def)

lemma applied_version:
  "Store_GetVersion k' (applyLocked k v s) = Some t \<Longrightarrow> Store_GetVersion k' s = Some t \<or> k' = k \<and> t = ValTS v"
  by (auto simp: Store_GetVersion_def store_simps split: if_splits option.splits)

lemma written_version:
  "Store_GetVersion k' (local_write k v s) = Some t \<Longrightarrow> Store_GetVersion k' s = Some t \<or> k' = k \<and> t = ValTS v"
  by (auto simp: Store_GetVersion_def local_write_is_Put store_simps split: if_splits)

lemma spread_step:
  assumes "sstep (cfg_ids c) s s'" and "\<not> refuses s s'" and c: "strong_config c"
    and node: "\<And>i. strong_node c i (snodes s i)" and quorum: "quorum_inv c s"
    and inv: "spread c s" and fresh: "\<not> sstale s'"
  shows "spread c s'"
proof -
  have grows: "grows s s'" by (rule sstep_grows [OF assms(1) node fresh])
  have loc: "strong_thread s i t" if "t \<in># sthreads s i" for i t
    using quorum that by (simp add: quorum_inv_def)
  show ?thesis
    using assms(1)
  proof (cases rule: sstep.cases)
    case (strong_stamp i del data now ts clk deps n k)
    then show ?thesis using strong_node_take [OF node [of i], of clk]
      by (intro spread_update [OF inv grows]) (auto simp: called_def waiting_def pending_def split: if_splits)
  next
    case (strong_call i k v T)
    have new: "pending s' (i, k, v) j" if "j \<in> cfg_ids c - {i}" for j
      using calls_pending [OF c strong_call(2) node that, of k v s'] strong_call(1) by simp
    have "waiting s' i' k' v' \<longleftrightarrow> (i', k', v') = (i, k, v) \<or> waiting s i' k' v'" for i' k' v'
      using strong_call(1,3) by (cases "i' = i") (auto simp: waiting_def)
    then have called: "called s' = insert (i, k, v) (called s)"
      using strong_call(1) by (auto simp: called_def)
    have applies: "SApply x k' v' \<in># sthreads s' j \<longleftrightarrow> SApply x k' v' \<in># sthreads s j" for x k' v' j
      using strong_call(1,3) by (cases "j = i") auto
    have requests: "requests s' = requests s + calls i k v (asked (snodes s i) k v)" using strong_call(1) by simp
    show ?thesis
    proof (rule spread_update [OF inv grows])
      fix i' k' v' j
      assume "(i', k', v') \<in> called s'" "j \<in> cfg_ids c - {i'}"
      then show "(i', k', v') \<in> called s \<or> pending s' (i', k', v') j" using new called by auto
    next
      fix i' k' v' j
      assume "pending s (i', k', v') j"
      then show "pending s' (i', k', v') j \<or> holds s' j k' v'" by (auto simp: pending_def applies requests)
    next
      fix x
      assume "x \<in># requests s'"
      then show "x \<in># requests s \<or> write_of x \<in> called s'" using called by (auto simp: requests dest: calls_write)
    next
      fix j x k v
      assume "SApply x k v \<in># sthreads s' j"
      then show "SApply x k v \<in># sthreads s j \<or> write_of x \<in> called s'" by (simp add: applies)
    qed (use strong_call called in \<open>auto split: if_splits\<close>)
  next
    case (strong_clock i cl M pts now ts clk)
    have "write_of cl \<in> called s" using inv strong_clock(4) by (simp add: spread_def)
    then show ?thesis using strong_clock
      by (intro spread_update [OF inv grows]) (auto simp: called_def waiting_def pending_def split: if_splits)
  next
    case (strong_refuse i cl M pts now e clk)
    with assms(2) show ?thesis by (simp add: refuses_def)
  next
    case (strong_apply i cl k v T ok n)
    have thread: "SApply cl k v \<in># sthreads s i" by (simp add: strong_apply)
    have cl: "i = rc_peer cl" "k = rc_key cl" "ValTS v = ValTS (rc_val cl)" using loc [OF thread] by simp_all
    have "write_of cl \<in> called s" using inv thread unfolding spread_def by blast
    then have known: "\<exists>i v'. (i, k, v') \<in> called s \<and> ValTS v' = ValTS v" unfolding cl by blast
    have held: "holds s' i k (rc_val cl)"
      using strong_apply(1) deliver_holds [OF node strong_apply(4)] by (simp add: holds_def cl(3))
    have "waiting s' i' k' v' = waiting s i' k' v'" for i' k' v'
      using strong_apply(1,3) by (cases "i' = i") (auto simp: waiting_def)
    then have same: "called s' = called s" using strong_apply(1) by (simp add: called_def)
    have stays: "SApply x k' v' \<in># sthreads s j \<Longrightarrow> x = cl \<and> j = i \<or> SApply x k' v' \<in># sthreads s' j" for x k' v' j
      using strong_apply(1,3) by auto
    have requests: "requests s' = requests s" using strong_apply(1) by simp
    have store: "NStore n = applyLocked k v (NStore (snodes s i))" by (rule strong_node_deliver(2) [OF node strong_apply(4)])
    show ?thesis
    proof (rule spread_update [OF inv grows])
      fix j k' t
      assume "Store_GetVersion k' (NStore (snodes s' j)) = Some t"
      then show "Store_GetVersion k' (NStore (snodes s j)) = Some t \<or> (\<exists>i v. (i, k', v) \<in> called s' \<and> ValTS v = t)"
        using strong_apply(1) store known same by (auto dest!: applied_version split: if_splits)
    next
      fix i' k' v' j
      assume "pending s (i', k', v') j"
      then show "pending s' (i', k', v') j \<or> holds s' j k' v'"
        unfolding pending_def requests using stays held cl by blast
    qed (use strong_apply same in \<open>auto split: if_splits\<close>)
  next
    case (strong_reply i cl r M R T)
    have "sthreads s' = (sthreads s)(i := add_mset (SWait (rc_key cl) (rc_val cl) ((rc_peer cl, r) # R)) T)"
      using strong_reply(1) by (simp add: sset_def)
    from another_reply [OF strong_reply(5) this] show ?thesis
      using strong_reply(1) by (intro spread_quiet [OF inv]) (simp_all add: called_def)
  next
    case (strong_timeout i k v R T j)
    have "sthreads s' = (sthreads s)(i := add_mset (SWait k v ((j, RPCError) # R)) T)"
      using strong_timeout(1) by (simp add: sset_def)
    from another_reply [OF strong_timeout(3) this] show ?thesis
      using strong_timeout(1) by (intro spread_quiet [OF inv]) (simp_all add: called_def)
  next
    case (strong_accept i k v R T)
    have own: "holds s' i k v" using strong_accept(1) by (simp add: holds_def local_write_at_least)
    have same: "called s' = called s"
      using strong_accept(1,3) by (auto simp: called_def waiting_def split: if_splits)
    have applies: "SApply x k' v' \<in># sthreads s' j \<longleftrightarrow> SApply x k' v' \<in># sthreads s j" for x k' v' j
      using strong_accept(1,3) by (cases "j = i") auto
    have requests: "requests s' = requests s" using strong_accept(1) by simp
    have known: "(i, k, v) \<in> called s" using strong_accept(3) by (auto simp: called_def waiting_def)
    show ?thesis
    proof (rule spread_update [OF inv grows])
      fix j k' t
      assume "Store_GetVersion k' (NStore (snodes s' j)) = Some t"
      then show "Store_GetVersion k' (NStore (snodes s j)) = Some t \<or> (\<exists>i v. (i, k', v) \<in> called s' \<and> ValTS v = t)"
        using strong_accept(1) known same by (auto dest!: written_version split: if_splits)
    next
      fix i' k' v' j
      assume "pending s (i', k', v') j"
      then show "pending s' (i', k', v') j \<or> holds s' j k' v'" by (simp add: pending_def applies requests)
    qed (use strong_accept same own in \<open>auto split: if_splits\<close>)
  next
    case (strong_reject i k v R T e)
    have "called s' = called s"
      using strong_reject(1,3) by (auto simp: called_def waiting_def split: if_splits)
    moreover have "SApply x k' v' \<in># sthreads s' j \<longleftrightarrow> SApply x k' v' \<in># sthreads s j" for x k' v' j
      using strong_reject(1,3) by (cases "j = i") auto
    ultimately show ?thesis using strong_reject(1) by (intro spread_quiet [OF inv]) simp_all
  qed
qed

lemma spread_initial: "sinitial c s \<Longrightarrow> spread c s"
proof -
  assume init: "sinitial c s"
  have "NStore (snodes s i) = Store_New" for i
    using init unfolding sinitial_def by (metis start_node_Some NewNode_def Node.select_convs(2))
  with init show ?thesis
    by (simp add: spread_def sinitial_def called_def waiting_def Store_GetVersion_def Store_New_def)
qed

lemma served_spread:
  assumes "served c s" and "strong_config c" and "\<not> sstale s"
  shows "spread c s"
  using assms(1,3)
proof (induction rule: served.induct)
  case (start s)
  then show ?case by (simp add: spread_initial)
next
  case (step s s')
  have "\<not> sstale s" using sstale_mono step.hyps(2) step.prems by blast
  moreover have reach: "sreachable c s" by (rule served_reachable [OF step.hyps(1)])
  ultimately show ?case
    using spread_step [OF step.hyps(2,3) assms(2) sreachable_node [OF reach assms(2)]
        sreachable_quorum [OF reach assms(2)]] step.IH step.prems by blast
qed

text \<open>At rest every write that was called has arrived at every peer, and an acknowledged one at its own node.\<close>

definition sresting :: "scluster \<Rightarrow> bool" where
  "sresting s \<longleftrightarrow> requests s = {#} \<and> (\<forall>i. sthreads s i = {#})"

lemma resting_holds:
  assumes "spread c s" and "sresting s" and "failed s = {}" and "(i, k, v) \<in> acked s" and "j \<in> cfg_ids c"
  shows "holds s j k v"
proof (cases "j = i")
  case True
  with assms(1,4) show ?thesis by (auto simp: spread_def)
next
  case False
  have "(i, k, v) \<in> called s" using assms(4) by (simp add: called_def)
  with assms(1,5) False have "holds s j k v \<or> pending s (i, k, v) j" unfolding spread_def by blast
  moreover have "\<not> pending s (i, k, v) j" using assms(2) by (simp add: pending_def sresting_def)
  ultimately show ?thesis by blast
qed

lemma resting_versions:
  assumes "spread c s" and "sresting s" and "failed s = {}" and "j \<in> cfg_ids c"
    and "Store_GetVersion k (NStore (snodes s i)) = Some t"
  shows "\<exists>t'. Store_GetVersion k (NStore (snodes s j)) = Some t' \<and> t \<le> t'"
proof -
  obtain o' v where "(o', k, v) \<in> called s" "ValTS v = t" using assms(1,5) unfolding spread_def by blast
  moreover have "called s = acked s" using assms(2,3) by (auto simp: called_def waiting_def sresting_def)
  ultimately have "holds s j k v" using resting_holds [OF assms(1-3) _ assms(4)] by simp
  with \<open>ValTS v = t\<close> show ?thesis by (auto simp: holds_def lww.at_least_def GetVersion_version)
qed

section \<open>Runs without a refusal\<close>

fun sserve :: "nat set \<Rightarrow> saction list \<Rightarrow> scluster \<Rightarrow> scluster option" where
  "sserve ids [] s = Some s"
| "sserve ids (a # as) s =
     (case sexec ids a s of
        None \<Rightarrow> None
      | Some s' \<Rightarrow> if refuses s s' then None else sserve ids as s')"

lemma sserve_served: "served c s \<Longrightarrow> sserve (cfg_ids c) as s = Some s' \<Longrightarrow> served c s'"
proof (induction as arbitrary: s)
  case (Cons a as)
  from Cons.prems(2) obtain t where t: "sexec (cfg_ids c) a s = Some t" "\<not> refuses s t" "sserve (cfg_ids c) as t = Some s'"
    by (auto split: option.splits if_splits)
  from Cons.IH [OF served.step [OF Cons.prems(1) sexec_step [OF t(1)] t(2)] t(3)] show ?case .
qed simp

lemma ex_served:
  assumes "sserve {0..<sz} as (ex_scluster sz) = Some s"
  shows "served (ex_config ''strong'' sz) s"
  using sserve_served [OF served.start [OF ex_sinitial]] assms by (simp add: ex_config_def)

section \<open>Properties\<close>

text \<open>
  C5: A strong cluster at rest agrees: when no call is in flight and no handler runs, no write has
  failed, no peer has refused a call and no local write has overwritten a newer version, all nodes
  have the same version of every key, and each acknowledged write, or a newer one, is on every node.
  Calls may have timed out: a write that was acknowledged without a peer reaches it later.
\<close>

theorem strong_rest_agreement:
  assumes "served c s" and "strong_config c" and "\<not> sstale s" and "failed s = {}" and "sresting s"
    and i: "i \<in> cfg_ids c" and j: "j \<in> cfg_ids c"
  shows "Store_GetVersion k (NStore (snodes s i)) = Store_GetVersion k (NStore (snodes s j)) \<and>
    ((i', k, v) \<in> acked s \<longrightarrow> (\<exists>t. Store_GetVersion k (NStore (snodes s j)) = Some t \<and> ValTS v \<le> t))"
proof -
  have inv: "spread c s" by (rule served_spread [OF assms(1-3)])
  note versions = resting_versions [OF inv assms(5,4)]
  have "Store_GetVersion k (NStore (snodes s i)) = Store_GetVersion k (NStore (snodes s j))"
  proof (cases "Store_GetVersion k (NStore (snodes s i))")
    case None
    with versions [OF i, of k j] show ?thesis by (cases "Store_GetVersion k (NStore (snodes s j))") auto
  next
    case (Some t)
    from versions [OF j Some] obtain t' where t': "Store_GetVersion k (NStore (snodes s j)) = Some t'" "t \<le> t'"
      by blast
    from versions [OF i t'(1)] Some t' show ?thesis by auto
  qed
  moreover have "\<exists>t. Store_GetVersion k (NStore (snodes s j)) = Some t \<and> ValTS v \<le> t" if "(i', k, v) \<in> acked s"
    using resting_holds [OF inv assms(5,4) that j] by (auto simp: holds_def lww.at_least_def GetVersion_version)
  ultimately show ?thesis by blast
qed

text \<open>
  Node 0 of three puts with one reply in time; the call to node 2 times out and is handled after the
  \<open>Put\<close> has returned.
\<close>

lemma ex_rest:
  "\<exists>s. served (ex_config ''strong'' 3) s \<and> \<not> sstale s \<and> failed s = {} \<and> sresting s \<and>
     (0, ''x'', ex_val 97 100) \<in> acked s"
proof -
  let ?v = "ex_val 97 100"
  have "\<exists>s. sserve {0..<3} (srun_put 0 ''x'' ?v @ srun_handle 0 1 50 ''x'' ?v @
      [SAReply (ex_rcall 0 ''x'' ?v 1) ex_yes [], SATimeout 0 ''x'' ?v [(1, ex_yes)] 2,
       SAGo 0 (SWait ''x'' ?v [(2, RPCError), (1, ex_yes)])] @ srun_handle 0 2 50 ''x'' ?v)
      (ex_scluster 3) = Some s \<and> \<not> sstale s \<and> failed s = {} \<and> sresting s \<and> (0, ''x'', ?v) \<in> acked s"
    by (simp add: srun_eval refuses_def sresting_def node_eval net_eval store_eval)
  then show ?thesis using ex_served by blast
qed

theorem strong_rest_agreement_witness:
  "\<exists>s. served (ex_config ''strong'' 3) s \<and> (\<exists>t. Store_GetVersion ''x'' (NStore (snodes s 2)) = Some t \<and>
     Store_GetVersion ''x'' (NStore (snodes s 0)) = Some t \<and> Timestamp 100 0 \<le> t)"
proof -
  obtain s where s: "served (ex_config ''strong'' 3) s" "\<not> sstale s" "failed s = {}" "sresting s"
    "(0, ''x'', ex_val 97 100) \<in> acked s" using ex_rest by blast
  have "0 \<in> cfg_ids (ex_config ''strong'' 3)" "2 \<in> cfg_ids (ex_config ''strong'' 3)" by (simp_all add: ex_config_def)
  from strong_rest_agreement [OF s(1) ex_strong_config s(2-4) this] s(1,5)
  show ?thesis by (fastforce simp: ex_val_def)
qed

end
