(* ===== verification/BufferConcurrent.thy ===== *)
theory BufferConcurrent
  imports Cluster
begin

text \<open>
  \<open>Buffer.Receive\<close> of \<open>internal/buffer/buffer.go\<close> while other handlers of the node use the store. The
  buffer's lock keeps other calls of the buffer out, but \<open>GetVersion\<close>, \<open>Apply\<close> and \<open>ApplyDelete\<close> each
  take the store's own lock, and a local \<open>Put\<close> or \<open>Delete\<close> may come between any two of them. Here
  every such access is a step of its own, and the environment acts on the store before each.
\<close>

section \<open>The accesses\<close>

text \<open>
  The store, the number of accesses so far, and, as a history variable, the stores right after each
  write of the buffer, which concurrent readers may see.
\<close>

record shared =
  sh_store :: Store
  sh_time :: nat
  sh_seen :: "Store list"

type_synonym environment = "nat \<Rightarrow> Store \<Rightarrow> Store"

definition interfere :: "environment \<Rightarrow> shared \<Rightarrow> shared" where
  "interfere env w = w\<lparr>sh_store := env (sh_time w) (sh_store w), sh_time := Suc (sh_time w)\<rparr>"

definition shared_GetVersion :: "environment \<Rightarrow> key \<Rightarrow> shared \<Rightarrow> Timestamp option \<times> shared" where
  "shared_GetVersion env k w = (let w' = interfere env w in (Store_GetVersion k (sh_store w'), w'))"

fun shared_depsSatisfied :: "environment \<Rightarrow> Dependency list \<Rightarrow> shared \<Rightarrow> bool \<times> shared" where
  "shared_depsSatisfied env [] w = (True, w)"
| "shared_depsSatisfied env (dep # deps) w =
     (case shared_GetVersion env (DepKey dep) w of (found, w') \<Rightarrow>
        let ts = (case found of None \<Rightarrow> zero_Timestamp | Some ts \<Rightarrow> ts)
        in if \<not> AfterOrEqual ts (MinTS dep) then (False, w') else shared_depsSatisfied env deps w')"

definition shared_applyLocked :: "environment \<Rightarrow> key \<Rightarrow> Value \<Rightarrow> shared \<Rightarrow> shared" where
  "shared_applyLocked env k v w =
     (let w' = interfere env w;
          s = (if Deleted v then snd (Store_ApplyDelete k (ValTS v) (sh_store w'))
               else snd (Store_Apply k v (sh_store w')))
      in w'\<lparr>sh_store := s, sh_seen := sh_seen w' @ [s]\<rparr>)"

fun shared_pass :: "environment \<Rightarrow> pendingWrite list \<Rightarrow> shared \<Rightarrow> pendingWrite list \<times> shared \<times> bool" where
  "shared_pass env [] w = ([], w, False)"
| "shared_pass env (p # ps) w =
     (case shared_depsSatisfied env (Deps (pw_val p)) w of
        (True, w1) \<Rightarrow>
          (case shared_pass env ps (shared_applyLocked env (pw_key p) (pw_val p) w1) of
             (r, w2, _) \<Rightarrow> (r, w2, True))
      | (False, w1) \<Rightarrow> (case shared_pass env ps w1 of (r, w2, b) \<Rightarrow> (p # r, w2, b)))"

lemma shared_pass_length:
  "shared_pass env h w = (r, w', b) \<Longrightarrow> length r + (if b then 1 else 0) \<le> length h"
proof (induction h arbitrary: w r w' b)
  case (Cons p h)
  then show ?case by (fastforce split: if_splits prod.splits bool.splits)
qed simp

function shared_drainLocked :: "environment \<Rightarrow> pendingWrite list \<Rightarrow> shared \<Rightarrow> pendingWrite list \<times> shared" where
  "shared_drainLocked env h w =
     (case shared_pass env h w of
        (remaining, w', progressed) \<Rightarrow>
          if \<not> progressed then (remaining, w') else shared_drainLocked env remaining w')"
  by pat_completeness auto
termination
  by (relation "measure (\<lambda>(env, h, w). length h)") (auto dest: shared_pass_length [OF sym])

declare shared_drainLocked.simps [simp del]

definition shared_Receive ::
  "environment \<Rightarrow> key \<Rightarrow> Value \<Rightarrow> shared \<times> Buffer \<Rightarrow> bool \<times> shared \<times> Buffer" where
  "shared_Receive env k v wb =
     (case wb of (w, b) \<Rightarrow>
        case shared_depsSatisfied env (Deps v) w of
          (True, w1) \<Rightarrow>
            (case shared_drainLocked env (held b) (shared_applyLocked env k v w1) of
               (h, w2) \<Rightarrow> (True, w2, b\<lparr>held := h\<rparr>))
        | (False, w1) \<Rightarrow> (False, w1, b\<lparr>held := held b @ [\<lparr>pw_key = k, pw_val = v\<rparr>]\<rparr>))"

section \<open>Alone it is the sequential operation\<close>

abbreviation quiet :: environment where
  "quiet \<equiv> \<lambda>_ s. s"

lemma quiet_deps:
  "fst (shared_depsSatisfied quiet ds w) = depsSatisfied (sh_store w) ds \<and>
   sh_store (snd (shared_depsSatisfied quiet ds w)) = sh_store w"
  by (induction ds arbitrary: w) (auto simp: shared_GetVersion_def interfere_def Let_def split: option.split)

lemma quiet_apply: "sh_store (shared_applyLocked quiet k v w) = applyLocked k v (sh_store w)"
  by (simp add: shared_applyLocked_def interfere_def applyLocked_def Let_def)

lemma quiet_pass:
  "shared_pass quiet h w = (r, w', b) \<Longrightarrow> drain_pass h (sh_store w) = (r, sh_store w', b)"
proof (induction h arbitrary: w r w' b)
  case (Cons p h)
  obtain ok w1 where deps: "shared_depsSatisfied quiet (Deps (pw_val p)) w = (ok, w1)" by (rule prod.exhaust)
  with quiet_deps [of "Deps (pw_val p)" w]
  have "ok = depsSatisfied (sh_store w) (Deps (pw_val p))" "sh_store w1 = sh_store w" by simp_all
  with Cons deps show ?case
    by (cases ok) (force simp: quiet_apply split: prod.splits)+
qed simp

lemma quiet_drain: "shared_drainLocked quiet h w = (r, w') \<Longrightarrow> drainLocked h (sh_store w) = (r, sh_store w')"
proof (induction "length h" arbitrary: h w rule: less_induct)
  case less
  obtain h1 w1 b where pass: "shared_pass quiet h w = (h1, w1, b)" by (rule prod_cases3)
  note seq = quiet_pass [OF pass]
  show ?case
  proof (cases b)
    case False
    with less.prems pass seq show ?thesis
      by (simp add: shared_drainLocked.simps [of quiet h] drainLocked.simps [of h])
  next
    case True
    with less.prems pass have "shared_drainLocked quiet h1 w1 = (r, w')"
      by (simp add: shared_drainLocked.simps [of quiet h])
    with less.hyps [of h1 w1] shared_pass_length [OF pass] True seq show ?thesis
      by (simp add: drainLocked.simps [of h])
  qed
qed

section \<open>What the environment may do\<close>

text \<open>
  What the buffer relies on: the other handlers keep the store causally closed and let no version
  shrink. This is what it guarantees to them in turn, at each of its own writes.
\<close>

definition sound :: "Store \<Rightarrow> bool" where
  "sound s \<longleftrightarrow> causally_closed s \<and> nonneg_store s"

locale polite =
  fixes env :: environment
  assumes keeps: "sound s \<Longrightarrow> sound (env t s)"
    and grows: "sound s \<Longrightarrow> lww.dominated s (env t s)"
begin

definition grown :: "shared \<Rightarrow> shared \<Rightarrow> bool" where
  "grown w w' \<longleftrightarrow> sound (sh_store w') \<and> lww.dominated (sh_store w) (sh_store w') \<and>
     (\<exists>new. sh_seen w' = sh_seen w @ new \<and>
        (\<forall>s \<in> set new. sound s \<and> lww.dominated (sh_store w) s \<and> lww.dominated s (sh_store w')))"

lemma grown_refl: "sound (sh_store w) \<Longrightarrow> grown w w"
  by (simp add: grown_def lww.dominated_refl)

lemma grown_trans:
  assumes "grown w1 w2" and "grown w2 w3"
  shows "grown w1 w3"
proof -
  obtain new1 new2 where new: "sh_seen w2 = sh_seen w1 @ new1" "sh_seen w3 = sh_seen w2 @ new2"
    "\<forall>s \<in> set new1. sound s \<and> lww.dominated (sh_store w1) s \<and> lww.dominated s (sh_store w2)"
    "\<forall>s \<in> set new2. sound s \<and> lww.dominated (sh_store w2) s \<and> lww.dominated s (sh_store w3)"
    using assms by (auto simp: grown_def)
  have dom: "lww.dominated (sh_store w1) (sh_store w2)" "lww.dominated (sh_store w2) (sh_store w3)"
    using assms by (simp_all add: grown_def)
  have "\<forall>s \<in> set (new1 @ new2). sound s \<and> lww.dominated (sh_store w1) s \<and> lww.dominated s (sh_store w3)"
    using new(3,4) dom by (auto intro: lww.dominated_trans)
  moreover have "sh_seen w3 = sh_seen w1 @ new1 @ new2" using new(1,2) by simp
  ultimately show ?thesis using assms(2) lww.dominated_trans [OF dom] unfolding grown_def by blast
qed

lemma grown_sound: "grown w w' \<Longrightarrow> sound (sh_store w')"
  by (simp add: grown_def)

lemma grown_interfere: "sound (sh_store w) \<Longrightarrow> grown w (interfere env w)"
  by (simp add: grown_def interfere_def keeps grows)

lemma grown_deps: "grown w w' \<Longrightarrow> depsSatisfied (sh_store w) ds \<Longrightarrow> depsSatisfied (sh_store w') ds"
  by (auto simp: grown_def sound_def intro: depsSatisfied_mono)

lemma grown_absorbed: "grown w w' \<Longrightarrow> absorbed (sh_store w) p \<Longrightarrow> absorbed (sh_store w') p"
  by (auto simp: grown_def dest: lww.dominatedD)

text \<open>
  The store right after the last write of the buffer: it only grows, and what was not ready later
  was not ready there.
\<close>

definition marked :: "shared \<Rightarrow> bool" where
  "marked w \<longleftrightarrow> sh_seen w \<noteq> [] \<and> sound (last (sh_seen w)) \<and> lww.dominated (last (sh_seen w)) (sh_store w)"

lemma grown_marked:
  assumes "grown w w'" and "marked w"
  shows "marked w'" and "lww.dominated (last (sh_seen w)) (last (sh_seen w'))"
proof -
  obtain new where new: "sh_seen w' = sh_seen w @ new" "lww.dominated (sh_store w) (sh_store w')"
    "\<forall>s \<in> set new. sound s \<and> lww.dominated (sh_store w) s \<and> lww.dominated s (sh_store w')"
    using assms(1) by (auto simp: grown_def)
  have "marked w' \<and> lww.dominated (last (sh_seen w)) (last (sh_seen w'))"
  proof (cases "new = []")
    case True
    with new assms(2) show ?thesis by (auto simp: marked_def lww.dominated_refl intro: lww.dominated_trans)
  next
    case False
    then have "last (sh_seen w') \<in> set new" using new(1) by simp
    with new assms(2) show ?thesis by (auto simp: marked_def intro: lww.dominated_trans)
  qed
  then show "marked w'" "lww.dominated (last (sh_seen w)) (last (sh_seen w'))" by simp_all
qed

lemma marked_stuck:
  assumes "marked w" and "sound (sh_store w)" and "stuck (sh_store w) M"
  shows "stuck (last (sh_seen w)) M"
  using assms by (auto simp: marked_def sound_def stuck_def intro: depsSatisfied_mono)

lemma marked_absorbed:
  "grown w w' \<Longrightarrow> marked w \<Longrightarrow> absorbed (last (sh_seen w)) p \<Longrightarrow> absorbed (last (sh_seen w')) p"
  by (auto dest!: grown_marked(2) dest: lww.dominatedD)

text \<open>A positive answer holds at the end of the check, a negative one held at its beginning.\<close>

lemma deps_checked:
  assumes "shared_depsSatisfied env ds w = (ok, w')" and "sound (sh_store w)"
  shows "grown w w' \<and> sh_seen w' = sh_seen w \<and> (ok \<longrightarrow> depsSatisfied (sh_store w') ds) \<and>
    (\<not> ok \<longrightarrow> \<not> depsSatisfied (sh_store w) ds)"
  using assms
proof (induction ds arbitrary: w)
  case Nil
  then show ?case by (simp add: grown_refl)
next
  case (Cons d ds)
  let ?w = "interfere env w"
  have step: "grown w ?w" using Cons.prems(2) by (rule grown_interfere)
  have seen: "sh_seen ?w = sh_seen w" by (simp add: interfere_def)
  have check: "depsSatisfied (sh_store ?w) [d] \<longleftrightarrow>
      AfterOrEqual (case Store_GetVersion (DepKey d) (sh_store ?w) of None \<Rightarrow> zero_Timestamp | Some ts \<Rightarrow> ts) (MinTS d)"
    by (simp add: Let_def)
  show ?case
  proof (cases "depsSatisfied (sh_store ?w) [d]")
    case False
    with Cons.prems(1) check have "\<not> ok" "w' = ?w"
      by (auto simp: shared_GetVersion_def Let_def simp del: depsSatisfied.simps)
    moreover have "\<not> depsSatisfied (sh_store w) [d]" using False grown_deps [OF step] by blast
    ultimately show ?thesis using step seen by (simp add: depsSatisfied_iff)
  next
    case True
    with Cons.prems(1) check have "shared_depsSatisfied env ds ?w = (ok, w')"
      by (auto simp: shared_GetVersion_def Let_def simp del: depsSatisfied.simps)
    from Cons.IH [OF this grown_sound [OF step]]
    have rest: "grown ?w w'" "sh_seen w' = sh_seen ?w" "ok \<longrightarrow> depsSatisfied (sh_store w') ds"
      "\<not> ok \<longrightarrow> \<not> depsSatisfied (sh_store ?w) ds" by simp_all
    have "grown w w'" using step rest(1) by (rule grown_trans)
    moreover have "depsSatisfied (sh_store w') [d]" using grown_deps [OF rest(1) True] .
    moreover have "\<not> ok \<longrightarrow> \<not> depsSatisfied (sh_store w) ds" using rest(4) grown_deps [OF step] by blast
    ultimately show ?thesis using rest(2,3) seen by (simp add: depsSatisfied_iff)
  qed
qed

lemma write_applied:
  assumes "depsSatisfied (sh_store w) (Deps v)" and "sound (sh_store w)" and "zero_Timestamp \<le> ValTS v"
  shows "grown w (shared_applyLocked env k v w)"
    and "marked (shared_applyLocked env k v w)"
    and "absorbed (last (sh_seen (shared_applyLocked env k v w))) \<lparr>pw_key = k, pw_val = v\<rparr>"
proof -
  let ?s = "env (sh_time w) (sh_store w)"
  have step: "grown w (interfere env w)" using assms(2) by (rule grown_interfere)
  then have s: "sound ?s" "depsSatisfied ?s (Deps v)" "lww.dominated (sh_store w) ?s"
    using grown_deps [OF step assms(1)] by (simp_all add: grown_def interfere_def)
  have w': "sh_store (shared_applyLocked env k v w) = applyLocked k v ?s"
    "sh_seen (shared_applyLocked env k v w) = sh_seen w @ [applyLocked k v ?s]"
    by (simp_all add: shared_applyLocked_def interfere_def applyLocked_def Let_def)
  have "sound (applyLocked k v ?s)"
    using s(1,2) assms(3) by (simp add: sound_def nonneg_applyLocked causally_closed_applyLocked)
  moreover have "lww.dominated (sh_store w) (applyLocked k v ?s)"
    using s(3) lww.dominated_apply by (rule lww.dominated_trans)
  ultimately show "grown w (shared_applyLocked env k v w)" "marked (shared_applyLocked env k v w)"
    by (simp_all add: grown_def marked_def w' lww.dominated_refl)
  show "absorbed (last (sh_seen (shared_applyLocked env k v w))) \<lparr>pw_key = k, pw_val = v\<rparr>"
    unfolding w' using lww.apply_at_least [of k v ?s] by simp
qed

text \<open>One pass: what leaves the list is absorbed, and a pass without progress found nothing ready.\<close>

lemma pass_run:
  assumes "shared_pass env h w = (r, w', b)" and "sound (sh_store w)" and "marked w" and "nonneg_writes (set h)"
  shows "grown w w' \<and> set r \<subseteq> set h \<and>
    (\<exists>out. mset h = mset r + out \<and> (\<forall>p \<in># out. absorbed (last (sh_seen w')) p)) \<and>
    (\<not> b \<longrightarrow> r = h \<and> sh_seen w' = sh_seen w \<and> stuck (sh_store w) (mset h))"
  using assms
proof (induction h arbitrary: w r w' b)
  case Nil
  then show ?case by (simp add: grown_refl stuck_def)
next
  case (Cons p h)
  obtain ok w1 where deps: "shared_depsSatisfied env (Deps (pw_val p)) w = (ok, w1)" by (rule prod.exhaust)
  note check = deps_checked [OF deps Cons.prems(2)]
  have nonneg: "zero_Timestamp \<le> ValTS (pw_val p)" "nonneg_writes (set h)"
    using Cons.prems(4) by (simp_all add: nonneg_writes_def)
  have w1: "grown w w1" "sound (sh_store w1)" "marked w1"
    using check grown_sound grown_marked(1) Cons.prems(3) by blast+
  show ?case
  proof (cases ok)
    case True
    let ?w2 = "shared_applyLocked env (pw_key p) (pw_val p) w1"
    obtain b' where rest: "shared_pass env h ?w2 = (r, w', b')" and b: "b = True"
      using Cons.prems(1) deps True by (auto split: prod.splits)
    have w2: "grown w1 ?w2" "marked ?w2" "absorbed (last (sh_seen ?w2)) p"
      using write_applied [OF _ w1(2) nonneg(1), of "pw_key p"] check True by simp_all
    from Cons.IH [OF rest grown_sound [OF w2(1)] w2(2) nonneg(2)] obtain out where
      ih: "grown ?w2 w'" "set r \<subseteq> set h" "mset h = mset r + out"
        "\<forall>p \<in># out. absorbed (last (sh_seen w')) p" by blast
    have "absorbed (last (sh_seen w')) p" using ih(1) w2(2,3) by (rule marked_absorbed)
    with ih have "mset (p # h) = mset r + add_mset p out \<and>
        (\<forall>q \<in># add_mset p out. absorbed (last (sh_seen w')) q)"
      by simp
    moreover have "grown w w'" using w1(1) w2(1) ih(1) by (blast intro: grown_trans)
    ultimately show ?thesis using b ih(2) by auto
  next
    case False
    obtain r' where rest: "shared_pass env h w1 = (r', w', b)" and r: "r = p # r'"
      using Cons.prems(1) deps False by (auto split: prod.splits)
    from Cons.IH [OF rest w1(2,3) nonneg(2)] obtain out where
      ih: "grown w1 w'" "set r' \<subseteq> set h" "mset h = mset r' + out" "\<forall>p \<in># out. absorbed (last (sh_seen w')) p"
        "\<not> b \<longrightarrow> r' = h \<and> sh_seen w' = sh_seen w1 \<and> stuck (sh_store w1) (mset h)" by blast
    have "stuck (sh_store w) (mset (p # h))" if "\<not> b"
      using ih(5) that check False grown_deps [OF w1(1)] by (auto simp: stuck_def)
    moreover have "grown w w'" using w1(1) ih(1) by (rule grown_trans)
    moreover have "mset (p # h) = mset r + out" "set r \<subseteq> set (p # h)" "\<not> b \<longrightarrow> r = p # h \<and> sh_seen w' = sh_seen w"
      using ih(2,3,5) r check by auto
    ultimately show ?thesis using ih(4) by blast
  qed
qed

text \<open>
  The whole drain, up to the store right after the last write of the buffer: what left the list is
  there, and nothing that stays was ready.
\<close>

definition drained :: "shared \<Rightarrow> pendingWrite multiset \<Rightarrow> pendingWrite list \<Rightarrow> shared \<Rightarrow> bool" where
  "drained w M r w' \<longleftrightarrow> grown w w' \<and> marked w' \<and> stuck (last (sh_seen w')) (mset r) \<and>
     (\<exists>out. M = mset r + out \<and> (\<forall>p \<in># out. absorbed (last (sh_seen w')) p))"

lemma drain_run:
  assumes "shared_drainLocked env h w = (r, w')" and "sound (sh_store w)" and "marked w" and "nonneg_writes (set h)"
  shows "drained w (mset h) r w'"
  using assms
proof (induction "length h" arbitrary: h w rule: less_induct)
  case less
  obtain h1 w1 b where pass: "shared_pass env h w = (h1, w1, b)" by (rule prod_cases3)
  from pass_run [OF pass less.prems(2-4)] obtain out where
    run: "grown w w1" "set h1 \<subseteq> set h" "mset h = mset h1 + out" "\<forall>p \<in># out. absorbed (last (sh_seen w1)) p"
      "\<not> b \<longrightarrow> h1 = h \<and> sh_seen w1 = sh_seen w \<and> stuck (sh_store w) (mset h)" by blast
  note marked = grown_marked(1) [OF run(1) less.prems(3)]
  show ?case
  proof (cases b)
    case False
    then have "r = h" "w' = w1" "sh_seen w1 = sh_seen w" "stuck (sh_store w) (mset h)"
      using less.prems(1) pass run(5) by (simp_all add: shared_drainLocked.simps [of env h])
    with marked_stuck [OF less.prems(3,2)] run(1) marked show ?thesis by (simp add: drained_def)
  next
    case True
    then have "shared_drainLocked env h1 w1 = (r, w')"
      using less.prems(1) pass by (simp add: shared_drainLocked.simps [of env h])
    moreover have "nonneg_writes (set h1)" using less.prems(4) run(2) by (auto simp: nonneg_writes_def)
    ultimately have "drained w1 (mset h1) r w'"
      using less.hyps [of h1 w1] shared_pass_length [OF pass] True grown_sound [OF run(1)] marked by simp
    then obtain out' where rest: "grown w1 w'" "marked w'" "stuck (last (sh_seen w')) (mset r)"
      "mset h1 = mset r + out'" "\<forall>p \<in># out'. absorbed (last (sh_seen w')) p"
      by (auto simp: drained_def)
    have "\<forall>p \<in># out' + out. absorbed (last (sh_seen w')) p"
      using rest(5) run(4) marked_absorbed [OF rest(1) marked] by auto
    moreover have "grown w w'" using run(1) rest(1) by (rule grown_trans)
    moreover have "mset h = mset r + (out' + out)" using run(3) rest(4) by simp
    ultimately show ?thesis using rest(2,3) unfolding drained_def by blast
  qed
qed

text \<open>A received write is kept back, or absorbed with every held write that does not stay.\<close>

lemma Receive_run:
  assumes "shared_Receive env k v (w, b) = (applied, w', b')" and "sound (sh_store w)"
    and "zero_Timestamp \<le> ValTS v" and "nonneg_writes (set (held b))"
  shows "if applied then drained w (add_mset \<lparr>pw_key = k, pw_val = v\<rparr> (mset (held b))) (held b') w'
    else grown w w' \<and> held b' = held b @ [\<lparr>pw_key = k, pw_val = v\<rparr>] \<and> \<not> depsSatisfied (sh_store w) (Deps v)"
proof -
  let ?p = "\<lparr>pw_key = k, pw_val = v\<rparr>"
  obtain ok w1 where deps: "shared_depsSatisfied env (Deps v) w = (ok, w1)" by (rule prod.exhaust)
  note check = deps_checked [OF deps assms(2)]
  show ?thesis
  proof (cases ok)
    case False
    with assms(1) deps check show ?thesis by (auto simp: shared_Receive_def)
  next
    case True
    let ?w2 = "shared_applyLocked env k v w1"
    obtain h w3 where drain: "shared_drainLocked env (held b) ?w2 = (h, w3)" by (rule prod.exhaust)
    have res: "applied" "w' = w3" "held b' = h" using assms(1) deps True drain by (auto simp: shared_Receive_def)
    have w1: "grown w w1" "depsSatisfied (sh_store w1) (Deps v)" using check True by simp_all
    note w2 = write_applied [OF w1(2) grown_sound [OF w1(1)] assms(3), of k]
    from drain_run [OF drain grown_sound [OF w2(1)] w2(2) assms(4)] obtain out where
      rest: "grown ?w2 w3" "marked w3" "stuck (last (sh_seen w3)) (mset h)" "mset (held b) = mset h + out"
        "\<forall>p \<in># out. absorbed (last (sh_seen w3)) p"
      by (auto simp: drained_def)
    have "\<forall>p \<in># add_mset ?p out. absorbed (last (sh_seen w3)) p"
      using rest(5) marked_absorbed [OF rest(1) w2(2,3)] by simp
    moreover have "grown w w3" using w1(1) w2(1) rest(1) by (blast intro: grown_trans)
    moreover have "add_mset ?p (mset (held b)) = mset h + add_mset ?p out" using rest(4) by simp
    ultimately have "drained w (add_mset ?p (mset (held b))) h w3"
      using rest(2,3) unfolding drained_def by blast
    with res show ?thesis by simp
  qed
qed

end

section \<open>The other handlers of a node\<close>

text \<open>
  In causal mode all replicated writes go through the buffer, so what comes between its accesses
  are the local writes of \<open>Put\<close> and \<open>Delete\<close>. Before each access any number of them may run. The
  dependencies of one are reads of this store; one that would overwrite a newer version is left out.
\<close>

fun guarded_write :: "key \<times> Value \<Rightarrow> Store \<Rightarrow> Store" where
  "guarded_write (k, v) s =
     (if depsSatisfied s (Deps v) \<and> \<not> overwrites_newer k v s \<and> zero_Timestamp \<le> ValTS v
      then local_write k v s else s)"

definition local_writes :: "(nat \<Rightarrow> (key \<times> Value) list) \<Rightarrow> environment" where
  "local_writes sched t s = fold guarded_write (sched t) s"

lemma guarded_writes:
  "sound s \<Longrightarrow> sound (fold guarded_write ws s) \<and> lww.dominated s (fold guarded_write ws s)"
proof (induction ws arbitrary: s)
  case (Cons w ws)
  have "sound (guarded_write w s) \<and> lww.dominated s (guarded_write w s)"
    using Cons.prems local_write_closed [of s] local_write_dominates
    by (cases w) (auto simp: sound_def lww.dominated_refl)
  with Cons.IH [of "guarded_write w s"] show ?case by (auto intro: lww.dominated_trans)
qed (simp add: lww.dominated_refl)

interpretation writers: polite "local_writes sched" for sched
  by unfold_locales (simp_all add: local_writes_def guarded_writes)

section \<open>Properties\<close>

text \<open>
  Undisturbed, the accesses one by one are the operation that the rest of the development uses.
\<close>

theorem shared_Receive_alone:
  "case shared_Receive quiet k v (w, b) of (applied, w', b') \<Rightarrow>
     Buffer_Receive k v (sh_store w, b) = (applied, sh_store w', b')"
proof -
  obtain ok w1 where deps: "shared_depsSatisfied quiet (Deps v) w = (ok, w1)" by (rule prod.exhaust)
  with quiet_deps [of "Deps v" w] have w1: "ok = depsSatisfied (sh_store w) (Deps v)" "sh_store w1 = sh_store w"
    by simp_all
  obtain h w2 where drain: "shared_drainLocked quiet (held b) (shared_applyLocked quiet k v w1) = (h, w2)"
    by (rule prod.exhaust)
  with deps w1 quiet_drain [OF drain] show ?thesis
    by (cases ok) (auto simp: shared_Receive_def Buffer_Receive_def quiet_apply)
qed

text \<open>
  C7: \<open>Receive\<close> is safe while local \<open>Put\<close>s and \<open>Delete\<close>s come between any two of its accesses to the
  store: every store that a reader can see right after one of its writes, and the last, is causally
  closed, and no version shrinks up to it or from it on. A write is kept back only if its dependencies
  were not met when it arrived. Otherwise the buffer has written, and right after its last write every
  write that is no longer held is in the store, in this or a newer version, and nothing that is still
  held was ready.
\<close>

theorem Receive_among_local_writes:
  assumes "shared_Receive (local_writes sched) k v (w, b) = (applied, w', b')" and "sh_seen w = []"
    and "causally_closed (sh_store w)" "nonneg_store (sh_store w)"
    and "zero_Timestamp \<le> ValTS v" "nonneg_writes (set (held b))"
  shows "(\<forall>s \<in> insert (sh_store w') (set (sh_seen w')).
      causally_closed s \<and> lww.dominated (sh_store w) s \<and> lww.dominated s (sh_store w')) \<and>
    (if applied then
       sh_seen w' \<noteq> [] \<and> stuck (last (sh_seen w')) (mset (held b')) \<and>
       (\<exists>out. add_mset \<lparr>pw_key = k, pw_val = v\<rparr> (mset (held b)) = mset (held b') + out \<and>
         (\<forall>p \<in># out. absorbed (last (sh_seen w')) p))
     else held b' = held b @ [\<lparr>pw_key = k, pw_val = v\<rparr>] \<and> \<not> depsSatisfied (sh_store w) (Deps v))"
proof -
  have "sound (sh_store w)" using assms(3,4) by (simp add: sound_def)
  note run = writers.Receive_run [OF assms(1) this assms(5,6)]
  then have grown: "writers.grown w w'" by (auto simp: writers.drained_def split: if_splits)
  then have "\<forall>s \<in> insert (sh_store w') (set (sh_seen w')).
      causally_closed s \<and> lww.dominated (sh_store w) s \<and> lww.dominated s (sh_store w')"
    using assms(2) by (auto simp: writers.grown_def sound_def lww.dominated_refl)
  with run show ?thesis by (auto simp: writers.drained_def writers.marked_def split: if_splits)
qed

text \<open>
  Beside the run of \<open>buffer_test.go\<close>: \<open>y\<close> is held and \<open>x\<close> arrives, and two local \<open>Put\<close>s of \<open>z\<close> come
  before the first access of the buffer.
\<close>

theorem Receive_among_local_writes_witness:
  "\<exists>applied w' b'. shared_Receive (local_writes ((\<lambda>_. [])(0 := [(''z'', ex_x), (''z'', ex_x)]))) ''x'' ex_x
     (\<lparr>sh_store = Store_New, sh_time = 0, sh_seen = []\<rparr>, ex_held) = (applied, w', b') \<and>
   list_all causally_closed (sh_seen w') \<and> applied \<and> stuck (last (sh_seen w')) (mset (held b'))"
proof -
  let ?w = "\<lparr>sh_store = Store_New, sh_time = 0, sh_seen = []\<rparr>"
  obtain applied w' b' where run: "shared_Receive (local_writes ((\<lambda>_. [])(0 := [(''z'', ex_x), (''z'', ex_x)])))
      ''x'' ex_x (?w, ex_held) = (applied, w', b')" by (rule prod_cases3)
  have "causally_closed (sh_store ?w)" "nonneg_store (sh_store ?w)" "nonneg_writes (set (held ex_held))"
    using causally_closed_New nonneg_New ex_nonneg by (simp_all add: nonneg_writes_def ex_held_def)
  note facts = Receive_among_local_writes [OF run _ this(1,2) ex_nonneg(1) this(3)]
  have "depsSatisfied Store_New (Deps ex_x)" by (simp add: ex_x_def)
  with facts have "applied" by (auto split: if_splits)
  with facts run show ?thesis by (auto simp: list_all_iff)
qed

end
