(* ===== verification/Float64.thy ===== *)
theory Float64
  imports Complex_Main
begin

text \<open>
  Go's \<open>float64\<close> on finite values: a value is a rational number, and every arithmetic operation is
  the exact one followed by rounding to the nearest double, ties to even. Infinities, NaN and the
  sign of zero are not represented; the code divides by a quantity that can be zero in one place,
  where the model says so.
\<close>

section \<open>Definitions\<close>

definition half_even :: "rat \<Rightarrow> int" where
  "half_even x =
     (let f = \<lfloor>x\<rfloor>; d = x - of_int f
      in if d < 1 / 2 \<or> (d = 1 / 2 \<and> even f) then f else f + 1)"

text \<open>The binary exponent of a positive number, the greatest \<open>e\<close> with \<open>2 powi e \<le> x\<close>.\<close>

lemma floor_halves: "1 \<le> x \<Longrightarrow> nat \<lfloor>x / 2\<rfloor> < nat \<lfloor>x :: rat\<rfloor>"
proof -
  assume x: "1 \<le> x"
  have "1 \<le> \<lfloor>x\<rfloor>" using x by (simp add: le_floor_iff)
  moreover have "\<lfloor>x / 2\<rfloor> < \<lfloor>x\<rfloor>"
  proof -
    have "x < of_int \<lfloor>x\<rfloor> + 1" by linarith
    moreover have "(1 :: rat) \<le> of_int \<lfloor>x\<rfloor>" using \<open>1 \<le> \<lfloor>x\<rfloor>\<close> by simp
    ultimately have "x / 2 < of_int \<lfloor>x\<rfloor>" by linarith
    then show ?thesis by (simp add: floor_less_iff)
  qed
  ultimately show ?thesis by linarith
qed

function exp_up :: "rat \<Rightarrow> int" where
  "exp_up x = (if 2 \<le> x then 1 + exp_up (x / 2) else 0)"
  by pat_completeness auto
termination
proof (relation "measure (\<lambda>x. nat \<lfloor>x\<rfloor>)")
  fix x :: rat
  assume "2 \<le> x"
  then have "nat \<lfloor>x / 2\<rfloor> < nat \<lfloor>x\<rfloor>" by (intro floor_halves) simp
  then show "(x / 2, x) \<in> measure (\<lambda>x. nat \<lfloor>x\<rfloor>)" by simp
qed simp

function exp_down :: "rat \<Rightarrow> int" where
  "exp_down x = (if 0 < x \<and> x < 1 then exp_down (2 * x) - 1 else 0)"
  by pat_completeness auto
termination
proof (relation "measure (\<lambda>x. nat \<lfloor>1 / x\<rfloor>)")
  fix x :: rat
  assume x: "0 < x \<and> x < 1"
  then have "1 \<le> 1 / x" by (simp add: field_simps)
  from floor_halves [OF this] show "(2 * x, x) \<in> measure (\<lambda>x. nat \<lfloor>1 / x\<rfloor>)"
    by (simp add: mult.commute)
qed simp

declare exp_up.simps [simp del] exp_down.simps [simp del]

definition exp2 :: "rat \<Rightarrow> int" where
  "exp2 x = (if 1 \<le> x then exp_up x else exp_down x)"

text \<open>The weight of the last of the 53 bits; the exponent stops at that of the subnormal numbers.\<close>

definition ulp :: "rat \<Rightarrow> rat" where
  "ulp x = 2 powi (max (- 1022) (exp2 x) - 52)"

definition round64 :: "rat \<Rightarrow> rat" where
  "round64 x =
     (if x = 0 then 0 else sgn x * (of_int (half_even (\<bar>x\<bar> / ulp \<bar>x\<bar>)) * ulp \<bar>x\<bar>))"

text \<open>The conversion \<open>int(f)\<close> truncates towards zero.\<close>

definition go_int :: "rat \<Rightarrow> int" where
  "go_int x = (if 0 \<le> x then \<lfloor>x\<rfloor> else \<lceil>x\<rceil>)"

section \<open>Rounding to an integer\<close>

lemma half_even_of_int [simp]: "half_even (of_int n) = n"
  by (simp add: half_even_def)

lemma half_even_floor: "\<lfloor>x\<rfloor> \<le> half_even x" "half_even x \<le> \<lfloor>x\<rfloor> + 1"
  by (simp_all add: half_even_def Let_def)

lemma half_even_mono:
  assumes "x \<le> y"
  shows "half_even x \<le> half_even y"
proof (cases "\<lfloor>x\<rfloor> = \<lfloor>y\<rfloor>")
  case True
  with assms show ?thesis by (auto simp: half_even_def Let_def)
next
  case False
  with floor_mono [OF assms] have "\<lfloor>x\<rfloor> + 1 \<le> \<lfloor>y\<rfloor>" by linarith
  with half_even_floor(2) [of x] half_even_floor(1) [of y] show ?thesis by linarith
qed

section \<open>The exponent\<close>

lemma exp_up_bounds: "1 \<le> x \<Longrightarrow> 2 powi exp_up x \<le> x \<and> x < 2 powi (exp_up x + 1)"
proof (induction x rule: exp_up.induct)
  case (1 x)
  show ?case
  proof (cases "2 \<le> x")
    case True
    with 1 have "2 powi exp_up (x / 2) \<le> x / 2" "x / 2 < 2 powi (exp_up (x / 2) + 1)" by simp_all
    moreover have "exp_up x = exp_up (x / 2) + 1" using True by (simp add: exp_up.simps [of x])
    ultimately show ?thesis by (simp add: power_int_add)
  next
    case False
    with 1 show ?thesis by (simp add: exp_up.simps [of x])
  qed
qed

lemma exp_up_nonneg: "0 \<le> exp_up x"
proof (induction x rule: exp_up.induct)
  case (1 x)
  then show ?case by (cases "2 \<le> x") (simp_all add: exp_up.simps [of x])
qed

lemma exp_down_bounds: "0 < x \<Longrightarrow> x < 2 \<Longrightarrow> 2 powi exp_down x \<le> x \<and> x < 2 powi (exp_down x + 1)"
proof (induction x rule: exp_down.induct)
  case (1 x)
  show ?case
  proof (cases "x < 1")
    case True
    with 1 have "2 powi exp_down (2 * x) \<le> 2 * x" "2 * x < 2 powi (exp_down (2 * x) + 1)" by simp_all
    moreover have "exp_down (2 * x) = exp_down x + 1"
      using True 1(2) by (simp add: exp_down.simps [of x])
    ultimately show ?thesis by (simp add: power_int_add)
  next
    case False
    with 1 show ?thesis by (simp add: exp_down.simps [of x])
  qed
qed

lemma exp2_bounds:
  assumes "0 < x"
  shows "2 powi exp2 x \<le> x" and "x < 2 powi (exp2 x + 1)"
  using assms exp_up_bounds [of x] exp_down_bounds [of x] by (auto simp: exp2_def)

lemma powi2_le_iff: "(2 :: rat) powi a \<le> 2 powi b \<longleftrightarrow> a \<le> b"
proof
  assume le: "(2 :: rat) powi a \<le> 2 powi b"
  show "a \<le> b"
  proof (rule ccontr)
    assume "\<not> a \<le> b"
    then have "(2 :: rat) powi b < 2 powi a" by (intro power_int_strict_increasing) auto
    with le show False by simp
  qed
qed (auto intro: power_int_increasing)

lemma exp2_mono:
  assumes "0 < x" and "x \<le> y"
  shows "exp2 x \<le> exp2 y"
proof -
  have "2 powi exp2 x \<le> x" using exp2_bounds(1) [OF assms(1)] .
  also have "\<dots> \<le> y" by fact
  also have "\<dots> < 2 powi (exp2 y + 1)" using exp2_bounds(2) [of y] assms by simp
  finally have "\<not> (2 :: rat) powi (exp2 y + 1) \<le> 2 powi exp2 x" by simp
  then show ?thesis by (simp add: powi2_le_iff)
qed

section \<open>Rounding to a double\<close>

lemma ulp_pos: "0 < ulp x"
  by (simp add: ulp_def)

lemma round64_pos: "0 < x \<Longrightarrow> round64 x = of_int (half_even (x / ulp x)) * ulp x"
  by (simp add: round64_def)

lemma round64_nonneg: "0 \<le> x \<Longrightarrow> 0 \<le> round64 x"
proof (cases "x = 0")
  case False
  assume "0 \<le> x"
  with False have x: "0 < x" by simp
  have "half_even (of_int 0) \<le> half_even (x / ulp x)"
    using x ulp_pos [of x] by (intro half_even_mono) simp
  then have "0 \<le> half_even (x / ulp x)" using half_even_of_int [of 0] by simp
  with x ulp_pos [of x] show ?thesis by (simp add: round64_pos)
qed (simp add: round64_def)

text \<open>A multiple of the unit of its binade is above the rounding of what is below it, and below \<dots>\<close>

lemma round64_le:
  assumes "0 < x" and "x \<le> of_int m * ulp x"
  shows "round64 x \<le> of_int m * ulp x"
proof -
  have "x / ulp x \<le> of_int m" using assms ulp_pos [of x] by (simp add: pos_divide_le_eq)
  from half_even_mono [OF this] have "half_even (x / ulp x) \<le> m" by simp
  with ulp_pos [of x] show ?thesis by (simp add: round64_pos [OF assms(1)] mult_right_mono)
qed

lemma round64_ge:
  assumes "0 < x" and "of_int m * ulp x \<le> x"
  shows "of_int m * ulp x \<le> round64 x"
proof -
  have "of_int m \<le> x / ulp x" using assms ulp_pos [of x] by (simp add: pos_le_divide_eq)
  from half_even_mono [OF this] have "m \<le> half_even (x / ulp x)" by simp
  with ulp_pos [of x] show ?thesis by (simp add: round64_pos [OF assms(1)] mult_right_mono)
qed

lemma round64_exact: "0 < x \<Longrightarrow> x = of_int m * ulp x \<Longrightarrow> round64 x = x"
  using round64_le [of x m] round64_ge [of x m] by simp

lemma ulp_times: "of_int (2 ^ k) * ulp x = 2 powi (max (- 1022) (exp2 x) - 52 + int k)"
  by (simp add: ulp_def power_int_add)

lemma round64_mono_pos:
  assumes x: "0 < x" and le: "x \<le> y"
  shows "round64 x \<le> round64 y"
proof -
  have y: "0 < y" using assms by simp
  let ?e = "\<lambda>z. max (- 1022) (exp2 z)"
  show ?thesis
  proof (cases "?e x = ?e y")
    case True
    then have "ulp x = ulp y" by (simp add: ulp_def)
    moreover have "half_even (x / ulp y) \<le> half_even (y / ulp y)"
      using le ulp_pos [of y] by (intro half_even_mono) (simp add: divide_right_mono)
    ultimately show ?thesis
      using ulp_pos [of y] by (simp add: round64_pos x y mult_right_mono)
  next
    case False
    with exp2_mono [OF x le] have e: "?e x + 1 \<le> ?e y" "?e y = exp2 y" by auto
    have "x \<le> 2 powi (exp2 x + 1)" using exp2_bounds(2) [OF x] by simp
    also have "\<dots> \<le> 2 powi (?e x + 1)" by (simp add: powi2_le_iff)
    also have "\<dots> = of_int (2 ^ 53) * ulp x" unfolding ulp_times by (simp add: algebra_simps)
    finally have "round64 x \<le> of_int (2 ^ 53) * ulp x" by (rule round64_le [OF x])
    also have "\<dots> = 2 powi (?e x + 1)" unfolding ulp_times by (simp add: algebra_simps)
    also have "\<dots> \<le> 2 powi exp2 y" using e by (simp add: powi2_le_iff)
    also have "\<dots> = of_int (2 ^ 52) * ulp y" unfolding ulp_times using e(2) by simp
    also have "\<dots> \<le> round64 y"
      using exp2_bounds(1) [OF y] e(2) by (intro round64_ge [OF y]) (simp only: ulp_times, simp)
    finally show ?thesis .
  qed
qed

lemma round64_mono:
  assumes "0 \<le> x" and "x \<le> y"
  shows "round64 x \<le> round64 y"
proof (cases "x = 0")
  case True
  with assms round64_nonneg [of y] show ?thesis by (simp add: round64_def)
next
  case False
  with assms round64_mono_pos [of x y] show ?thesis by simp
qed

text \<open>Integers below \<open>2 ^ 53\<close> are doubles.\<close>

lemma round64_int:
  assumes "0 \<le> n" and "n < 2 ^ 53"
  shows "round64 (of_int n) = of_int n"
proof (cases "n = 0")
  case True
  then show ?thesis by (simp add: round64_def)
next
  case False
  then have pos: "(0 :: rat) < of_int n" using assms by simp
  let ?e = "exp2 (of_int n)"
  have e0: "0 \<le> ?e" using False assms exp_up_nonneg by (simp add: exp2_def)
  have "(2 :: rat) powi ?e \<le> of_int n" using exp2_bounds(1) [OF pos] .
  also have "\<dots> < 2 ^ 53" using assms(2) by (metis of_int_less_iff of_int_numeral of_int_power)
  also have "(2 :: rat) ^ 53 = 2 powi 53" by (simp add: power_int_def)
  finally have "\<not> (2 :: rat) powi 53 \<le> 2 powi ?e" by simp
  then have e1: "?e \<le> 52" unfolding powi2_le_iff by simp
  have "of_int (n * 2 ^ nat (52 - ?e)) * ulp (of_int n) = (of_int n :: rat) * (2 powi (52 - ?e) * 2 powi (?e - 52))"
    using e0 e1 by (simp add: ulp_def power_int_def max_def)
  also have "\<dots> = of_int n" by (simp flip: power_int_add)
  finally show ?thesis by (rule round64_exact [OF pos sym])
qed

lemma go_int_nonneg: "0 \<le> x \<Longrightarrow> 0 \<le> go_int x"
  by (simp add: go_int_def)

lemma go_int_mono: "0 \<le> x \<Longrightarrow> x \<le> y \<Longrightarrow> go_int x \<le> go_int y"
  by (simp add: go_int_def floor_mono)

lemma go_int_of_int [simp]: "go_int (of_int n) = n"
  by (simp add: go_int_def)

text \<open>Evaluation on literals.\<close>

lemma floor_ratio: "\<lfloor>numeral a / numeral b :: rat\<rfloor> = numeral a div numeral b"
  using floor_divide_of_int_eq [of "numeral a" "numeral b", where 'a = rat] by simp

lemmas round64_eval = round64_def exp2_def ulp_def half_even_def power_int_def Let_def power_divide
  floor_ratio


section \<open>The index of a percentile\<close>

text \<open>The index of a percentile stays inside the list and grows with the fraction.\<close>

definition percentile_index :: "nat \<Rightarrow> rat \<Rightarrow> nat" where
  "percentile_index len p = nat (go_int (round64 (round64 (of_int (int len - 1)) * p)))"

lemma percentile_index_bound:
  assumes "0 < len" "len < 2 ^ 53" "0 \<le> p" "p \<le> 1"
  shows "percentile_index len p < len"
proof -
  let ?n = "int len - 1"
  have "len < 9007199254740992" using assms(2) by simp
  then have n: "0 \<le> ?n" "?n < 2 ^ 53" using assms(1) by simp_all
  have r: "round64 (of_int ?n) = of_int ?n" by (rule round64_int [OF n])
  have nn: "(0 :: rat) \<le> of_int ?n" using n(1) by simp
  have "of_int ?n * p \<le> of_int ?n * 1" using assms(4) nn by (rule mult_left_mono)
  then have "round64 (of_int ?n * p) \<le> round64 (of_int ?n)"
    using nn assms(3) by (intro round64_mono) simp_all
  then have "go_int (round64 (of_int ?n * p)) \<le> go_int (of_int ?n)"
    unfolding r using nn assms(3) by (intro go_int_mono round64_nonneg) simp_all
  then have "go_int (round64 (of_int ?n * p)) \<le> ?n" by (simp only: go_int_of_int)
  with assms(1) show ?thesis unfolding percentile_index_def r by linarith
qed

lemma percentile_index_mono:
  assumes "0 < len" "0 \<le> p" "p \<le> q"
  shows "percentile_index len p \<le> percentile_index len q"
proof -
  have nn: "(0 :: rat) \<le> round64 (of_int (int len - 1))" using assms(1) by (intro round64_nonneg) simp
  have "round64 (of_int (int len - 1)) * p \<le> round64 (of_int (int len - 1)) * q"
    using assms(3) nn by (rule mult_left_mono)
  then have "go_int (round64 (round64 (of_int (int len - 1)) * p)) \<le>
      go_int (round64 (round64 (of_int (int len - 1)) * q))"
    using nn assms(2) by (intro go_int_mono round64_mono round64_nonneg) simp_all
  then show ?thesis by (simp add: percentile_index_def)
qed

end
