(* ===== verification/Experiments.thy ===== *)
theory Experiments
  imports Cluster Float64 GoText "HOL-Library.Signed_Division"
begin

text \<open>
  The experiments of \<open>internal/experiments/experiments.go\<close>: replication staleness and causal chains,
  measured by a client of two nodes. The RPCs, the clock and sleeping are arguments that act on the
  state of the world; dialling and closing connections are not modelled.
\<close>

section \<open>Statistics\<close>

definition mean :: "rat list \<Rightarrow> rat" where
  "mean vals =
     (if vals = [] then 0
      else round64 (fold (\<lambda>v sum. round64 (sum + v)) vals 0 / round64 (of_int (int (length vals)))))"

text \<open>The two nested loops that sort the copy by exchanges.\<close>

definition exchange :: "nat \<Rightarrow> nat \<Rightarrow> rat list \<Rightarrow> rat list" where
  "exchange i j cp = (if cp ! j < cp ! i then cp[i := cp ! j, j := cp ! i] else cp)"

function sort_inner :: "nat \<Rightarrow> nat \<Rightarrow> rat list \<Rightarrow> rat list" where
  "sort_inner i j cp = (if j < length cp then sort_inner i (Suc j) (exchange i j cp) else cp)"
  by pat_completeness auto
termination
  by (relation "measure (\<lambda>(i, j, cp). length cp - j)") (auto simp: exchange_def)

declare sort_inner.simps [simp del]

lemma exchange_length [simp]: "length (exchange i j cp) = length cp"
  by (simp add: exchange_def)

lemma sort_inner_length [simp]: "length (sort_inner i j cp) = length cp"
proof (induction i j cp rule: sort_inner.induct)
  case (1 i j cp)
  then show ?case by (cases "j < length cp") (simp_all add: sort_inner.simps [of i j cp])
qed

function sort_outer :: "nat \<Rightarrow> rat list \<Rightarrow> rat list" where
  "sort_outer i cp = (if i < length cp then sort_outer (Suc i) (sort_inner i (Suc i) cp) else cp)"
  by pat_completeness auto
termination
  by (relation "measure (\<lambda>(i, cp). length cp - i)") auto

declare sort_outer.simps [simp del]

definition sample_percentile :: "rat list \<Rightarrow> rat \<Rightarrow> rat" where
  "sample_percentile vals p =
     (if vals = [] then 0
      else (let cp = sort_outer 0 vals
            in cp ! nat (go_int (round64 (round64 (of_int (int (length cp) - 1)) * p)))))"

section \<open>Staleness\<close>

record StalenessResult =
  st_Trials :: int
  Visible :: int
  MeanMs :: rat
  P95Ms :: rat
  Timeouts :: int
  SamplesMs :: "rat list"

definition bytes_of :: "string \<Rightarrow> bytes" where
  "bytes_of s = map of_char s"

type_synonym ('e, 'w) get_call = "GetRequest \<Rightarrow> 'w \<Rightarrow> ('e + GetResponse) \<times> 'w"
type_synonym ('e, 'w) put_call = "PutRequest \<Rightarrow> 'w \<Rightarrow> ('e + PutResponse) \<times> 'w"
type_synonym 'w clock_call = "'w \<Rightarrow> int64 \<times> 'w"

definition Milliseconds :: "int64 \<Rightarrow> int" where
  "Milliseconds d = sint d sdiv 1000000"

text \<open>
  The polling loop of one trial: an error, or whether the value became visible and after how many
  milliseconds; \<^const>\<open>None\<close> if it never ends.
\<close>

partial_function (option) staleness_poll ::
  "('e, 'w) get_call \<Rightarrow> 'w clock_call \<Rightarrow> ('w \<Rightarrow> 'w) \<Rightarrow> key \<Rightarrow> bytes \<Rightarrow> int64 \<Rightarrow> int64 \<Rightarrow> 'w \<Rightarrow>
   (('e + rat option) \<times> 'w) option" where
  "staleness_poll get time_now sleep key val start deadline w =
     (case time_now w of (t, w1) \<Rightarrow>
        if \<not> sint t < sint deadline then Some (Inr None, w1)
        else
          (case get \<lparr>get_Key = key\<rparr> w1 of
             (Inl e, w2) \<Rightarrow> Some (Inl e, w2)
           | (Inr resp, w2) \<Rightarrow>
               if getr_Found resp \<and> getr_Value resp = val then
                 (case time_now w2 of (t', w3) \<Rightarrow>
                    Some (Inr (Some (round64 (of_int (Milliseconds (t' - start))))), w3))
               else staleness_poll get time_now sleep key val start deadline (sleep w2)))"

fun staleness_loop ::
  "('e, 'w) put_call \<Rightarrow> ('e, 'w) get_call \<Rightarrow> 'w clock_call \<Rightarrow> ('w \<Rightarrow> 'w) \<Rightarrow> nat \<Rightarrow> int \<Rightarrow>
   StalenessResult \<Rightarrow> rat list \<Rightarrow> 'w \<Rightarrow> ((StalenessResult \<times> rat list \<times> 'e option) \<times> 'w) option" where
  "staleness_loop put get time_now sleep 0 i res samples w = Some ((res, samples, None), w)"
| "staleness_loop put get time_now sleep (Suc n) i res samples w =
     (let key = ''staleness-'' @ show_int i in
      case time_now w of (t, w1) \<Rightarrow>
      let val = bytes_of (''v-'' @ show_int i @ ''-'' @ show_int (sint t)) in
      case put \<lparr>put_Key = key, put_Value = val\<rparr> w1 of
        (Inl e, w2) \<Rightarrow> Some ((res, samples, Some e), w2)
      | (Inr _, w2) \<Rightarrow>
          (case time_now w2 of (t1, w3) \<Rightarrow>
           case time_now w3 of (start, w4) \<Rightarrow>
           case staleness_poll get time_now sleep key val start (t1 + 5000000000) w4 of
             None \<Rightarrow> None
           | Some (Inl e, w5) \<Rightarrow> Some ((res, samples, Some e), w5)
           | Some (Inr (Some elapsed), w5) \<Rightarrow>
               staleness_loop put get time_now sleep n (i + 1) (res\<lparr>Visible := Visible res + 1\<rparr>)
                 (samples @ [elapsed]) w5
           | Some (Inr None, w5) \<Rightarrow>
               staleness_loop put get time_now sleep n (i + 1) (res\<lparr>Timeouts := Timeouts res + 1\<rparr>)
                 samples w5))"

text \<open>
  \<^const>\<open>None\<close> also where the run panics: \<open>make\<close> refuses a negative number of trials as a capacity.
\<close>

definition MeasureStaleness ::
  "('e, 'w) put_call \<Rightarrow> ('e, 'w) get_call \<Rightarrow> 'w clock_call \<Rightarrow> ('w \<Rightarrow> 'w) \<Rightarrow> int \<Rightarrow> 'w \<Rightarrow>
   ((StalenessResult \<times> 'e option) \<times> 'w) option" where
  "MeasureStaleness put get time_now sleep trials w =
     (let res0 = \<lparr>st_Trials = trials, Visible = 0, MeanMs = 0, P95Ms = 0, Timeouts = 0, SamplesMs = []\<rparr> in
      if trials < 0 then None else
      case staleness_loop put get time_now sleep (nat trials) 0 res0 [] w of
        None \<Rightarrow> None
      | Some ((res, samples, Some e), w') \<Rightarrow> Some ((res, Some e), w')
      | Some ((res, samples, None), w') \<Rightarrow>
          Some ((if length samples > 0
                 then res\<lparr>SamplesMs := samples, MeanMs := mean samples,
                          P95Ms := sample_percentile samples (round64 (95 / 100))\<rparr>
                 else res\<lparr>SamplesMs := samples\<rparr>, None), w'))"

section \<open>Causal chains\<close>

record CausalChainResult =
  cc_Trials :: int
  Violations :: int
  TrialViolations :: "bool list"

partial_function (option) poll_loop ::
  "('e, 'w) get_call \<Rightarrow> 'w clock_call \<Rightarrow> ('w \<Rightarrow> 'w) \<Rightarrow> key \<Rightarrow> bytes \<Rightarrow> key \<Rightarrow> bytes \<Rightarrow> int64 \<Rightarrow> 'w \<Rightarrow>
   (bool \<times> 'w) option" where
  "poll_loop get time_now sleep keyA valA keyB valB deadline w =
     (case time_now w of (t, w1) \<Rightarrow>
        if \<not> sint t < sint deadline then Some (False, w1)
        else
          (case get \<lparr>get_Key = keyB\<rparr> w1 of
             (Inl _, w2) \<Rightarrow> Some (False, w2)
           | (Inr respB, w2) \<Rightarrow>
               (case get \<lparr>get_Key = keyA\<rparr> w2 of
                  (Inl _, w3) \<Rightarrow> Some (False, w3)
                | (Inr respA, w3) \<Rightarrow>
                    if getr_Found respB \<and> getr_Value respB = valB then
                      if \<not> getr_Found respA \<or> getr_Value respA \<noteq> valA then Some (True, w3)
                      else Some (False, w3)
                    else poll_loop get time_now sleep keyA valA keyB valB deadline (sleep w3))))"

definition pollCausalViolation ::
  "('e, 'w) get_call \<Rightarrow> 'w clock_call \<Rightarrow> ('w \<Rightarrow> 'w) \<Rightarrow> key \<Rightarrow> bytes \<Rightarrow> key \<Rightarrow> bytes \<Rightarrow> int64 \<Rightarrow> 'w \<Rightarrow>
   (bool \<times> 'w) option" where
  "pollCausalViolation get time_now sleep keyA valA keyB valB window w =
     (case time_now w of (t, w1) \<Rightarrow>
        poll_loop get time_now sleep keyA valA keyB valB (t + window) w1)"

fun chain_loop ::
  "('e, 'w) put_call \<Rightarrow> ('e, 'w) get_call \<Rightarrow> ('e, 'w) get_call \<Rightarrow> 'w clock_call \<Rightarrow> ('w \<Rightarrow> 'w) \<Rightarrow> nat \<Rightarrow>
   int \<Rightarrow> CausalChainResult \<Rightarrow> 'w \<Rightarrow> ((CausalChainResult \<times> 'e option) \<times> 'w) option" where
  "chain_loop put oget rget time_now sleep 0 i res w = Some ((res, None), w)"
| "chain_loop put oget rget time_now sleep (Suc n) i res w =
     (let keyA = ''chain-a-'' @ show_int i; keyB = ''chain-b-'' @ show_int i;
          valA = bytes_of (''a-'' @ show_int i); valB = bytes_of (''b-'' @ show_int i) in
      case put \<lparr>put_Key = keyA, put_Value = valA\<rparr> w of
        (Inl e, w1) \<Rightarrow> Some ((res, Some e), w1)
      | (Inr _, w1) \<Rightarrow>
        (case oget \<lparr>get_Key = keyA\<rparr> w1 of
          (Inl e, w2) \<Rightarrow> Some ((res, Some e), w2)
        | (Inr _, w2) \<Rightarrow>
          (case put \<lparr>put_Key = keyB, put_Value = valB\<rparr> w2 of
            (Inl e, w3) \<Rightarrow> Some ((res, Some e), w3)
          | (Inr _, w3) \<Rightarrow>
            (case pollCausalViolation rget time_now sleep keyA valA keyB valB 500000000 w3 of
               None \<Rightarrow> None
             | Some (violated, w4) \<Rightarrow>
                 chain_loop put oget rget time_now sleep n (i + 1)
                   (res\<lparr>TrialViolations := TrialViolations res @ [violated],
                        Violations := (if violated then Violations res + 1 else Violations res)\<rparr>) w4))))"

definition MeasureCausalChains ::
  "('e, 'w) put_call \<Rightarrow> ('e, 'w) get_call \<Rightarrow> ('e, 'w) get_call \<Rightarrow> 'w clock_call \<Rightarrow> ('w \<Rightarrow> 'w) \<Rightarrow> int \<Rightarrow>
   'w \<Rightarrow> ((CausalChainResult \<times> 'e option) \<times> 'w) option" where
  "MeasureCausalChains put oget rget time_now sleep trials w =
     (if trials < 0 then None
      else chain_loop put oget rget time_now sleep (nat trials) 0
        \<lparr>cc_Trials = trials, Violations = 0, TrialViolations = []\<rparr> w)"

section \<open>The sort\<close>

definition settled_below :: "nat \<Rightarrow> rat list \<Rightarrow> bool" where
  "settled_below i cp \<longleftrightarrow> (\<forall>a b. a < i \<and> a < b \<and> b < length cp \<longrightarrow> cp ! a \<le> cp ! b)"

lemma exchange_mset: "i < length cp \<Longrightarrow> j < length cp \<Longrightarrow> mset (exchange i j cp) = mset cp"
  by (simp add: exchange_def mset_swap)

lemma exchange_settled:
  assumes "settled_below i cp" "i < j" "j < length cp"
  shows "settled_below i (exchange i j cp)"
  using assms by (auto simp: settled_below_def exchange_def nth_list_update)

lemma exchange_least:
  assumes "\<forall>b. i < b \<and> b < j \<longrightarrow> cp ! i \<le> cp ! b" "i < j" "j < length cp"
  shows "\<forall>b. i < b \<and> b < Suc j \<longrightarrow> exchange i j cp ! i \<le> exchange i j cp ! b"
  using assms by (auto simp: exchange_def nth_list_update less_Suc_eq intro: order_trans less_imp_le)

lemma sort_inner_settles:
  assumes "settled_below i cp" "\<forall>b. i < b \<and> b < j \<longrightarrow> cp ! i \<le> cp ! b" "i < j"
  shows "settled_below (Suc i) (sort_inner i j cp) \<and> mset (sort_inner i j cp) = mset cp"
  using assms
proof (induction i j cp rule: sort_inner.induct)
  case (1 i j cp)
  show ?case
  proof (cases "j < length cp")
    case True
    with 1 exchange_settled [of i cp j] exchange_least [of i j cp] exchange_mset [of i cp j]
    show ?thesis by (simp add: sort_inner.simps [of i j cp])
  next
    case False
    with 1(2-4) show ?thesis
      by (auto simp: sort_inner.simps [of i j cp] settled_below_def less_Suc_eq)
  qed
qed

lemma sort_outer_settles:
  assumes "settled_below i cp"
  shows "settled_below (length cp) (sort_outer i cp) \<and> mset (sort_outer i cp) = mset cp"
  using assms
proof (induction i cp rule: sort_outer.induct)
  case (1 i cp)
  show ?case
  proof (cases "i < length cp")
    case True
    with 1 sort_inner_settles [OF 1(2), of "Suc i"] show ?thesis
      by (auto simp: sort_outer.simps [of i cp])
  next
    case False
    with 1(2) show ?thesis by (auto simp: sort_outer.simps [of i cp] settled_below_def)
  qed
qed

lemma sort_outer_eq: "sort_outer 0 vals = sort vals"
proof -
  have "settled_below 0 vals" by (simp add: settled_below_def)
  note facts = sort_outer_settles [OF this]
  then have len: "length (sort_outer 0 vals) = length vals" by (metis size_mset)
  have "sorted (sort_outer 0 vals)"
    using facts len by (auto simp: sorted_iff_nth_mono_less settled_below_def)
  with facts show ?thesis by (metis properties_for_sort)
qed

section \<open>The counts\<close>

text \<open>Every finished trial is counted once, and a sample is kept for each visible one.\<close>

lemma staleness_loop_counts:
  assumes "staleness_loop put get time_now sleep n i res samples w = Some ((res', samples', None), w')"
  shows "Visible res' + Timeouts res' = Visible res + Timeouts res + int n \<and>
    Visible res' - int (length samples') = Visible res - int (length samples) \<and>
    Visible res \<le> Visible res' \<and> Timeouts res \<le> Timeouts res' \<and> st_Trials res' = st_Trials res"
  using assms
  by (induction n arbitrary: i res samples w)
    (fastforce simp: Let_def split: prod.splits sum.splits option.splits)+

lemma chain_loop_counts:
  assumes "chain_loop put oget rget time_now sleep n i res w = Some ((res', None), w')"
    and "Violations res = int (length (filter id (TrialViolations res)))"
  shows "length (TrialViolations res') = length (TrialViolations res) + n \<and>
    Violations res' = int (length (filter id (TrialViolations res')))"
  using assms
  by (induction n arbitrary: i res w)
    (fastforce simp: Let_def split: prod.splits sum.splits option.splits if_splits)+

lemma sint_add_small:
  "0 \<le> sint d \<Longrightarrow> sint t + sint d < 2 ^ 63 \<Longrightarrow> sint (t + d) = sint t + sint (d :: int64)"
  using sint_greater_eq [of t] by (simp add: sint_word_ariths signed_take_bit_int_eq_self)

section \<open>The staleness poll returns\<close>

text \<open>One round of the poll that finds nothing: the clock, a read and the sleep.\<close>

definition poll_round :: "('e, 'w) get_call \<Rightarrow> 'w clock_call \<Rightarrow> ('w \<Rightarrow> 'w) \<Rightarrow> key \<Rightarrow> 'w \<Rightarrow> 'w" where
  "poll_round get time_now sleep key w = sleep (snd (get \<lparr>get_Key = key\<rparr> (snd (time_now w))))"

text \<open>
  What ends it: before a horizon, a read and the sleep after it take time together. The rounds before
  the last begin in time and read something else; the last finds the deadline passed, or its read
  fails or shows the value.
\<close>

locale ticking =
  fixes get :: "('e, 'w) get_call" and time_now :: "'w clock_call" and sleep :: "'w \<Rightarrow> 'w"
    and time :: "'w \<Rightarrow> int" and horizon :: int
  assumes reading: "sint (fst (time_now w)) = time w" "time (snd (time_now w)) = time w"
    and tick: "time w < horizon \<Longrightarrow> time w < time (sleep (snd (get r w)))"
begin

lemma staleness_poll_rounds:
  assumes "sint deadline \<le> horizon"
  shows "\<exists>k r w'. staleness_poll get time_now sleep key val start deadline w = Some (r, w') \<and>
    (\<forall>j<k. let v = snd (time_now ((poll_round get time_now sleep key ^^ j) w)) in
       time v < sint deadline \<and> (\<exists>resp. fst (get \<lparr>get_Key = key\<rparr> v) = Inr resp \<and>
         \<not> (getr_Found resp \<and> getr_Value resp = val))) \<and>
    (let v = snd (time_now ((poll_round get time_now sleep key ^^ k) w)) in
       if sint deadline \<le> time v then r = Inr None \<and> w' = v
       else (case get \<lparr>get_Key = key\<rparr> v of
           (Inl e, v') \<Rightarrow> r = Inl e \<and> w' = v'
         | (Inr resp, v') \<Rightarrow> getr_Found resp \<and> getr_Value resp = val \<and>
             (case time_now v' of (t, w3) \<Rightarrow>
                r = Inr (Some (round64 (of_int (Milliseconds (t - start))))) \<and> w' = w3)))"
    (is "\<exists>k r w'. ?run w r w' \<and> ?before k w \<and> ?last k r w w'")
proof (induction "nat (sint deadline - time w)" arbitrary: w rule: less_induct)
  case less
  obtain t w1 where now: "time_now w = (t, w1)" by (rule prod.exhaust)
  have t: "sint t = time w" "time w1 = time w" using reading [of w] now by simp_all
  obtain r w2 where read: "get \<lparr>get_Key = key\<rparr> w1 = (r, w2)" by (rule prod.exhaust)
  obtain t' w3 where later: "time_now w2 = (t', w3)" by (rule prod.exhaust)
  note unfold = staleness_poll.simps [of get time_now sleep key val start deadline w]
  have ended: ?case if "?run w r' w'" "?last 0 r' w w'" for r' w'
    using that by (intro exI [of _ "0 :: nat"] exI [of _ r'] exI [of _ w']) simp
  consider "\<not> sint t < sint deadline" | e where "sint t < sint deadline" "r = Inl e"
    | resp where "sint t < sint deadline" "r = Inr resp" "getr_Found resp" "getr_Value resp = val"
    | resp where "sint t < sint deadline" "r = Inr resp" "\<not> (getr_Found resp \<and> getr_Value resp = val)"
    by (cases r) auto
  then show ?case
  proof cases
    case 1
    then have "?run w (Inr None) w1" unfolding unfold by (simp add: now)
    moreover have "?last 0 (Inr None) w w1" using 1 t by (simp add: now)
    ultimately show ?thesis by (rule ended)
  next
    case (2 e)
    then have "?run w (Inl e) w2" unfolding unfold by (simp add: now read)
    moreover have "?last 0 (Inl e) w w2" using 2 t by (simp add: now read)
    ultimately show ?thesis by (rule ended)
  next
    case (3 resp)
    let ?r = "Inr (Some (round64 (of_int (Milliseconds (t' - start)))))"
    from 3 have "?run w ?r w3" unfolding unfold by (simp add: now read later)
    moreover have "?last 0 ?r w w3" using 3 t by (simp add: now read later)
    ultimately show ?thesis by (rule ended)
  next
    case (4 resp)
    have round: "poll_round get time_now sleep key w = sleep w2" by (simp add: poll_round_def now read)
    have "time w1 < horizon" using t assms 4(1) by simp
    from tick [OF this, of "\<lparr>get_Key = key\<rparr>"] read t 4(1)
    have "nat (sint deadline - time (sleep w2)) < nat (sint deadline - time w)" by simp
    from less.hyps [OF this] obtain k r' w' where
      again: "?run (sleep w2) r' w'" "?before k (sleep w2)" "?last k r' (sleep w2) w'" by blast
    have "staleness_poll get time_now sleep key val start deadline w =
        staleness_poll get time_now sleep key val start deadline (sleep w2)"
      unfolding unfold using 4 by (auto simp: now read)
    then have "?run w r' w'" using again(1) by simp
    moreover have "?before (Suc k) w"
    proof (intro allI impI)
      fix j
      assume "j < Suc k"
      then consider "j = 0" | j' where "j = Suc j'" "j' < k" by (cases j) auto
      then show "let v = snd (time_now ((poll_round get time_now sleep key ^^ j) w)) in
          time v < sint deadline \<and> (\<exists>resp. fst (get \<lparr>get_Key = key\<rparr> v) = Inr resp \<and>
            \<not> (getr_Found resp \<and> getr_Value resp = val))"
      proof cases
        case 1
        with 4 t show ?thesis by (auto simp: now read)
      next
        case 2
        with again(2) show ?thesis by (simp add: funpow_Suc_right round del: funpow.simps)
      qed
    qed
    moreover have "?last (Suc k) r' w w'"
      using again(3) by (simp add: funpow_Suc_right round del: funpow.simps)
    ultimately show ?thesis by blast
  qed
qed

end

section \<open>The poll for violations\<close>

text \<open>
  A client whose reads take no time and whose sleep takes two milliseconds: its poll ends by the
  first pass after the deadline.
\<close>

locale paced_client =
  fixes get :: "('e, 'w) get_call" and time_now :: "'w clock_call" and sleep :: "'w \<Rightarrow> 'w"
    and time :: "'w \<Rightarrow> int"
  assumes reading: "sint (fst (time_now w)) = time w" "snd (time_now w) = w"
    and read_time: "time (snd (get r w)) = time w"
    and sleep_time: "time w + 2000000 < 2 ^ 63 \<Longrightarrow> time (sleep w) = time w + 2000000"
begin

lemma time_now_eq: "time_now w = (fst (time_now w), w)"
  using reading(2) [of w] by (simp add: prod_eq_iff)

text \<open>One pass, with the two reads and what they leave.\<close>

lemma poll_unfold:
  "poll_loop get time_now sleep kA vA kB vB deadline w =
     (if \<not> time w < sint deadline then Some (False, w)
      else
        (case get \<lparr>get_Key = kB\<rparr> w of
           (Inl _, w2) \<Rightarrow> Some (False, w2)
         | (Inr respB, w2) \<Rightarrow>
             (case get \<lparr>get_Key = kA\<rparr> w2 of
                (Inl _, w3) \<Rightarrow> Some (False, w3)
              | (Inr respA, w3) \<Rightarrow>
                  if getr_Found respB \<and> getr_Value respB = vB
                  then Some (\<not> getr_Found respA \<or> getr_Value respA \<noteq> vA, w3)
                  else poll_loop get time_now sleep kA vA kB vB deadline (sleep w3))))"
  using poll_loop.simps [of get time_now sleep kA vA kB vB deadline w]
  by (subst (asm) time_now_eq) (auto simp: reading(1) split: prod.split sum.split)

lemma poll_step_time:
  assumes "time w < sint deadline" and "sint deadline + 2000000 \<le> 2 ^ 63"
    and "get r w = (x, w2)" and "get r' w2 = (y, w3)"
  shows "time (sleep w3) = time w + 2000000"
    and "nat (sint deadline - time (sleep w3)) < nat (sint deadline - time w)"
proof -
  have "time w3 = time w" using read_time [of r w] read_time [of r' w2] assms(3,4) by simp
  moreover have "time w + 2000000 < 2 ^ 63" using assms(1,2) by simp
  ultimately show "time (sleep w3) = time w + 2000000" using sleep_time [of w3] by simp
  with assms(1) show "nat (sint deadline - time (sleep w3)) < nat (sint deadline - time w)" by simp
qed

text \<open>It returns, and keeps what every read and the sleep keep.\<close>

lemma poll_returns:
  assumes "sint deadline + 2000000 \<le> 2 ^ 63"
    and kept: "\<And>r w. I w \<Longrightarrow> I (snd (get r w))" "\<And>w. I w \<Longrightarrow> I (sleep w)" and "I w"
  shows "\<exists>b w'. poll_loop get time_now sleep kA vA kB vB deadline w = Some (b, w') \<and> I w' \<and>
    time w' \<le> max (time w) (sint deadline + 2000000)"
  using assms(4)
proof (induction "nat (sint deadline - time w)" arbitrary: w rule: less_induct)
  case less
  obtain x w2 where B: "get \<lparr>get_Key = kB\<rparr> w = (x, w2)" by (rule prod.exhaust)
  obtain y w3 where A: "get \<lparr>get_Key = kA\<rparr> w2 = (y, w3)" by (rule prod.exhaust)
  have I: "I w2" "I w3" using kept(1) [OF less.prems] kept(1) [of w2] B A by (metis snd_conv)+
  have t: "time w2 = time w" "time w3 = time w"
    using read_time [of _ w] read_time [of _ w2] B A by (metis snd_conv)+
  show ?case
  proof (cases "time w < sint deadline")
    case True
    have "\<exists>b w'. poll_loop get time_now sleep kA vA kB vB deadline (sleep w3) = Some (b, w') \<and> I w' \<and>
        time w' \<le> max (time w) (sint deadline + 2000000)"
      using less.hyps [OF poll_step_time(2) [OF True assms(1) B A] kept(2) [OF I(2)]]
        poll_step_time(1) [OF True assms(1) B A] True by fastforce
    with True B A I t show ?thesis by (subst poll_unfold) (auto split: sum.split)
  next
    case False
    with less.prems show ?thesis by (subst poll_unfold) (auto intro: exI [of _ False])
  qed
qed

lemma pollCausalViolation_eq:
  "pollCausalViolation get time_now sleep kA vA kB vB window w =
     poll_loop get time_now sleep kA vA kB vB (fst (time_now w) + window) w"
  unfolding pollCausalViolation_def by (subst time_now_eq) simp

lemma pollCausalViolation_returns:
  assumes "0 \<le> sint window" and "time w + sint window + 2000000 \<le> 2 ^ 63"
    and kept: "\<And>r w. I w \<Longrightarrow> I (snd (get r w))" "\<And>w. I w \<Longrightarrow> I (sleep w)" and "I w"
  shows "\<exists>b w'. pollCausalViolation get time_now sleep kA vA kB vB window w = Some (b, w') \<and> I w' \<and>
    time w' \<le> time w + sint window + 2000000"
proof -
  have "sint (fst (time_now w) + window) = time w + sint window"
    using sint_add_small [of window "fst (time_now w)"] assms(1,2) reading(1) [of w] by simp
  with poll_returns [OF _ kept assms(5), of "fst (time_now w) + window" kA vA kB vB] assms(1,2) show ?thesis
    by (simp add: pollCausalViolation_eq max_def split: if_splits)
qed

end

text \<open>
  A client in front of a system that keeps order: where the second value is seen, the first is
  there from then on, with its value.
\<close>

locale ordered_client = paced_client +
  fixes ok :: "'b \<Rightarrow> bool" and has :: "'b \<Rightarrow> bool" and kA :: key and vA :: bytes and kB :: key and vB :: bytes
  assumes second: "ok w \<Longrightarrow> \<exists>resp. fst (get \<lparr>get_Key = kB\<rparr> w) = Inr resp \<and>
      (getr_Found resp \<and> getr_Value resp = vB \<longrightarrow> has (snd (get \<lparr>get_Key = kB\<rparr> w)))"
    and first: "ok w \<Longrightarrow> \<exists>resp. fst (get \<lparr>get_Key = kA\<rparr> w) = Inr resp \<and>
      (has w \<longrightarrow> getr_Found resp \<and> getr_Value resp = vA)"
    and kept: "ok w \<Longrightarrow> ok (snd (get r w))" "ok w \<Longrightarrow> ok (sleep w)"
begin

lemma poll_finds_order:
  assumes "ok w" and "sint deadline + 2000000 \<le> 2 ^ 63"
  shows "\<exists>w'. poll_loop get time_now sleep kA vA kB vB deadline w = Some (False, w') \<and> ok w' \<and>
    time w' \<le> max (time w) (sint deadline + 2000000)"
  using assms(1)
proof (induction "nat (sint deadline - time w)" arbitrary: w rule: less_induct)
  case less
  obtain x w2 where B: "get \<lparr>get_Key = kB\<rparr> w = (x, w2)" by (rule prod.exhaust)
  obtain y w3 where A: "get \<lparr>get_Key = kA\<rparr> w2 = (y, w3)" by (rule prod.exhaust)
  have ok: "ok w2" "ok w3" using kept(1) [OF less.prems] kept(1) [of w2] B A by (metis snd_conv)+
  have t: "time w2 = time w" "time w3 = time w"
    using read_time [of _ w] read_time [of _ w2] B A by (metis snd_conv)+
  obtain rB where rB: "x = Inr rB" "getr_Found rB \<and> getr_Value rB = vB \<longrightarrow> has w2"
    using second [OF less.prems] B by auto
  obtain rA where rA: "y = Inr rA" "has w2 \<longrightarrow> getr_Found rA \<and> getr_Value rA = vA"
    using first [OF ok(1)] A by auto
  show ?case
  proof (cases "time w < sint deadline")
    case True
    have again: "\<exists>w'. poll_loop get time_now sleep kA vA kB vB deadline (sleep w3) = Some (False, w') \<and> ok w' \<and>
        time w' \<le> max (time w) (sint deadline + 2000000)"
      using less.hyps [OF poll_step_time(2) [OF True assms(2) B A] kept(2) [OF ok(2)]]
        poll_step_time(1) [OF True assms(2) B A] True by fastforce
    show ?thesis
    proof (cases "getr_Found rB \<and> getr_Value rB = vB")
      case seen: True
      with rB rA True ok t B A show ?thesis by (subst poll_unfold) auto
    next
      case False
      with rB rA True again B A show ?thesis by (subst poll_unfold) auto
    qed
  next
    case False
    with less.prems show ?thesis by (subst poll_unfold) simp
  qed
qed

lemma poll_finds_no_violation:
  assumes "ok w" and "0 \<le> sint window" and "time w + sint window + 2000000 \<le> 2 ^ 63"
  shows "\<exists>w'. pollCausalViolation get time_now sleep kA vA kB vB window w = Some (False, w') \<and> ok w' \<and>
    time w' \<le> time w + sint window + 2000000"
proof -
  have "sint (fst (time_now w) + window) = time w + sint window"
    using sint_add_small [of window "fst (time_now w)"] assms(2,3) reading(1) [of w] by simp
  with poll_finds_order [OF assms(1), of "fst (time_now w) + window"] assms(2,3) show ?thesis
    by (simp add: pollCausalViolation_eq max_def split: if_splits)
qed

end

section \<open>Properties\<close>

text \<open>
  The percentile of the samples is an element of them, the one at the computed index of their
  ascending order: the exchange sort sorts, on a copy, and the index stays in range for fractions
  up to one and fewer than \<open>2 ^ 53\<close> samples.
\<close>

theorem sample_percentile_sorts:
  assumes "vals \<noteq> []" and "0 \<le> p" and "p \<le> 1" and "length vals < 2 ^ 53"
  shows "sort_outer 0 vals = sort vals \<and> percentile_index (length vals) p < length vals \<and>
    sample_percentile vals p = sort vals ! percentile_index (length vals) p \<and>
    sample_percentile vals p \<in> set vals"
proof -
  have idx: "percentile_index (length vals) p < length vals"
    using assms by (intro percentile_index_bound) auto
  moreover have eq: "sample_percentile vals p = sort vals ! percentile_index (length vals) p"
    using assms(1) by (simp add: sample_percentile_def sort_outer_eq percentile_index_def)
  moreover have "sort vals ! percentile_index (length vals) p \<in> set (sort vals)"
    using idx by (intro nth_mem) simp
  ultimately show ?thesis by (simp add: sort_outer_eq)
qed

theorem sample_percentile_sorts_witness:
  "sample_percentile [30, 10, 20] (round64 (95 / 100)) \<in> {10, 20, 30 :: rat}"
proof -
  have "0 \<le> round64 (95 / 100)" by (rule round64_nonneg) simp
  moreover have "round64 (95 / 100) \<le> 1" using round64_mono [of "95 / 100" 1] round64_int [of 1] by simp
  ultimately show ?thesis using sample_percentile_sorts [of "[30, 10, 20]" "round64 (95 / 100)"] by auto
qed

end
