(* ===== verification/Replica.thy ===== *)
theory Replica
  imports Experiments
begin

text \<open>
  The polling loops of the experiments on a modelled replica: the world of the client is a time,
  a node and the replicated writes that arrive at it.
\<close>

section \<open>A replica as the world of the polling client\<close>

text \<open>
  A time, the replica and the batches of replicated writes that arrive before the next reads, one
  batch before each. A read delivers its batch and runs the node's handler; sleeping takes two
  milliseconds.
\<close>

type_synonym replica_world = "int64 \<times> nat Node \<times> (key \<times> Value) list list"

definition deliver_batch :: "(key \<times> Value) list \<Rightarrow> nat Node \<Rightarrow> nat Node" where
  "deliver_batch b n = fold (\<lambda>(k, v) n. snd (deliver_value k v n)) b n"

fun replica_get :: "(node_error, replica_world) get_call" where
  "replica_get req (t, n, bs) =
     (case Node_Get req (case bs of [] \<Rightarrow> n | b # _ \<Rightarrow> deliver_batch b n) of
        (resp, n') \<Rightarrow> (Inr resp, (t, n', tl bs)))"

fun replica_time :: "replica_world clock_call" where
  "replica_time (t, n, bs) = (t, (t, n, bs))"

fun replica_sleep :: "replica_world \<Rightarrow> replica_world" where
  "replica_sleep (t, n, bs) = (t + 2000000, n, bs)"

text \<open>The staleness poll sleeps for five milliseconds; time stays below the limit of \<open>int64\<close>.\<close>

fun replica_nap :: "replica_world \<Rightarrow> replica_world" where
  "replica_nap (t, n, bs) = (t + 5000000, n, bs)"

lemma replica_get_time: "fst (snd (replica_get req w)) = fst w"
  by (cases w) (simp add: split_beta)

lemma replica_nap_time: "sint (fst w) < 2 ^ 63 - 5000000 \<Longrightarrow> sint (fst w) < sint (fst (replica_nap w))"
  using sint_add_small [of 5000000 "fst w"] by (cases w) simp

interpretation replica_polled: ticking replica_get replica_time replica_nap "\<lambda>w. sint (fst w)" "2 ^ 63 - 5000000"
proof
  fix w :: replica_world and r
  show "sint (fst (replica_time w)) = sint (fst w)" "sint (fst (snd (replica_time w))) = sint (fst w)"
    by (cases w; simp)+
  show "sint (fst w) < 2 ^ 63 - 5000000 \<Longrightarrow> sint (fst w) < sint (fst (replica_nap (snd (replica_get r w))))"
    using replica_nap_time [of "snd (replica_get r w)"] by (simp only: replica_get_time)
qed

text \<open>
  The world after some rounds of a poll: a read touches nothing but the tracker, which no delivery
  looks at.
\<close>

lemma deliver_value_Tracker:
  "snd (deliver_value k v (n\<lparr>Tracker := x\<rparr>)) = (snd (deliver_value k v n))\<lparr>Tracker := x\<rparr>"
  by (simp add: deliver_value_def split_beta split: option.split)

lemma deliver_batch_Tracker: "deliver_batch b (n\<lparr>Tracker := x\<rparr>) = (deliver_batch b n)\<lparr>Tracker := x\<rparr>"
proof (induction b arbitrary: n)
  case (Cons p b)
  then show ?case by (cases p) (simp add: deliver_batch_def deliver_value_Tracker)
qed (simp add: deliver_batch_def)

lemma deliver_batch_append: "deliver_batch (b @ b') n = deliver_batch b' (deliver_batch b n)"
  by (simp add: deliver_batch_def)

lemma Node_Get_Tracker:
  "\<exists>y. snd (Node_Get req (n\<lparr>Tracker := x\<rparr>)) = n\<lparr>Tracker := y\<rparr>"
  "fst (Node_Get req (n\<lparr>Tracker := x\<rparr>)) = fst (Node_Get req n)"
  by (cases n; auto simp: Node_Get_def Let_def split: option.split)+

lemma replica_round:
  "poll_round replica_get replica_time replica_nap key w = replica_nap (snd (replica_get \<lparr>get_Key = key\<rparr> w))"
  by (cases w) (simp add: poll_round_def)

lemma replica_rounds_read:
  "\<exists>x. replica_get \<lparr>get_Key = key\<rparr> ((poll_round replica_get replica_time replica_nap key ^^ j) (t, n, bs)) =
     (Inr (fst (Node_Get \<lparr>get_Key = key\<rparr> (deliver_batch (concat (take (Suc j) bs)) n))),
      (t + of_nat j * 5000000, (deliver_batch (concat (take (Suc j) bs)) n)\<lparr>Tracker := x\<rparr>, drop (Suc j) bs))"
proof (induction j)
  case 0
  let ?n = "case bs of [] \<Rightarrow> n | b # _ \<Rightarrow> deliver_batch b n"
  have "?n = deliver_batch (concat (take (Suc 0) bs)) n" by (cases bs) (simp_all add: deliver_batch_def)
  moreover obtain y where "snd (Node_Get \<lparr>get_Key = key\<rparr> ?n) = ?n\<lparr>Tracker := y\<rparr>"
    using Node_Get_Tracker(1) [where n = ?n and x = "Tracker ?n" and req = "\<lparr>get_Key = key\<rparr>"] by auto
  ultimately show ?case by (simp add: split_beta drop_Suc) blast
next
  case (Suc j)
  let ?m = "deliver_batch (concat (take (Suc j) bs)) n"
  let ?n = "deliver_batch (concat (take (Suc (Suc j)) bs)) n"
  obtain x where get: "snd (replica_get \<lparr>get_Key = key\<rparr> ((poll_round replica_get replica_time replica_nap key ^^ j)
      (t, n, bs))) = (t + of_nat j * 5000000, ?m\<lparr>Tracker := x\<rparr>, drop (Suc j) bs)"
    using Suc by (metis snd_conv)
  have w: "(poll_round replica_get replica_time replica_nap key ^^ Suc j) (t, n, bs) =
      (t + of_nat (Suc j) * 5000000, ?m\<lparr>Tracker := x\<rparr>, drop (Suc j) bs)"
    by (simp add: replica_round get algebra_simps)
  have "(case drop (Suc j) bs of [] \<Rightarrow> ?m\<lparr>Tracker := x\<rparr> | b # _ \<Rightarrow> deliver_batch b (?m\<lparr>Tracker := x\<rparr>)) =
      ?n\<lparr>Tracker := x\<rparr>"
  proof (cases "drop (Suc j) bs")
    case Nil
    then show ?thesis by simp
  next
    case (Cons b bs')
    then have "take (Suc (Suc j)) bs = take (Suc j) bs @ [b]"
      by (metis Cons_nth_drop_Suc drop_eq_Nil2 list.distinct(1) list.inject not_less take_Suc_conv_app_nth)
    with Cons show ?thesis by (simp add: deliver_batch_append deliver_batch_Tracker)
  qed
  moreover obtain y where "snd (Node_Get \<lparr>get_Key = key\<rparr> (?n\<lparr>Tracker := x\<rparr>)) = ?n\<lparr>Tracker := y\<rparr>"
    using Node_Get_Tracker(1) by blast
  ultimately show ?case
    unfolding w replica_get.simps by (simp add: split_beta Node_Get_Tracker(2) drop_Suc tl_drop) blast
qed

text \<open>
  The writes of one trial: the first key is only ever written with its value, and a write of the
  second value depends on a version of the first key.
\<close>

definition chained :: "key \<Rightarrow> bytes \<Rightarrow> key \<Rightarrow> bytes \<Rightarrow> key \<times> Value \<Rightarrow> bool" where
  "chained keyA valA keyB valB x \<longleftrightarrow>
     zero_Timestamp \<le> ValTS (snd x) \<and>
     (fst x = keyA \<longrightarrow> \<not> Deleted (snd x) \<and> Data (snd x) = valA) \<and>
     (fst x = keyB \<and> \<not> Deleted (snd x) \<and> Data (snd x) = valB \<longrightarrow>
        (\<exists>ts > zero_Timestamp. \<lparr>DepKey = keyA, MinTS = ts\<rparr> \<in> set (Deps (snd x))))"

definition replica_ok :: "(key \<times> Value \<Rightarrow> bool) \<Rightarrow> nat Node \<Rightarrow> bool" where
  "replica_ok P n \<longleftrightarrow> Mode n = ''causal'' \<and> buffered n \<and> causally_closed (NStore n) \<and>
     nonneg_store (NStore n) \<and> (\<forall>k u. store_data (NStore n) k = Some u \<longrightarrow> P (k, u)) \<and>
     (\<forall>p \<in> set (held_of n). P (pw_key p, pw_val p))"

text \<open>What the arguments on a replica need of a condition on its writes.\<close>

definition storable :: "(key \<times> Value \<Rightarrow> bool) \<Rightarrow> bool" where
  "storable P \<longleftrightarrow> (\<forall>k v. P (k, v) \<longrightarrow> zero_Timestamp \<le> ValTS v \<and> P (k, stored_form v))"

lemma chained_storable: "storable (chained kA vA kB vB)"
  by (auto simp: storable_def chained_def stored_form_def store_simps)

lemma replica_ok_mono: "replica_ok P n \<Longrightarrow> (\<And>x. P x \<Longrightarrow> Q x) \<Longrightarrow> replica_ok Q n"
  by (simp add: replica_ok_def)

lemma replica_ok_deliver:
  assumes P: "storable P" and ok: "replica_ok P n" and x: "P (k, v)"
    and n': "n' = snd (deliver_value k v n)"
  shows "replica_ok P n' \<and> lww.dominated (NStore n) (NStore n')"
proof -
  let ?M = "add_mset \<lparr>pw_key = k, pw_val = v\<rparr> (mset (held_of n))"
  have b: "buffered n" and mode: "Mode n = ''causal''" using ok by (simp_all add: replica_ok_def)
  have rel: "releases (NStore n, ?M) (NStore n', mset (held_of n'))"
    by (rule deliver_value_releases(1) [OF b _ n']) (use mode in simp)
  have bag: "P (pw_key p, pw_val p)" if "p \<in># ?M" for p
    using that ok x by (auto simp: replica_ok_def)
  then have nonneg: "nonneg_writes (set_mset ?M)" using P by (fastforce simp: nonneg_writes_def storable_def)
  have held: "P (pw_key p, pw_val p)" if "p \<in> set (held_of n')" for p
    by (rule bag [OF mset_subset_eqD [OF releases_subset [OF rel]]]) (use that in simp)
  have store: "P (k', u)" if "store_data (NStore n') k' = Some u" for k' u
    using releases_entries [OF rel that] ok bag P by (fastforce simp: replica_ok_def storable_def)
  have "causally_closed (NStore n')" "nonneg_store (NStore n')"
    using ok releases_causally_closed [OF rel _ _ nonneg] releases_nonneg [OF rel _ nonneg]
    by (simp_all add: replica_ok_def)
  moreover have "Mode n' = ''causal''" "buffered n'"
    using deliver_value_frame [of k v n] mode b by (simp_all add: n' buffered_def)
  ultimately show ?thesis using held store releases_dominated [OF rel] by (simp add: replica_ok_def)
qed

lemma replica_ok_batch:
  assumes P: "storable P" and "replica_ok P n" and "\<forall>x \<in> set b. P x"
  shows "replica_ok P (deliver_batch b n) \<and>
    lww.dominated (NStore n) (NStore (deliver_batch b n))"
  using assms(2,3)
proof (induction b arbitrary: n)
  case Nil
  then show ?case by (simp add: deliver_batch_def lww.dominated_refl)
next
  case (Cons x b)
  obtain k v where x: "x = (k, v)" by fastforce
  let ?n = "snd (deliver_value k v n)"
  have step: "replica_ok P ?n \<and> lww.dominated (NStore n) (NStore ?n)"
    using replica_ok_deliver [OF P Cons.prems(1) _ refl] Cons.prems(2) x by simp
  have "deliver_batch (x # b) n = deliver_batch b ?n" by (simp add: deliver_batch_def x)
  with step Cons.IH [of ?n] Cons.prems(2) show ?case using lww.dominated_trans by auto
qed

text \<open>A visible second value is accompanied by the first, and stays so.\<close>

definition present :: "key \<Rightarrow> nat Node \<Rightarrow> bool" where
  "present k n \<longleftrightarrow> store_data (NStore n) k \<noteq> None"

lemma present_mono: "present k n \<Longrightarrow> lww.dominated (NStore n) (NStore n') \<Longrightarrow> present k n'"
  by (fastforce simp: present_def lww.dominated_def lww.at_least_def lww.version_def)

lemma present_read:
  assumes "replica_ok (chained kA vA kB vB) n" and "present kA n"
  shows "getr_Found (fst (Node_Get \<lparr>get_Key = kA\<rparr> n)) \<and> getr_Value (fst (Node_Get \<lparr>get_Key = kA\<rparr> n)) = vA"
proof -
  obtain u where u: "store_data (NStore n) kA = Some u" using assms(2) by (auto simp: present_def)
  with assms(1) have "chained kA vA kB vB (kA, u)" by (simp add: replica_ok_def)
  with u show ?thesis by (simp add: chained_def Node_Get_def Store_Get_def)
qed

lemma read_present:
  assumes ok: "replica_ok (chained kA vA kB vB) n"
    and "getr_Found (fst (Node_Get \<lparr>get_Key = kB\<rparr> n))" "getr_Value (fst (Node_Get \<lparr>get_Key = kB\<rparr> n)) = vB"
  shows "present kA n"
proof -
  obtain u where u: "store_data (NStore n) kB = Some u" "\<not> Deleted u" "Data u = vB"
    using assms(2,3) by (auto simp: Node_Get_def Store_Get_def split: option.splits if_splits)
  with ok have "chained kA vA kB vB (kB, u)" by (simp add: replica_ok_def)
  with u obtain ts where ts: "zero_Timestamp < ts" "\<lparr>DepKey = kA, MinTS = ts\<rparr> \<in> set (Deps u)"
    by (auto simp: chained_def)
  have "depsSatisfied (NStore n) (Deps u)" using ok u(1) by (simp add: replica_ok_def causally_closed_def)
  with ts(2) have "ts \<le> effective (NStore n) kA" by (fastforce simp: depsSatisfied_iff)
  with ts(1) show ?thesis
    by (auto simp: present_def effective_def Store_GetVersion_def split: option.splits)
qed

lemma replica_ok_read:
  assumes "replica_ok P n"
  shows "replica_ok P (snd (Node_Get req n))" and "NStore (snd (Node_Get req n)) = NStore n"
  using assms by (auto simp: replica_ok_def Node_Get_def Let_def split: option.splits)

fun world_ok :: "(key \<times> Value \<Rightarrow> bool) \<Rightarrow> replica_world \<Rightarrow> bool" where
  "world_ok P (t, n, bs) \<longleftrightarrow> replica_ok P n \<and> (\<forall>b \<in> set bs. \<forall>x \<in> set b. P x)"

lemma world_ok_get:
  assumes P: "storable P" and "world_ok P (t, n, bs)" and "replica_get req (t, n, bs) = (r, (t', n', bs'))"
  shows "world_ok P (t', n', bs')"
    and "\<exists>m. replica_ok P m \<and> NStore n' = NStore m \<and> lww.dominated (NStore n) (NStore m) \<and>
      r = Inr (fst (Node_Get req m))"
proof -
  let ?m = "case bs of [] \<Rightarrow> n | b # _ \<Rightarrow> deliver_batch b n"
  have m: "replica_ok P ?m \<and> lww.dominated (NStore n) (NStore ?m)"
    using assms(2) replica_ok_batch [OF P, of n] by (cases bs) (simp_all add: lww.dominated_refl)
  have r: "r = Inr (fst (Node_Get req ?m))" "n' = snd (Node_Get req ?m)" "t' = t" "bs' = tl bs"
    using assms(3) by (simp_all add: split_beta)
  show "world_ok P (t', n', bs')"
    using assms(2) m replica_ok_read(1) r by (cases bs) auto
  show "\<exists>m. replica_ok P m \<and> NStore n' = NStore m \<and> lww.dominated (NStore n) (NStore m) \<and>
      r = Inr (fst (Node_Get req m))"
    using m r replica_ok_read(2) by blast
qed

fun world_has :: "key \<Rightarrow> replica_world \<Rightarrow> bool" where
  "world_has k (t, n, bs) = present k n"

interpretation replica_paced: paced_client replica_get replica_time replica_sleep "\<lambda>w. sint (fst w)"
proof
  fix w :: replica_world and r
  show "sint (fst (replica_time w)) = sint (fst w)" "snd (replica_time w) = w"
    by (cases w; simp)+
  show "sint (fst (snd (replica_get r w))) = sint (fst w)" by (simp only: replica_get_time)
  show "sint (fst w) + 2000000 < 2 ^ 63 \<Longrightarrow> sint (fst (replica_sleep w)) = sint (fst w) + 2000000"
    using sint_add_small [of 2000000 "fst w"] by (cases w) simp
qed

interpretation replica_ordered: ordered_client replica_get replica_time replica_sleep "\<lambda>w. sint (fst w)"
  "world_ok (chained kA vA kB vB)" "world_has kA" kA vA kB vB for kA vA kB vB
proof
  fix w :: replica_world and r
  assume ok: "world_ok (chained kA vA kB vB) w"
  obtain t n bs where w: "w = (t, n, bs)" by (rule prod_cases3)
  have step: "\<exists>x t' n' bs' m. replica_get r w = (x, (t', n', bs')) \<and> world_ok (chained kA vA kB vB) (t', n', bs') \<and>
      replica_ok (chained kA vA kB vB) m \<and> NStore n' = NStore m \<and> lww.dominated (NStore n) (NStore m) \<and>
      x = Inr (fst (Node_Get r m))" for r
  proof -
    obtain x t' n' bs' where get: "replica_get r w = (x, (t', n', bs'))" by (rule prod_cases4)
    from world_ok_get [OF chained_storable, of kA vA kB vB t n bs r x t' n' bs'] ok get
    show ?thesis unfolding w by blast
  qed
  show "\<exists>resp. fst (replica_get \<lparr>get_Key = kB\<rparr> w) = Inr resp \<and>
      (getr_Found resp \<and> getr_Value resp = vB \<longrightarrow> world_has kA (snd (replica_get \<lparr>get_Key = kB\<rparr> w)))"
  proof -
    obtain x t' n' bs' m where g: "replica_get \<lparr>get_Key = kB\<rparr> w = (x, (t', n', bs'))"
      "replica_ok (chained kA vA kB vB) m" "NStore n' = NStore m" "x = Inr (fst (Node_Get \<lparr>get_Key = kB\<rparr> m))"
      using step [of "\<lparr>get_Key = kB\<rparr>"] by blast
    with read_present [OF g(2)] show ?thesis by (simp add: present_def)
  qed
  show "\<exists>resp. fst (replica_get \<lparr>get_Key = kA\<rparr> w) = Inr resp \<and>
      (world_has kA w \<longrightarrow> getr_Found resp \<and> getr_Value resp = vA)"
  proof -
    obtain x t' n' bs' m where g: "replica_get \<lparr>get_Key = kA\<rparr> w = (x, (t', n', bs'))"
      "replica_ok (chained kA vA kB vB) m" "lww.dominated (NStore n) (NStore m)" "x = Inr (fst (Node_Get \<lparr>get_Key = kA\<rparr> m))"
      using step [of "\<lparr>get_Key = kA\<rparr>"] by blast
    have "world_has kA w \<Longrightarrow> present kA m" using present_mono [OF _ g(3), of kA] by (simp add: w)
    with present_read [OF g(2)] g(1,4) show ?thesis by simp
  qed
  show "world_ok (chained kA vA kB vB) (snd (replica_get r w))" using step [of r] by fastforce
  show "world_ok (chained kA vA kB vB) (replica_sleep w)" using ok by (simp add: w)
qed

section \<open>Properties\<close>

text \<open>
  The causal-chain experiment finds no violation on a replica in causal mode: whatever batches
  of replicated writes arrive between its reads, in whatever order, as long as the first key is
  only written with its value and the second write depends on it, the poll returns and reports
  that order was kept.
\<close>

theorem causal_replica_never_violates:
  assumes "world_ok (chained keyA valA keyB valB) (t, n, bs)"
    and "0 \<le> sint window" and "sint t + sint window + 2000000 < 2 ^ 63"
  shows "\<exists>w'. pollCausalViolation replica_get replica_time replica_sleep keyA valA keyB valB window
    (t, n, bs) = Some (False, w')"
  using replica_ordered.poll_finds_no_violation [OF assms(1,2)] assms(3) by auto

definition ex_batches :: "(key \<times> Value) list list" where
  "ex_batches = [[(''y'', ex_y)], [], [(''x'', ex_x)]]"

definition ex_replica :: "string \<Rightarrow> nat Node" where
  "ex_replica mode = NewNode mode Store_New (Clock_New 0)
     (if mode = ''causal'' then Some Buffer_New else None) (EventualHandler [] ex_opts)"

lemma ex_replica_ok: "world_ok (chained ''x'' [120] ''y'' [121]) (0, ex_replica ''causal'', ex_batches)"
proof -
  have "chained ''x'' [120] ''y'' [121] (''x'', ex_x)" "chained ''x'' [120] ''y'' [121] (''y'', ex_y)"
    by (simp_all add: chained_def ex_x_def ex_y_def zero_Timestamp_def less_eq_Timestamp_iff less_Timestamp_iff)
  moreover have "replica_ok P (ex_replica ''causal'')" for P
    by (simp add: replica_ok_def ex_replica_def NewNode_def buffered_def held_of_def Buffer_New_def
        causally_closed_New nonneg_New) (simp add: Store_New_def)
  ultimately show ?thesis by (simp add: ex_batches_def)
qed

theorem causal_replica_never_violates_witness:
  "\<exists>w'. pollCausalViolation replica_get replica_time replica_sleep ''x'' [120] ''y'' [121] 500000000
     (0, ex_replica ''causal'', ex_batches) = Some (False, w')"
  by (rule causal_replica_never_violates [OF ex_replica_ok]) simp_all

text \<open>
  The experiment does find the violation on a replica in eventual mode: with the same arrivals,
  the second write before the first, the poll reports it.
\<close>

theorem eventual_replica_violates:
  "\<exists>w'. pollCausalViolation replica_get replica_time replica_sleep ''x'' [120] ''y'' [121] 500000000
     (0, ex_replica ''eventual'', ex_batches) = Some (True, w')"
proof -
  have "deliver_batch [(''y'', ex_y)] (ex_replica ''eventual'') =
      (ex_replica ''eventual'')\<lparr>NStore := \<lparr>store_data = [''y'' \<mapsto> ex_y]\<rparr>\<rparr>"
    by (simp add: deliver_batch_def deliver_value_def ex_replica_def NewNode_def apply_direct_def
        ex_y_def Store_Apply_def Store_New_def)
  moreover have "pollCausalViolation replica_get replica_time replica_sleep ''x'' [120] ''y'' [121] 500000000
      (0, n, bs) = poll_loop replica_get replica_time replica_sleep ''x'' [120] ''y'' [121] 500000000
      (0, n, bs)" for n bs by (simp add: pollCausalViolation_def)
  ultimately show ?thesis
    using poll_loop.simps [of replica_get replica_time replica_sleep "''x''" "[120]" "''y''" "[121]"
        500000000 "(0, ex_replica ''eventual'', ex_batches)"]
    by (simp add: ex_batches_def Node_Get_def Store_Get_def ex_replica_def NewNode_def)
      (simp add: ex_y_def deliver_batch_def)
qed

text \<open>
  C30: The wait of a staleness trial ends, whatever arrives at the replica and whenever, for every
  deadline at least one sleep below the limit of \<open>int64\<close>, and its verdict is exact. Let the replica show
  the value in a round if its store has it once the batches up to that round have arrived. The wait
  passes over rounds that begin before the deadline and do not show the value; it ends in the first
  other round, with a timeout if that round begins at or past the deadline, and otherwise with the time
  since the start, in milliseconds, as the sample.
\<close>

theorem staleness_trial_ends:
  assumes "sint deadline + 5000000 \<le> 2 ^ 63"
    and shown: "shown = (\<lambda>j. \<exists>v. Store_Get key (NStore (deliver_batch (concat (take (Suc j) bs)) n)) = Some v \<and>
      Data v = val)"
  shows "\<exists>k r n' bs'. staleness_poll replica_get replica_time replica_nap key val start deadline (t, n, bs) =
      Some (r, (t + of_nat k * 5000000, n', bs')) \<and>
    (\<forall>j<k. sint t + int j * 5000000 < sint deadline \<and> \<not> shown j) \<and>
    (if sint deadline \<le> sint t + int k * 5000000 then r = Inr None
     else shown k \<and> r = Inr (Some (round64 (of_int (Milliseconds (t + of_nat k * 5000000 - start))))))"
proof -
  let ?w = "\<lambda>j. (poll_round replica_get replica_time replica_nap key ^^ j) (t, n, bs)"
  let ?n = "\<lambda>j. deliver_batch (concat (take (Suc j) bs)) n"
  have time: "snd (replica_time w) = w" for w by (cases w) simp
  have read: "\<exists>x. replica_get \<lparr>get_Key = key\<rparr> (?w j) = (Inr (fst (Node_Get \<lparr>get_Key = key\<rparr> (?n j))),
      (t + of_nat j * 5000000, (?n j)\<lparr>Tracker := x\<rparr>, drop (Suc j) bs))" for j
    using replica_rounds_read by blast
  have resp: "getr_Found (fst (Node_Get \<lparr>get_Key = key\<rparr> (?n j))) \<and> getr_Value (fst (Node_Get \<lparr>get_Key = key\<rparr> (?n j))) = val
      \<longleftrightarrow> shown j" for j
    by (auto simp: shown Node_Get_def Store_Get_def split: option.splits)
  have now: "fst (?w j) = t + of_nat j * 5000000" for j
    using read [of j] replica_get_time [of "\<lparr>get_Key = key\<rparr>" "?w j"] by auto
  obtain k r w' where
    run: "staleness_poll replica_get replica_time replica_nap key val start deadline (t, n, bs) = Some (r, w')" and
    before: "\<forall>j<k. sint (fst (?w j)) < sint deadline \<and> \<not> shown j" and
    last: "fst w' = t + of_nat k * 5000000 \<and> (if sint deadline \<le> sint (fst (?w k)) then r = Inr None
      else shown k \<and> r = Inr (Some (round64 (of_int (Milliseconds (t + of_nat k * 5000000 - start))))))"
  proof -
    from replica_polled.staleness_poll_rounds [of deadline key val start "(t, n, bs)"] assms(1)
    obtain k r w' where
      run: "staleness_poll replica_get replica_time replica_nap key val start deadline (t, n, bs) = Some (r, w')" and
      rounds: "\<forall>j<k. sint (fst (?w j)) < sint deadline \<and>
        (\<exists>resp. fst (replica_get \<lparr>get_Key = key\<rparr> (?w j)) = Inr resp \<and> \<not> (getr_Found resp \<and> getr_Value resp = val))" and
      last: "if sint deadline \<le> sint (fst (?w k)) then r = Inr None \<and> w' = ?w k
        else (case replica_get \<lparr>get_Key = key\<rparr> (?w k) of
           (Inl e, v') \<Rightarrow> r = Inl e \<and> w' = v'
         | (Inr resp, v') \<Rightarrow> getr_Found resp \<and> getr_Value resp = val \<and>
             (case replica_time v' of (t, w3) \<Rightarrow>
                r = Inr (Some (round64 (of_int (Milliseconds (t - start))))) \<and> w' = w3))"
      unfolding time Let_def by auto
    have "\<not> shown j" if "j < k" for j
      using rounds [rule_format, OF that] read [of j] resp [of j] by auto
    moreover have "fst w' = t + of_nat k * 5000000 \<and> (if sint deadline \<le> sint (fst (?w k)) then r = Inr None
      else shown k \<and> r = Inr (Some (round64 (of_int (Milliseconds (t + of_nat k * 5000000 - start))))))"
    proof (cases "sint deadline \<le> sint (fst (?w k))")
      case True
      with last now show ?thesis by simp
    next
      case False
      obtain x where g: "replica_get \<lparr>get_Key = key\<rparr> (?w k) = (Inr (fst (Node_Get \<lparr>get_Key = key\<rparr> (?n k))),
        (t + of_nat k * 5000000, (?n k)\<lparr>Tracker := x\<rparr>, drop (Suc k) bs))" using read [of k] by blast
      from False last resp [of k] show ?thesis unfolding g by simp
    qed
    ultimately show thesis using that [OF run] rounds by blast
  qed
  have clock: "sint (fst (?w j)) = sint t + int j * 5000000" if "j \<le> k" for j
    using that
  proof (induction j)
    case (Suc j)
    have "sint (fst (?w j)) < sint deadline" using before Suc.prems by (metis Suc_le_lessD)
    with assms(1) have "sint (fst (?w j)) + 5000000 < 2 ^ 63" by linarith
    with sint_add_small [of 5000000 "fst (?w j)"] Suc show ?case unfolding now by (simp add: algebra_simps)
  qed simp
  have "w' = (t + of_nat k * 5000000, fst (snd w'), snd (snd w'))" using last by (metis prod.collapse)
  with run have "staleness_poll replica_get replica_time replica_nap key val start deadline (t, n, bs) =
      Some (r, (t + of_nat k * 5000000, fst (snd w'), snd (snd w')))" by simp
  moreover have "\<forall>j<k. sint t + int j * 5000000 < sint deadline \<and> \<not> shown j"
    using before clock by (metis less_imp_le)
  moreover have "if sint deadline \<le> sint t + int k * 5000000 then r = Inr None
     else shown k \<and> r = Inr (Some (round64 (of_int (Milliseconds (t + of_nat k * 5000000 - start)))))"
    using last clock [of k] by simp
  ultimately show ?thesis by blast
qed

theorem staleness_trial_ends_witness:
  "\<exists>w'. staleness_poll replica_get replica_time replica_nap ''x'' [120] 0 5000000000
     (0, ex_replica ''eventual'', ex_batches) = Some (Inr (Some (round64 10)), w')"
proof -
  let ?shown = "\<lambda>j. \<exists>v. Store_Get ''x'' (NStore (deliver_batch (concat (take (Suc j) ex_batches)) (ex_replica ''eventual''))) =
      Some v \<and> Data v = [120]"
  have arrived: "take (Suc 0) ex_batches = [[(''y'', ex_y)]]" "take (Suc 1) ex_batches = [[(''y'', ex_y)], []]"
    "take (Suc 2) ex_batches = [[(''y'', ex_y)], [], [(''x'', ex_x)]]"
    by (simp_all add: ex_batches_def numeral_2_eq_2)
  have "\<not> ?shown 0" "\<not> ?shown 1" "?shown 2"
    unfolding arrived by (simp_all add: deliver_batch_def deliver_value_def ex_replica_def NewNode_def apply_direct_def
      ex_y_def ex_x_def Store_Apply_def Store_New_def Store_Get_def)
  from staleness_trial_ends [of 5000000000 ?shown "''x''" ex_batches "ex_replica ''eventual''" "[120]" 0 0]
  obtain k r n' bs' where run: "staleness_poll replica_get replica_time replica_nap ''x'' [120] 0 5000000000
      (0, ex_replica ''eventual'', ex_batches) = Some (r, (of_nat k * 5000000, n', bs'))"
    and before: "\<forall>j<k. \<not> ?shown j" and "if 5000000000 \<le> int k * 5000000 then r = Inr None
      else ?shown k \<and> r = Inr (Some (round64 (of_int (Milliseconds (of_nat k * 5000000)))))"
    by auto
  moreover have "k \<le> 2" using before \<open>?shown 2\<close> by (metis not_le)
  ultimately have "?shown k" "r = Inr (Some (round64 (of_int (Milliseconds (of_nat k * 5000000)))))" "k \<in> {0, 1, 2}"
    by (auto split: if_splits)
  moreover from this have "k = 2" using \<open>\<not> ?shown 0\<close> \<open>\<not> ?shown 1\<close> by blast
  ultimately show ?thesis using run by (simp add: Milliseconds_def)
qed

end
