(* ===== verification/Lab.thy ===== *)
theory Lab
  imports Replica
begin

text \<open>
  The causal-chain experiment of \<open>internal/experiments/experiments.go\<close> on two modelled nodes: its
  writes and reads go to the origin's handlers, the origin's messages travel to the replica in any
  order and with any delay, and its polls read the replica.
\<close>

section \<open>Two nodes and the messages between them\<close>

text \<open>
  \<open>lab_plan\<close> says what arrives before each read of the replica: positions in the list of messages in
  flight, with the reading of the replica's physical clock at each arrival.
\<close>

record lab =
  lab_time :: int64
  lab_origin :: "nat Node"
  lab_replica :: "nat Node"
  lab_net :: "ReplicateRequest list"
  lab_plan :: "(nat \<times> int64) list list"

definition lab_put :: "nat \<Rightarrow> (node_error, lab) put_call" where
  "lab_put j req w =
     (case Node_Put (lab_time w) (\<lambda>_ _. RPCError) req (lab_origin w) of
        (r, n, rpcs) \<Rightarrow> (r, w\<lparr>lab_origin := n,
          lab_net := lab_net w @ map rpc_request (filter (\<lambda>x. rpc_peer x = j) rpcs)\<rparr>))"

definition lab_oget :: "(node_error, lab) get_call" where
  "lab_oget req w = (case Node_Get req (lab_origin w) of (resp, n) \<Rightarrow> (Inr resp, w\<lparr>lab_origin := n\<rparr>))"

fun arrive :: "(nat \<times> int64) list \<Rightarrow> lab \<Rightarrow> lab" where
  "arrive [] w = w"
| "arrive ((p, now) # ps) w =
     arrive ps (if p < length (lab_net w)
       then w\<lparr>lab_replica := snd (Node_Replicate now (lab_net w ! p) (lab_replica w)),
              lab_net := take p (lab_net w) @ drop (Suc p) (lab_net w)\<rparr>
       else w)"

definition lab_rget :: "(node_error, lab) get_call" where
  "lab_rget req w =
     (let w1 = (case lab_plan w of [] \<Rightarrow> w | ps # pss \<Rightarrow> arrive ps (w\<lparr>lab_plan := pss\<rparr>)) in
      case Node_Get req (lab_replica w1) of (resp, n) \<Rightarrow> (Inr resp, w1\<lparr>lab_replica := n\<rparr>))"

definition lab_now :: "lab clock_call" where
  "lab_now w = (lab_time w, w)"

definition lab_sleep :: "lab \<Rightarrow> lab" where
  "lab_sleep w = w\<lparr>lab_time := lab_time w + 2000000\<rparr>"

section \<open>The writes of the experiment\<close>

definition chain_keyA :: "int \<Rightarrow> key" where "chain_keyA i = ''chain-a-'' @ show_int i"
definition chain_keyB :: "int \<Rightarrow> key" where "chain_keyB i = ''chain-b-'' @ show_int i"
definition chain_valA :: "int \<Rightarrow> bytes" where "chain_valA i = bytes_of (''a-'' @ show_int i)"
definition chain_valB :: "int \<Rightarrow> bytes" where "chain_valB i = bytes_of (''b-'' @ show_int i)"

lemmas chain_names = chain_keyA_def chain_keyB_def chain_valA_def chain_valB_def

lemma chain_keys [simp]:
  "chain_keyA i = chain_keyA j \<longleftrightarrow> i = j" "chain_keyB i = chain_keyB j \<longleftrightarrow> i = j"
  "chain_keyA i \<noteq> chain_keyB j" "chain_keyB i \<noteq> chain_keyA j"
  by (auto simp: chain_names dest: show_int_inj)

lemma chain_vals [simp]: "chain_valA i \<noteq> []" "chain_valB i \<noteq> []"
  by (simp_all add: chain_names bytes_of_def)

definition all_chained :: "key \<times> Value \<Rightarrow> bool" where
  "all_chained x \<longleftrightarrow> (\<forall>i. chained (chain_keyA i) (chain_valA i) (chain_keyB i) (chain_valB i) x)"

lemma all_chained_storable: "storable all_chained"
  using chained_storable unfolding storable_def all_chained_def by blast

lemma all_chained_A:
  "zero_Timestamp \<le> ts \<Longrightarrow>
     all_chained (chain_keyA i, \<lparr>Data = chain_valA i, ValTS = ts, Deps = deps, Deleted = False\<rparr>)"
  by (simp add: all_chained_def chained_def)

lemma all_chained_B:
  "zero_Timestamp \<le> ts \<Longrightarrow> zero_Timestamp < t \<Longrightarrow> \<lparr>DepKey = chain_keyA i, MinTS = t\<rparr> \<in> set deps \<Longrightarrow>
     all_chained (chain_keyB i, \<lparr>Data = chain_valB i, ValTS = ts, Deps = deps, Deleted = False\<rparr>)"
  by (auto simp: all_chained_def chained_def)

section \<open>What holds between the steps of the experiment\<close>

definition request_ok :: "ReplicateRequest \<Rightarrow> bool" where
  "request_ok req \<longleftrightarrow> (\<exists>pts. rreq_Timestamp req = Some pts \<and>
     all_chained (rreq_Key req, replicated_value (fromProtoTS pts) req))"

definition origin_ok :: "nat Node \<Rightarrow> bool" where
  "origin_ok n \<longleftrightarrow> Mode n = ''causal'' \<and> Tracker n \<noteq> None \<and> zero_Timestamp \<le> Clock_Now (NClock n) \<and>
     (\<exists>peers opts. NHandler n = CausalHandler peers opts)"

definition lab_ok :: "lab \<Rightarrow> bool" where
  "lab_ok w \<longleftrightarrow> replica_ok all_chained (lab_replica w) \<and> origin_ok (lab_origin w) \<and>
     (\<forall>req \<in> set (lab_net w). request_ok req)"

lemma replica_ok_clock [simp]: "replica_ok P (n\<lparr>NClock := clk\<rparr>) = replica_ok P n"
  by (simp add: replica_ok_def)

lemma replicate_ok:
  assumes "replica_ok all_chained n" and "request_ok req" and "n' = snd (Node_Replicate now req n)"
  shows "replica_ok all_chained n' \<and> lww.dominated (NStore n) (NStore n')"
proof -
  obtain pts where pts: "rreq_Timestamp req = Some pts"
    "all_chained (rreq_Key req, replicated_value (fromProtoTS pts) req)"
    using assms(2) by (auto simp: request_ok_def)
  obtain x clk where rec: "Clock_Receive now (fromProtoTS pts) (NClock n) = (x, clk)" by (rule prod.exhaust)
  show ?thesis
  proof (cases x)
    case (Inl e)
    with assms pts rec show ?thesis by (simp add: Node_Replicate_def Let_def lww.dominated_refl)
  next
    case (Inr ts)
    then have "n' = snd (deliver_value (rreq_Key req) (replicated_value (fromProtoTS pts) req) (n\<lparr>NClock := clk\<rparr>))"
      using assms(3) pts rec by (simp add: Node_Replicate_def Let_def split_beta)
    from replica_ok_deliver [OF all_chained_storable _ pts(2) this] assms(1) show ?thesis by simp
  qed
qed

lemma arrive_ok:
  "lab_ok w \<Longrightarrow> lab_ok (arrive ps w) \<and> lab_time (arrive ps w) = lab_time w \<and>
     lww.dominated (NStore (lab_replica w)) (NStore (lab_replica (arrive ps w)))"
proof (induction ps w rule: arrive.induct)
  case (1 w)
  then show ?case by (simp add: lww.dominated_refl)
next
  case (2 p now ps w)
  show ?case
  proof (cases "p < length (lab_net w)")
    case True
    let ?w = "w\<lparr>lab_replica := snd (Node_Replicate now (lab_net w ! p) (lab_replica w)),
              lab_net := take p (lab_net w) @ drop (Suc p) (lab_net w)\<rparr>"
    have "request_ok (lab_net w ! p)" "replica_ok all_chained (lab_replica w)"
      using 2(2) True by (simp_all add: lab_ok_def)
    from replicate_ok [OF this(2,1) refl, of now]
    have step: "lab_ok ?w" "lww.dominated (NStore (lab_replica w)) (NStore (lab_replica ?w))"
      using 2(2) by (auto simp: lab_ok_def dest: in_set_takeD in_set_dropD)
    have "lab_ok (arrive ps ?w) \<and> lab_time (arrive ps ?w) = lab_time ?w \<and>
        lww.dominated (NStore (lab_replica ?w)) (NStore (lab_replica (arrive ps ?w)))"
      using 2(1) step(1) True by simp
    with step(2) True show ?thesis by (auto intro: lww.dominated_trans)
  next
    case False
    with 2 show ?thesis by simp
  qed
qed

text \<open>A read of the replica is a read of a replica in order, at least as new as it was.\<close>

lemma lab_rget_ok:
  assumes "lab_ok w"
  shows "\<exists>m w'. lab_rget req w = (Inr (fst (Node_Get req m)), w') \<and> lab_ok w' \<and> lab_time w' = lab_time w \<and>
    replica_ok all_chained m \<and> NStore (lab_replica w') = NStore m \<and>
    lww.dominated (NStore (lab_replica w)) (NStore m)"
proof -
  let ?w = "case lab_plan w of [] \<Rightarrow> w | ps # pss \<Rightarrow> arrive ps (w\<lparr>lab_plan := pss\<rparr>)"
  have "lab_ok (w\<lparr>lab_plan := pss\<rparr>)" for pss using assms by (simp add: lab_ok_def)
  then have w: "lab_ok ?w \<and> lab_time ?w = lab_time w \<and> lww.dominated (NStore (lab_replica w)) (NStore (lab_replica ?w))"
    using assms arrive_ok [of "w\<lparr>lab_plan := _\<rparr>"] by (auto simp: lww.dominated_refl split: list.split)
  let ?m = "lab_replica ?w"
  have get: "lab_rget req w = (Inr (fst (Node_Get req ?m)), ?w\<lparr>lab_replica := snd (Node_Get req ?m)\<rparr>)"
    by (simp add: lab_rget_def Let_def split_beta)
  have "replica_ok all_chained ?m" using w by (simp add: lab_ok_def)
  with w replica_ok_read [OF this, of req] show ?thesis
    by (intro exI [of _ ?m] exI [of _ "?w\<lparr>lab_replica := snd (Node_Get req ?m)\<rparr>"]) (simp add: get lab_ok_def)
qed

lemma lab_rget_time: "lab_time (snd (lab_rget req w)) = lab_time w"
proof -
  have "lab_time (arrive ps v) = lab_time v" for ps v
    by (induction ps v rule: arrive.induct) simp_all
  then show ?thesis by (simp add: lab_rget_def Let_def split_beta split: list.split)
qed

interpretation lab_paced: paced_client lab_rget lab_now lab_sleep "\<lambda>w. sint (lab_time w)"
proof
  fix w :: lab and r
  show "sint (fst (lab_now w)) = sint (lab_time w)" "snd (lab_now w) = w" by (simp_all add: lab_now_def)
  show "sint (lab_time (snd (lab_rget r w))) = sint (lab_time w)" by (simp add: lab_rget_time)
  show "sint (lab_time w) + 2000000 < 2 ^ 63 \<Longrightarrow> sint (lab_time (lab_sleep w)) = sint (lab_time w) + 2000000"
    using sint_add_small [of 2000000 "lab_time w"] by (simp add: lab_sleep_def)
qed

interpretation lab_ordered: ordered_client lab_rget lab_now lab_sleep "\<lambda>w. sint (lab_time w)"
  lab_ok "\<lambda>w. present (chain_keyA i) (lab_replica w)"
  "chain_keyA i" "chain_valA i" "chain_keyB i" "chain_valB i" for i
proof
  fix w :: lab and r
  assume ok: "lab_ok w"
  have mono: "replica_ok (chained (chain_keyA i) (chain_valA i) (chain_keyB i) (chain_valB i)) m"
    if "replica_ok all_chained m" for m
    using that by (rule replica_ok_mono) (simp add: all_chained_def)
  show "\<exists>resp. fst (lab_rget \<lparr>get_Key = chain_keyB i\<rparr> w) = Inr resp \<and>
      (getr_Found resp \<and> getr_Value resp = chain_valB i \<longrightarrow>
       present (chain_keyA i) (lab_replica (snd (lab_rget \<lparr>get_Key = chain_keyB i\<rparr> w))))"
  proof -
    obtain m w' where g: "lab_rget \<lparr>get_Key = chain_keyB i\<rparr> w = (Inr (fst (Node_Get \<lparr>get_Key = chain_keyB i\<rparr> m)), w')"
      "replica_ok all_chained m" "NStore (lab_replica w') = NStore m"
      using lab_rget_ok [OF ok] by blast
    with read_present [OF mono [OF g(2)]] show ?thesis by (simp add: present_def)
  qed
  show "\<exists>resp. fst (lab_rget \<lparr>get_Key = chain_keyA i\<rparr> w) = Inr resp \<and>
      (present (chain_keyA i) (lab_replica w) \<longrightarrow> getr_Found resp \<and> getr_Value resp = chain_valA i)"
  proof -
    obtain m w' where g: "lab_rget \<lparr>get_Key = chain_keyA i\<rparr> w = (Inr (fst (Node_Get \<lparr>get_Key = chain_keyA i\<rparr> m)), w')"
      "replica_ok all_chained m" "lww.dominated (NStore (lab_replica w)) (NStore m)"
      using lab_rget_ok [OF ok] by blast
    with present_read [OF mono [OF g(2)]] present_mono [OF _ g(3)] show ?thesis by simp
  qed
  show "lab_ok (snd (lab_rget r w))" using lab_rget_ok [OF ok, of r] by fastforce
  show "lab_ok (lab_sleep w)" using ok by (simp add: lab_ok_def lab_sleep_def)
qed

section \<open>The writes reach the replica with their dependencies\<close>

lemma lab_put_ok:
  assumes ok: "lab_ok w" and data: "put_Value req \<noteq> []"
    and P: "\<And>ts. zero_Timestamp \<le> ts \<Longrightarrow> all_chained (put_Key req, \<lparr>Data = put_Value req, ValTS = ts,
      Deps = reads (the (Tracker (lab_origin w))), Deleted = False\<rparr>)"
    and out: "lab_put j req w = (r, w')"
  shows "lab_ok w' \<and> lab_time w' = lab_time w"
    and "\<not> isl r \<Longrightarrow> \<exists>v. Store_Get (put_Key req) (NStore (lab_origin w')) = Some v \<and> zero_Timestamp < ValTS v"
proof -
  let ?n = "lab_origin w"
  obtain rt where n: "Mode ?n = ''causal''" "Tracker ?n = Some rt" "zero_Timestamp \<le> Clock_Now (NClock ?n)"
    using ok by (auto simp: lab_ok_def origin_ok_def)
  obtain peers opts where h: "NHandler ?n = CausalHandler peers opts"
    using ok by (auto simp: lab_ok_def origin_ok_def)
  obtain x clk where send: "Clock_Send (lab_time w) (NClock ?n) = (x, clk)" by (rule prod.exhaust)
  have "(lab_ok w' \<and> lab_time w' = lab_time w) \<and>
    (\<not> isl r \<longrightarrow> (\<exists>v. Store_Get (put_Key req) (NStore (lab_origin w')) = Some v \<and> zero_Timestamp < ValTS v))"
  proof (cases x)
    case (Inl e)
    with Clock_Send_error [of "lab_time w" "NClock ?n" e clk] send have "clk = NClock ?n" by simp
    with Inl send ok out show ?thesis by (auto simp: lab_put_def Node_Put_def)
  next
    case (Inr ts)
    let ?v = "\<lparr>Data = put_Value req, ValTS = ts, Deps = reads rt, Deleted = False\<rparr>"
    have ts: "zero_Timestamp < ts" "Clock_Now clk = ts"
      using Clock_Send_ok [of "lab_time w" "NClock ?n" ts clk] send Inr n(3) by auto
    have w': "w' = w\<lparr>lab_origin := ?n\<lparr>NClock := clk, Tracker := Some \<lparr>reads = []\<rparr>,
          NStore := Store_Put (put_Key req) ?v (NStore ?n)\<rparr>,
        lab_net := lab_net w @ map rpc_request (filter (\<lambda>x. rpc_peer x = j)
          (map (send_to opts (put_Key req) (buildReplicateRequest (put_Key req) ?v (reads rt))) peers))\<rparr>"
      using out send Inr n h
      by (auto simp: lab_put_def Node_Put_def take_deps_def SnapshotAndClear_def write_through_def
          CausalHandler_OnWrite_def Let_def)
    have "request_ok (buildReplicateRequest (put_Key req) ?v (reads rt))"
      using P [of ts] ts(1) n(2) data unfolding request_ok_def replicated_value_build
      by (auto simp: buildReplicateRequest_def)
    then have "lab_ok w'" using ok n ts h by (auto simp: w' lab_ok_def origin_ok_def send_to_def)
    moreover have "Store_Get (put_Key req) (NStore (lab_origin w')) = Some ?v"
      by (simp add: w' Store_Get_def store_simps)
    ultimately show ?thesis using ts(1) by (simp add: w')
  qed
  then show "lab_ok w' \<and> lab_time w' = lab_time w"
    and "\<not> isl r \<Longrightarrow> \<exists>v. Store_Get (put_Key req) (NStore (lab_origin w')) = Some v \<and> zero_Timestamp < ValTS v"
    by blast+
qed

text \<open>After a read of the origin the tracker holds the version that was read.\<close>

lemma lab_oget_ok:
  assumes "lab_ok w" and "Store_Get k (NStore (lab_origin w)) = Some v" and "lab_oget \<lparr>get_Key = k\<rparr> w = (r, w')"
  shows "lab_ok w'" "lab_time w' = lab_time w" "\<not> isl r"
    "\<lparr>DepKey = k, MinTS = ValTS v\<rparr> \<in> set (reads (the (Tracker (lab_origin w'))))"
  using assms
  by (auto simp: lab_oget_def Node_Get_def lab_ok_def origin_ok_def Tracker_Record_def Let_def)

section \<open>A whole run\<close>

text \<open>One trial takes at most half a second and one sleep, and ends in order or with an error.\<close>

lemma chain_loop_unfold:
  "chain_loop put oget rget time_now sleep (Suc n) i res w =
     (case put \<lparr>put_Key = chain_keyA i, put_Value = chain_valA i\<rparr> w of
        (Inl e, w1) \<Rightarrow> Some ((res, Some e), w1)
      | (Inr _, w1) \<Rightarrow>
        (case oget \<lparr>get_Key = chain_keyA i\<rparr> w1 of
          (Inl e, w2) \<Rightarrow> Some ((res, Some e), w2)
        | (Inr _, w2) \<Rightarrow>
          (case put \<lparr>put_Key = chain_keyB i, put_Value = chain_valB i\<rparr> w2 of
            (Inl e, w3) \<Rightarrow> Some ((res, Some e), w3)
          | (Inr _, w3) \<Rightarrow>
            (case pollCausalViolation rget time_now sleep (chain_keyA i) (chain_valA i) (chain_keyB i)
                (chain_valB i) 500000000 w3 of
               None \<Rightarrow> None
             | Some (violated, w4) \<Rightarrow>
                 chain_loop put oget rget time_now sleep n (i + 1)
                   (res\<lparr>TrialViolations := TrialViolations res @ [violated],
                        Violations := (if violated then Violations res + 1 else Violations res)\<rparr>) w4))))"
  unfolding chain_names by (simp only: chain_loop.simps Let_def)

definition trials_in_order :: "nat \<Rightarrow> CausalChainResult \<Rightarrow> CausalChainResult \<times> node_error option \<Rightarrow> bool" where
  "trials_in_order n res out \<longleftrightarrow> Violations (fst out) = Violations res \<and>
     (\<exists>k. TrialViolations (fst out) = TrialViolations res @ replicate k False \<and> (snd out = None \<longrightarrow> k = n))"

lemma trials_in_order_Suc:
  "trials_in_order n (res\<lparr>TrialViolations := TrialViolations res @ [False]\<rparr>) out \<Longrightarrow> trials_in_order (Suc n) res out"
proof -
  assume in_order: "trials_in_order n (res\<lparr>TrialViolations := TrialViolations res @ [False]\<rparr>) out"
  then obtain k where "TrialViolations (fst out) = TrialViolations res @ replicate (Suc k) False"
    "snd out = None \<longrightarrow> k = n" by (auto simp: trials_in_order_def)
  with in_order show "trials_in_order (Suc n) res out"
    unfolding trials_in_order_def by (intro conjI exI [of _ "Suc k"]) simp_all
qed

lemma trials_in_order_error: "trials_in_order n res (res, Some e)"
  by (auto simp: trials_in_order_def intro: exI [of _ 0])

lemma chain_loop_in_order:
  assumes "lab_ok w" and "sint (lab_time w) + int n * 502000000 \<le> 2 ^ 63"
  shows "\<exists>out w'. chain_loop (lab_put j) lab_oget lab_rget lab_now lab_sleep n i res w = Some (out, w') \<and>
    trials_in_order n res out"
  using assms
proof (induction n arbitrary: i res w)
  case 0
  then show ?case by (simp add: trials_in_order_def)
next
  case (Suc n)
  note unfold = chain_loop_unfold [of "lab_put j" lab_oget lab_rget lab_now lab_sleep n i res w]
  obtain r1 w1 where A: "lab_put j \<lparr>put_Key = chain_keyA i, put_Value = chain_valA i\<rparr> w = (r1, w1)"
    by (rule prod.exhaust)
  note putA = lab_put_ok [OF Suc.prems(1) _ _ A, simplified, OF all_chained_A]
  obtain r2 w2 where G: "lab_oget \<lparr>get_Key = chain_keyA i\<rparr> w1 = (r2, w2)" by (rule prod.exhaust)
  obtain r3 w3 where B: "lab_put j \<lparr>put_Key = chain_keyB i, put_Value = chain_valB i\<rparr> w2 = (r3, w3)"
    by (rule prod.exhaust)
  show ?case
  proof (cases "isl r1")
    case True
    with A trials_in_order_error show ?thesis unfolding unfold by (cases r1) auto
  next
    case A1: False
    obtain v where v: "Store_Get (chain_keyA i) (NStore (lab_origin w1)) = Some v" "zero_Timestamp < ValTS v"
      using putA(2) A1 by auto
    note getA = lab_oget_ok [OF conjunct1 [OF putA(1)] v(1) G]
    note putB = lab_put_ok [OF getA(1) _ _ B, simplified, OF all_chained_B [OF _ v(2) getA(4)]]
    show ?thesis
    proof (cases "isl r3")
      case True
      with A A1 G getA(3) B trials_in_order_error show ?thesis
        unfolding unfold by (cases r1; cases r2; cases r3) auto
    next
      case B1: False
      have t: "lab_time w3 = lab_time w" using putA(1) getA(2) putB(1) by simp
      obtain w4 where poll: "pollCausalViolation lab_rget lab_now lab_sleep (chain_keyA i) (chain_valA i)
          (chain_keyB i) (chain_valB i) 500000000 w3 = Some (False, w4)" "lab_ok w4"
        "sint (lab_time w4) \<le> sint (lab_time w) + 502000000"
        using lab_ordered.poll_finds_no_violation [of w3 500000000 i] putB(1) t Suc.prems(2) by auto
      have "sint (lab_time w4) + int n * 502000000 \<le> 2 ^ 63" using poll(3) Suc.prems(2) by simp
      from Suc.IH [OF poll(2) this, of "i + 1" "res\<lparr>TrialViolations := TrialViolations res @ [False]\<rparr>"]
      obtain out w' where "chain_loop (lab_put j) lab_oget lab_rget lab_now lab_sleep n (i + 1)
          (res\<lparr>TrialViolations := TrialViolations res @ [False]\<rparr>) w4 = Some (out, w')" "trials_in_order (Suc n) res out"
        using trials_in_order_Suc by blast
      with A A1 G getA(3) B B1 poll(1) show ?thesis
        unfolding unfold by (cases r1; cases r2; cases r3) auto
    qed
  qed
qed

lemma fresh_lab_ok:
  assumes "start_node ''causal'' peers opts now = Some (lab_origin w)" and "0 \<le> sint now"
    and "start_node ''causal'' peers' opts' now' = Some (lab_replica w)" and "lab_net w = []"
  shows "lab_ok w"
proof -
  have "lab_origin w = NewNode ''causal'' Store_New (Clock_New now) (Some Buffer_New) (CausalHandler peers opts)"
    using assms(1) by (auto simp: start_node_Some NewHandler_def)
  moreover have "zero_Timestamp \<le> Clock_Now (Clock_New now)"
    using assms(2) by (auto simp: Clock_New_def Clock_Now_def zero_Timestamp_def less_eq_Timestamp_iff
        sint_eq_iff [of 0, symmetric])
  ultimately have "origin_ok (lab_origin w)" by (simp add: origin_ok_def NewNode_def)
  moreover have "lab_replica w = NewNode ''causal'' Store_New (Clock_New now') (Some Buffer_New) (CausalHandler peers' opts')"
    using assms(3) by (auto simp: start_node_Some NewHandler_def)
  then have "replica_ok all_chained (lab_replica w)"
    by (simp add: replica_ok_def NewNode_def buffered_def held_of_def Buffer_New_def
        causally_closed_New nonneg_New) (simp add: Store_New_def)
  ultimately show ?thesis using assms(4) by (simp add: lab_ok_def)
qed

section \<open>Properties\<close>

text \<open>
  C22: The causal-chain experiment against two freshly started nodes in causal mode finds no
  violation: whatever the order and the delay in which the origin's messages reach the replica,
  and whatever the clocks read, the run returns, every trial that finished is in order, and
  without an error all of them have finished.
\<close>

theorem causal_experiment_in_order:
  assumes "start_node ''causal'' peers opts now = Some (lab_origin w)" and "0 \<le> sint now"
    and "start_node ''causal'' peers' opts' now' = Some (lab_replica w)" and "lab_net w = []"
    and "0 \<le> trials" and "sint (lab_time w) + trials * 502000000 \<le> 2 ^ 63"
  shows "\<exists>res err w'. MeasureCausalChains (lab_put j) lab_oget lab_rget lab_now lab_sleep trials w =
      Some ((res, err), w') \<and> Violations res = 0 \<and> True \<notin> set (TrialViolations res) \<and>
      (err = None \<longrightarrow> int (length (TrialViolations res)) = trials)"
proof -
  have "sint (lab_time w) + int (nat trials) * 502000000 \<le> 2 ^ 63" using assms(5,6) by simp
  from chain_loop_in_order [OF fresh_lab_ok [OF assms(1-4)] this, of j 0
      "\<lparr>cc_Trials = trials, Violations = 0, TrialViolations = []\<rparr>"]
  show ?thesis using assms(5) by (fastforce simp: MeasureCausalChains_def trials_in_order_def)
qed

definition ex_lab :: lab where
  "ex_lab = \<lparr>lab_time = 1000000,
     lab_origin = NewNode ''causal'' Store_New (Clock_New 0) (Some Buffer_New) (CausalHandler [1] ex_opts),
     lab_replica = NewNode ''causal'' Store_New (Clock_New 0) (Some Buffer_New) (CausalHandler [0] ex_opts),
     lab_net = [], lab_plan = [[], [(1, 5)], [], [(0, 6)]]\<rparr>"

theorem causal_experiment_in_order_witness:
  "\<exists>res err w'. MeasureCausalChains (lab_put 1) lab_oget lab_rget lab_now lab_sleep 2 ex_lab =
     Some ((res, err), w') \<and> Violations res = 0"
proof -
  have start: "start_node ''causal'' [1] ex_opts 0 = Some (lab_origin ex_lab)"
    "start_node ''causal'' [0] ex_opts 0 = Some (lab_replica ex_lab)"
    by (simp_all add: start_node_def wire_node_def validModes_def NewHandler_def ex_lab_def Let_def)
  show ?thesis
    using causal_experiment_in_order [OF start(1) _ start(2), of 2 1] by (fastforce simp: ex_lab_def)
qed

end
