(* ===== verification/Rerun.thy ===== *)
theory Rerun
  imports Lab
begin

text \<open>
  The causal-chain experiment run twice on one pair of nodes in eventual mode. The keys and values of
  \<open>MeasureCausalChains\<close> are the same in every run, so a replica that still shows the first values of one
  run looks in order to the next.
\<close>

section \<open>A pair of nodes in eventual mode\<close>

definition fresh_pair :: "string \<Rightarrow> lab \<Rightarrow> bool" where
  "fresh_pair mode w \<longleftrightarrow> lab_net w = [] \<and>
     (\<exists>peers opts now. start_node mode peers opts now = Some (lab_origin w)) \<and>
     (\<exists>peers opts now. start_node mode peers opts now = Some (lab_replica w))"

text \<open>
  What every step of a run keeps: the first keys are only ever written with their values, and those
  of \<open>K\<close> that the replica has stay there.
\<close>

definition fixed_A :: "key \<Rightarrow> bytes \<Rightarrow> bool" where
  "fixed_A k data \<longleftrightarrow> (\<forall>i. k = chain_keyA i \<longrightarrow> data = chain_valA i)"

definition replica_fixed :: "nat Node \<Rightarrow> bool" where
  "replica_fixed n \<longleftrightarrow> NBuffer n = None \<and>
     (\<forall>i u. store_data (NStore n) (chain_keyA i) = Some u \<longrightarrow> \<not> Deleted u \<and> Data u = chain_valA i)"

definition pair_ok :: "key set \<Rightarrow> lab \<Rightarrow> bool" where
  "pair_ok K w \<longleftrightarrow> replica_fixed (lab_replica w) \<and> (\<forall>k \<in> K. present k (lab_replica w)) \<and>
     Mode (lab_origin w) = ''eventual'' \<and> (\<exists>peers opts. NHandler (lab_origin w) = EventualHandler peers opts) \<and>
     (\<forall>req \<in> set (lab_net w). fixed_A (rreq_Key req) (rreq_Value req))"

lemma fresh_pair_ok: "fresh_pair ''eventual'' w \<Longrightarrow> pair_ok {} w"
  by (auto simp: fresh_pair_def start_node_Some NewHandler_def pair_ok_def replica_fixed_def NewNode_def
      Store_New_def)

lemma replicate_fixed:
  assumes "replica_fixed n" and "fixed_A (rreq_Key req) (rreq_Value req)" and "n' = snd (Node_Replicate now req n)"
  shows "replica_fixed n' \<and> lww.dominated (NStore n) (NStore n')"
proof (cases "rreq_Timestamp req")
  case None
  with assms show ?thesis by (simp add: Node_Replicate_def lww.dominated_refl)
next
  case (Some pts)
  let ?w = "replicated_value (fromProtoTS pts) req"
  obtain x clk where rec: "Clock_Receive now (fromProtoTS pts) (NClock n) = (x, clk)" by (rule prod.exhaust)
  show ?thesis
  proof (cases x)
    case (Inl e)
    with assms Some rec show ?thesis by (simp add: Node_Replicate_def Let_def lww.dominated_refl replica_fixed_def)
  next
    case (Inr ts)
    then have n': "n' = n\<lparr>NClock := clk, NStore := applyLocked (rreq_Key req) ?w (NStore n)\<rparr>"
      using assms(1,3) Some rec
      by (simp add: Node_Replicate_def deliver_value_def Let_def split_beta apply_direct_store replica_fixed_def)
    have "\<not> Deleted u \<and> Data u = chain_valA i" if u: "store_data (NStore n') (chain_keyA i) = Some u" for i u
    proof (cases "chain_keyA i = rreq_Key req")
      case True
      with assms(2) have "rreq_Value req = chain_valA i" by (simp add: fixed_A_def)
      then have "stored_form ?w = ?w" "\<not> Deleted ?w \<and> Data ?w = chain_valA i"
        by (simp_all add: stored_form_def replicated_value_def)
      moreover have "\<not> Deleted u' \<and> Data u' = chain_valA i" if "store_data (NStore n) (rreq_Key req) = Some u'" for u'
        using assms(1) that True unfolding replica_fixed_def by metis
      ultimately show ?thesis
        using u unfolding n' True by (auto simp: applyLocked_lookup split: if_splits option.splits)
    next
      case False
      with assms(1) u show ?thesis by (simp add: n' applyLocked_lookup replica_fixed_def)
    qed
    then have "replica_fixed n'" using assms(1) by (simp add: n' replica_fixed_def)
    then show ?thesis by (simp add: n' lww.dominated_apply)
  qed
qed

lemma arrive_pair:
  "pair_ok K w \<Longrightarrow> pair_ok K (arrive ps w) \<and> lab_time (arrive ps w) = lab_time w"
proof (induction ps w rule: arrive.induct)
  case (2 p now ps w)
  show ?case
  proof (cases "p < length (lab_net w)")
    case True
    let ?w = "w\<lparr>lab_replica := snd (Node_Replicate now (lab_net w ! p) (lab_replica w)),
              lab_net := take p (lab_net w) @ drop (Suc p) (lab_net w)\<rparr>"
    have "fixed_A (rreq_Key (lab_net w ! p)) (rreq_Value (lab_net w ! p))" "replica_fixed (lab_replica w)"
      using 2(2) True by (simp_all add: pair_ok_def)
    from replicate_fixed [OF this(2,1) refl, of now]
    have "pair_ok K ?w" using 2(2) by (auto simp: pair_ok_def dest: in_set_takeD in_set_dropD intro: present_mono)
    with 2(1) True show ?thesis by simp
  qed (use 2 in simp)
qed simp

lemma rget_pair:
  assumes "pair_ok K w"
  shows "\<exists>m. fst (lab_rget req w) = Inr (fst (Node_Get req m)) \<and> replica_fixed m \<and> (\<forall>k \<in> K. present k m)"
    and "pair_ok K (snd (lab_rget req w))"
proof -
  let ?w = "case lab_plan w of [] \<Rightarrow> w | ps # pss \<Rightarrow> arrive ps (w\<lparr>lab_plan := pss\<rparr>)"
  have "pair_ok K (w\<lparr>lab_plan := pss\<rparr>)" for pss using assms by (simp add: pair_ok_def)
  then have w: "pair_ok K ?w" using assms arrive_pair by (auto split: list.split)
  have get: "lab_rget req w = (Inr (fst (Node_Get req (lab_replica ?w))),
      ?w\<lparr>lab_replica := snd (Node_Get req (lab_replica ?w))\<rparr>)"
    by (simp add: lab_rget_def Let_def split_beta)
  from w show "\<exists>m. fst (lab_rget req w) = Inr (fst (Node_Get req m)) \<and> replica_fixed m \<and> (\<forall>k \<in> K. present k m)"
    unfolding get by (intro exI [of _ "lab_replica ?w"]) (simp add: pair_ok_def)
  have "NStore (snd (Node_Get req n)) = NStore n" "NBuffer (snd (Node_Get req n)) = NBuffer n" for n :: "nat Node"
    by (auto simp: Node_Get_def Let_def split: option.split)
  with w show "pair_ok K (snd (lab_rget req w))"
    unfolding get by (simp add: pair_ok_def replica_fixed_def present_def)
qed

lemma sleep_pair: "pair_ok K w \<Longrightarrow> pair_ok K (lab_sleep w)"
  by (simp add: pair_ok_def lab_sleep_def)

lemma oget_pair:
  assumes "pair_ok K w" and "lab_oget req w = (r, w')"
  shows "pair_ok K w'" "lab_time w' = lab_time w" "\<not> isl r"
  using assms
  by (auto simp: lab_oget_def pair_ok_def Node_Get_def Let_def split: prod.splits option.splits if_splits)

lemma put_pair:
  assumes ok: "pair_ok K w" and P: "fixed_A (put_Key req) (put_Value req)" and out: "lab_put j req w = (r, w')"
  shows "pair_ok K w' \<and> lab_time w' = lab_time w"
proof -
  obtain r' n rpcs where put: "Node_Put (lab_time w) (\<lambda>_ _. RPCError) req (lab_origin w) = (r', n, rpcs)"
    by (rule prod_cases3)
  have w': "w' = w\<lparr>lab_origin := n, lab_net := lab_net w @ map rpc_request (filter (\<lambda>x. rpc_peer x = j) rpcs)\<rparr>"
    using out put by (simp add: lab_put_def)
  have "Mode (fst (snd (Node_Put t call req m))) = Mode m \<and> NHandler (fst (snd (Node_Put t call req m))) = NHandler m"
    for t call and m :: "nat Node"
    by (simp add: Node_Put_def write_through_def Let_def split_beta frame_simps split: sum.split option.split)
  from this [of "lab_time w" "\<lambda>_ _. RPCError" "lab_origin w"]
  have "Mode n = Mode (lab_origin w)" "NHandler n = NHandler (lab_origin w)" by (simp_all add: put)
  moreover have "rreq_Key (rpc_request x) = put_Key req \<and> rreq_Value (rpc_request x) = put_Value req"
    if "x \<in> set rpcs" for x using Put_rpcs [OF put that] by simp
  ultimately show ?thesis using ok P by (auto simp: w' pair_ok_def)
qed

text \<open>Where the replica has the first key, the poll finds the order kept.\<close>

interpretation rerun_ordered: ordered_client lab_rget lab_now lab_sleep "\<lambda>w. sint (lab_time w)"
  "pair_ok (insert (chain_keyA i) K)" "\<lambda>_. True" "chain_keyA i" "chain_valA i" "chain_keyB i" "chain_valB i" for i K
proof
  fix w :: lab and r
  let ?K = "insert (chain_keyA i) K"
  assume ok: "pair_ok ?K w"
  show "\<exists>resp. fst (lab_rget \<lparr>get_Key = chain_keyB i\<rparr> w) = Inr resp \<and>
      (getr_Found resp \<and> getr_Value resp = chain_valB i \<longrightarrow> True)"
    using rget_pair(1) [OF ok] by blast
  obtain m where m: "fst (lab_rget \<lparr>get_Key = chain_keyA i\<rparr> w) = Inr (fst (Node_Get \<lparr>get_Key = chain_keyA i\<rparr> m))"
    "replica_fixed m" "present (chain_keyA i) m" using rget_pair(1) [OF ok] by blast
  then show "\<exists>resp. fst (lab_rget \<lparr>get_Key = chain_keyA i\<rparr> w) = Inr resp \<and>
      (True \<longrightarrow> getr_Found resp \<and> getr_Value resp = chain_valA i)"
    by (auto simp: present_def replica_fixed_def Node_Get_def Store_Get_def)
  show "pair_ok ?K (snd (lab_rget r w))" using ok by (rule rget_pair(2))
  show "pair_ok ?K (lab_sleep w)" using ok by (rule sleep_pair)
qed

section \<open>A run\<close>

lemma run_pair:
  assumes "pair_ok K w" and "sint (lab_time w) + int n * 502000000 \<le> 2 ^ 63"
  shows "\<exists>out w'. chain_loop (lab_put j) lab_oget lab_rget lab_now lab_sleep n i res w = Some (out, w') \<and>
    pair_ok K w' \<and> sint (lab_time w') \<le> sint (lab_time w) + int n * 502000000 \<and>
    ((\<forall>m < n. chain_keyA (i + int m) \<in> K) \<longrightarrow> trials_in_order n res out)"
  using assms
proof (induction n arbitrary: i res w)
  case 0
  then show ?case by (simp add: trials_in_order_def)
next
  case (Suc n)
  note unfold = chain_loop_unfold [of "lab_put j" lab_oget lab_rget lab_now lab_sleep n i res w]
  have fixed: "fixed_A (chain_keyA i) (chain_valA i)" "fixed_A (chain_keyB i) (chain_valB i)"
    by (simp_all add: fixed_A_def)
  obtain r1 w1 where A: "lab_put j \<lparr>put_Key = chain_keyA i, put_Value = chain_valA i\<rparr> w = (r1, w1)"
    by (rule prod.exhaust)
  obtain r2 w2 where G: "lab_oget \<lparr>get_Key = chain_keyA i\<rparr> w1 = (r2, w2)" by (rule prod.exhaust)
  obtain r3 w3 where B: "lab_put j \<lparr>put_Key = chain_keyB i, put_Value = chain_valB i\<rparr> w2 = (r3, w3)"
    by (rule prod.exhaust)
  have w1: "pair_ok K w1" "lab_time w1 = lab_time w" using put_pair [OF Suc.prems(1) _ A] fixed by simp_all
  note w2 = oget_pair [OF w1(1) G]
  have w3: "pair_ok K w3" "lab_time w3 = lab_time w" using put_pair [OF w2(1) _ B] fixed w1 w2 by simp_all
  have kept: "pair_ok K v \<Longrightarrow> pair_ok K (snd (lab_rget r v))" "pair_ok K v \<Longrightarrow> pair_ok K (lab_sleep v)" for r v
    by (rule rget_pair(2), assumption, rule sleep_pair)
  have "sint (lab_time w3) + 502000000 \<le> 2 ^ 63" using Suc.prems(2) w3(2) by simp
  with lab_paced.pollCausalViolation_returns [where window = 500000000 and w = w3 and I = "pair_ok K" and
      kA = "chain_keyA i" and vA = "chain_valA i" and kB = "chain_keyB i" and vB = "chain_valB i", OF _ _ kept w3(1)]
  obtain b w4 where poll: "pollCausalViolation lab_rget lab_now lab_sleep (chain_keyA i) (chain_valA i)
      (chain_keyB i) (chain_valB i) 500000000 w3 = Some (b, w4)" "pair_ok K w4"
    "sint (lab_time w4) \<le> sint (lab_time w) + 502000000" using w3(2) by auto
  have b: "\<not> b" if "chain_keyA i \<in> K"
    using rerun_ordered.poll_finds_no_violation [of i K w3 500000000] poll(1) w3 Suc.prems(2) that
    by (auto simp: insert_absorb)
  let ?res = "res\<lparr>TrialViolations := TrialViolations res @ [b],
      Violations := (if b then Violations res + 1 else Violations res)\<rparr>"
  have "sint (lab_time w4) + int n * 502000000 \<le> 2 ^ 63" using poll(3) Suc.prems(2) by simp
  from Suc.IH [OF poll(2) this, of "i + 1" ?res] obtain out w' where
    rest: "chain_loop (lab_put j) lab_oget lab_rget lab_now lab_sleep n (i + 1) ?res w4 = Some (out, w')"
    "pair_ok K w'" "sint (lab_time w') \<le> sint (lab_time w4) + int n * 502000000"
    "(\<forall>m < n. chain_keyA (i + 1 + int m) \<in> K) \<longrightarrow> trials_in_order n ?res out" by blast
  have in_order: "trials_in_order (Suc n) res out" if K: "\<forall>m < Suc n. chain_keyA (i + int m) \<in> K"
  proof -
    have "chain_keyA (i + 1 + int m) \<in> K" if "m < n" for m
      using K [rule_format, of "Suc m"] that by (simp add: algebra_simps)
    moreover have "\<not> b" using b K [rule_format, of 0] by simp
    ultimately show ?thesis using rest(4) by (auto intro: trials_in_order_Suc)
  qed
  consider "isl r1" | "\<not> isl r1" "isl r3" | "\<not> isl r1" "\<not> isl r3" by blast
  then show ?case
  proof cases
    case 1
    then have "chain_loop (lab_put j) lab_oget lab_rget lab_now lab_sleep (Suc n) i res w =
        Some ((res, Some (projl r1)), w1)"
      unfolding unfold using A by (cases r1) auto
    with w1 show ?thesis by (auto simp: trials_in_order_error)
  next
    case 2
    then have "chain_loop (lab_put j) lab_oget lab_rget lab_now lab_sleep (Suc n) i res w =
        Some ((res, Some (projl r3)), w3)"
      unfolding unfold using A G B w2(3) by (cases r1; cases r2; cases r3) auto
    with w3 show ?thesis by (auto simp: trials_in_order_error)
  next
    case 3
    then have "chain_loop (lab_put j) lab_oget lab_rget lab_now lab_sleep (Suc n) i res w = Some (out, w')"
      unfolding unfold using A G B w2(3) poll(1) rest(1) by (cases r1; cases r2; cases r3) auto
    with rest(2,3) poll(3) in_order show ?thesis by auto
  qed
qed

section \<open>A violation, and the same arrivals again\<close>

text \<open>
  In a run of one trial the second message arrives before the first read of the poll; the first
  message arrives only between the runs.
\<close>

definition pair_of :: "Store \<Rightarrow> Clock \<Rightarrow> Store \<Rightarrow> Clock \<Rightarrow> ReplicateRequest list \<Rightarrow> (nat \<times> int64) list list \<Rightarrow> lab" where
  "pair_of so oc sr rc msgs plan = \<lparr>lab_time = 1000000,
     lab_origin = NewNode ''eventual'' so oc None (EventualHandler [1] ex_opts),
     lab_replica = NewNode ''eventual'' sr rc None (EventualHandler [0] ex_opts),
     lab_net = msgs, lab_plan = plan\<rparr>"

definition ex_pair :: lab where
  "ex_pair = pair_of Store_New (Clock_New 0) Store_New (Clock_New 0) [] [[(1, 5)]]"

lemma ex_pair_fresh: "fresh_pair ''eventual'' ex_pair"
proof -
  have "start_node ''eventual'' [1] ex_opts 0 = Some (lab_origin ex_pair)"
    "start_node ''eventual'' [0] ex_opts 0 = Some (lab_replica ex_pair)"
    by (simp_all add: start_node_def wire_node_def validModes_def NewHandler_def ex_pair_def pair_of_def Let_def)
  then show ?thesis by (auto simp: fresh_pair_def ex_pair_def pair_of_def)
qed

lemmas pair_eval = pair_of_def NewNode_def lab_put_def lab_oget_def lab_rget_def Node_Put_def Node_Get_def
  write_through_def take_deps_def EventualHandler_OnWrite_def send_to_def Clock_Send_cases Clock_Receive_cases
  Node_Replicate_def deliver_value_def apply_direct_def Store_Apply_def Store_Put_def Store_Get_def Store_New_def
  Clock_New_def buildReplicateRequest_def replicated_value_def Compare_order less_eq_Timestamp_iff

text \<open>The values, and the states of the pair: two versions of each write, by the counter of its timestamp.\<close>

definition ex_A :: "int32 \<Rightarrow> Value" where
  "ex_A c = \<lparr>Data = chain_valA 0, ValTS = Timestamp 1000000 c, Deps = [], Deleted = False\<rparr>"

definition ex_B :: "int32 \<Rightarrow> Value" where
  "ex_B c = \<lparr>Data = chain_valB 0, ValTS = Timestamp 1000000 c, Deps = [], Deleted = False\<rparr>"

definition ex_AB :: "int32 \<Rightarrow> int32 \<Rightarrow> Store" where
  "ex_AB a b = \<lparr>store_data = [chain_keyA 0 \<mapsto> ex_A a, chain_keyB 0 \<mapsto> ex_B b]\<rparr>"

definition ex_req :: "int32 \<Rightarrow> int32 \<Rightarrow> ReplicateRequest list" where
  "ex_req a b = [buildReplicateRequest (chain_keyA 0) (ex_A a) [], buildReplicateRequest (chain_keyB 0) (ex_B b) []]"

lemmas ex_eval = pair_eval ex_pair_def ex_A_def ex_B_def ex_AB_def ex_req_def

text \<open>A trial whose poll decides in its first pass.\<close>

lemma one_trial:
  assumes "lab_put 1 \<lparr>put_Key = chain_keyA 0, put_Value = chain_valA 0\<rparr> w = (Inr r1, w1)"
    and "lab_oget \<lparr>get_Key = chain_keyA 0\<rparr> w1 = (Inr r2, w2)"
    and "lab_put 1 \<lparr>put_Key = chain_keyB 0, put_Value = chain_valB 0\<rparr> w2 = (Inr r3, w3)"
    and "lab_rget \<lparr>get_Key = chain_keyB 0\<rparr> w3 = (Inr rB, w4)" and "lab_rget \<lparr>get_Key = chain_keyA 0\<rparr> w4 = (Inr rA, w5)"
    and "getr_Found rB" "getr_Value rB = chain_valB 0" and "lab_time w3 = 1000000"
    and v: "v \<longleftrightarrow> \<not> getr_Found rA \<or> getr_Value rA \<noteq> chain_valA 0"
  shows "MeasureCausalChains (lab_put 1) lab_oget lab_rget lab_now lab_sleep 1 w =
    Some ((\<lparr>cc_Trials = 1, Violations = (if v then 1 else 0), TrialViolations = [v]\<rparr>, None), w5)"
proof -
  have "pollCausalViolation lab_rget lab_now lab_sleep (chain_keyA 0) (chain_valA 0) (chain_keyB 0) (chain_valB 0)
      500000000 w3 = Some (v, w5)"
    unfolding lab_paced.pollCausalViolation_eq
    by (subst lab_paced.poll_unfold) (use assms in \<open>simp add: lab_now_def\<close>)
  then have "chain_loop (lab_put 1) lab_oget lab_rget lab_now lab_sleep (Suc 0) 0
      \<lparr>cc_Trials = 1, Violations = 0, TrialViolations = []\<rparr> w =
    Some ((\<lparr>cc_Trials = 1, Violations = (if v then 1 else 0), TrialViolations = [v]\<rparr>, None), w5)"
    unfolding chain_loop_unfold using assms(1-3) by simp
  then show ?thesis by (simp add: MeasureCausalChains_def)
qed

lemma ex_first_run:
  "MeasureCausalChains (lab_put 1) lab_oget lab_rget lab_now lab_sleep 1 ex_pair =
     Some ((\<lparr>cc_Trials = 1, Violations = 1, TrialViolations = [True]\<rparr>, None),
       pair_of (ex_AB 0 1) \<lparr>clk_l = 1000000, clk_c = 1\<rparr> \<lparr>store_data = [chain_keyB 0 \<mapsto> ex_B 1]\<rparr>
         \<lparr>clk_l = 1000000, clk_c = 2\<rparr> [buildReplicateRequest (chain_keyA 0) (ex_A 0) []] [])"
proof -
  let ?a = "\<lparr>putr_Timestamp = Some (toProtoTS (Timestamp 1000000 0))\<rparr>"
  let ?b = "\<lparr>putr_Timestamp = Some (toProtoTS (Timestamp 1000000 1))\<rparr>"
  let ?w1 = "pair_of (\<lparr>store_data = [chain_keyA 0 \<mapsto> ex_A 0]\<rparr>) \<lparr>clk_l = 1000000, clk_c = 0\<rparr> Store_New (Clock_New 0) [buildReplicateRequest (chain_keyA 0) (ex_A 0) []] [[(1, 5)]]"
  let ?w3 = "pair_of (ex_AB 0 1) \<lparr>clk_l = 1000000, clk_c = 1\<rparr> Store_New (Clock_New 0) (ex_req 0 1) [[(1, 5)]]"
  let ?w5 = "pair_of (ex_AB 0 1) \<lparr>clk_l = 1000000, clk_c = 1\<rparr> (\<lparr>store_data = [chain_keyB 0 \<mapsto> ex_B 1]\<rparr>) \<lparr>clk_l = 1000000, clk_c = 2\<rparr> [buildReplicateRequest (chain_keyA 0) (ex_A 0) []] []"
  have "lab_put 1 \<lparr>put_Key = chain_keyA 0, put_Value = chain_valA 0\<rparr> (ex_pair) = (Inr ?a, ?w1)"
    by (simp add: ex_eval fun_upd_twist)
  moreover have "lab_oget \<lparr>get_Key = chain_keyA 0\<rparr> ?w1 =
      (Inr \<lparr>getr_Value = chain_valA 0, getr_Timestamp = Some (toProtoTS (Timestamp 1000000 0)), getr_Found = True\<rparr>, ?w1)"
    by (simp add: ex_eval)
  moreover have "lab_put 1 \<lparr>put_Key = chain_keyB 0, put_Value = chain_valB 0\<rparr> ?w1 = (Inr ?b, ?w3)"
    by (simp add: ex_eval fun_upd_twist)
  moreover have "lab_rget \<lparr>get_Key = chain_keyB 0\<rparr> ?w3 =
      (Inr \<lparr>getr_Value = chain_valB 0, getr_Timestamp = Some (toProtoTS (Timestamp 1000000 1)), getr_Found = True\<rparr>, ?w5)"
    by (simp add: ex_eval fun_upd_twist)
  moreover have "lab_rget \<lparr>get_Key = chain_keyA 0\<rparr> ?w5 =
      (Inr \<lparr>getr_Value = [], getr_Timestamp = None, getr_Found = False\<rparr>, ?w5)"
    by (simp add: ex_eval)
  ultimately show ?thesis by (rule one_trial [where v = True, THEN trans]) (simp_all add: pair_of_def)
qed

text \<open>Between the runs the first message arrives.\<close>

lemma ex_between:
  "(arrive [(0, 5)] (pair_of (ex_AB 0 1) \<lparr>clk_l = 1000000, clk_c = 1\<rparr> \<lparr>store_data = [chain_keyB 0 \<mapsto> ex_B 1]\<rparr>
      \<lparr>clk_l = 1000000, clk_c = 2\<rparr> [buildReplicateRequest (chain_keyA 0) (ex_A 0) []] []))\<lparr>lab_plan := [[(1, 5)]]\<rparr> =
    pair_of (ex_AB 0 1) \<lparr>clk_l = 1000000, clk_c = 1\<rparr> (ex_AB 0 1) \<lparr>clk_l = 1000000, clk_c = 3\<rparr> [] [[(1, 5)]]"
  by (simp add: pair_eval ex_AB_def ex_A_def ex_B_def fun_upd_twist)

lemma ex_second_run:
  "MeasureCausalChains (lab_put 1) lab_oget lab_rget lab_now lab_sleep 1
     (pair_of (ex_AB 0 1) \<lparr>clk_l = 1000000, clk_c = 1\<rparr> (ex_AB 0 1) \<lparr>clk_l = 1000000, clk_c = 3\<rparr> [] [[(1, 5)]]) =
     Some ((\<lparr>cc_Trials = 1, Violations = 0, TrialViolations = [False]\<rparr>, None),
       pair_of (ex_AB 2 3) \<lparr>clk_l = 1000000, clk_c = 3\<rparr> (ex_AB 0 3)
         \<lparr>clk_l = 1000000, clk_c = 4\<rparr> [buildReplicateRequest (chain_keyA 0) (ex_A 2) []] [])"
proof -
  let ?a = "\<lparr>putr_Timestamp = Some (toProtoTS (Timestamp 1000000 2))\<rparr>"
  let ?b = "\<lparr>putr_Timestamp = Some (toProtoTS (Timestamp 1000000 3))\<rparr>"
  let ?w1 = "pair_of (ex_AB 2 1) \<lparr>clk_l = 1000000, clk_c = 2\<rparr> (ex_AB 0 1) \<lparr>clk_l = 1000000, clk_c = 3\<rparr> [buildReplicateRequest (chain_keyA 0) (ex_A 2) []] [[(1, 5)]]"
  let ?w3 = "pair_of (ex_AB 2 3) \<lparr>clk_l = 1000000, clk_c = 3\<rparr> (ex_AB 0 1) \<lparr>clk_l = 1000000, clk_c = 3\<rparr> (ex_req 2 3) [[(1, 5)]]"
  let ?w5 = "pair_of (ex_AB 2 3) \<lparr>clk_l = 1000000, clk_c = 3\<rparr> (ex_AB 0 3) \<lparr>clk_l = 1000000, clk_c = 4\<rparr> [buildReplicateRequest (chain_keyA 0) (ex_A 2) []] []"
  have "lab_put 1 \<lparr>put_Key = chain_keyA 0, put_Value = chain_valA 0\<rparr> (pair_of (ex_AB 0 1) \<lparr>clk_l = 1000000, clk_c = 1\<rparr> (ex_AB 0 1) \<lparr>clk_l = 1000000, clk_c = 3\<rparr> [] [[(1, 5)]]) = (Inr ?a, ?w1)"
    by (simp add: ex_eval fun_upd_twist)
  moreover have "lab_oget \<lparr>get_Key = chain_keyA 0\<rparr> ?w1 =
      (Inr \<lparr>getr_Value = chain_valA 0, getr_Timestamp = Some (toProtoTS (Timestamp 1000000 2)), getr_Found = True\<rparr>, ?w1)"
    by (simp add: ex_eval)
  moreover have "lab_put 1 \<lparr>put_Key = chain_keyB 0, put_Value = chain_valB 0\<rparr> ?w1 = (Inr ?b, ?w3)"
    by (simp add: ex_eval fun_upd_twist)
  moreover have "lab_rget \<lparr>get_Key = chain_keyB 0\<rparr> ?w3 =
      (Inr \<lparr>getr_Value = chain_valB 0, getr_Timestamp = Some (toProtoTS (Timestamp 1000000 3)), getr_Found = True\<rparr>, ?w5)"
    by (simp add: ex_eval fun_upd_twist)
  moreover have "lab_rget \<lparr>get_Key = chain_keyA 0\<rparr> ?w5 =
      (Inr \<lparr>getr_Value = chain_valA 0, getr_Timestamp = Some (toProtoTS (Timestamp 1000000 0)), getr_Found = True\<rparr>, ?w5)"
    by (simp add: ex_eval)
  ultimately show ?thesis by (rule one_trial [where v = False, THEN trans]) (simp_all add: pair_of_def)
qed

section \<open>Properties\<close>

text \<open>
  C31: The causal-chain experiment is blind when it runs a second time on the same nodes. Take any two
  freshly started nodes in eventual mode, any first run, whatever arrives when, and any arrivals after
  it: if the replica then shows the first key of every trial, a second run on this pair returns and
  reports no violation, whatever arrives in which order during it. There is a pair of which the first
  run reports its one trial as violated and, with the same arrivals, the second reports none, although
  the replica again has the origin's version of the second key and not that of the first.
\<close>

theorem rerun_hides_violation:
  assumes "fresh_pair ''eventual'' w"
    and first: "MeasureCausalChains (lab_put j) lab_oget lab_rget lab_now lab_sleep trials w = Some ((res, err), w1)"
    and shown: "\<forall>i. 0 \<le> i \<and> i < trials \<longrightarrow>
      getr_Found (fst (Node_Get \<lparr>get_Key = chain_keyA i\<rparr> (lab_replica (arrive ps w1))))"
    and time: "sint (lab_time w) + trials * 1004000000 \<le> 2 ^ 63"
  shows "(\<exists>res' err' w2. MeasureCausalChains (lab_put j) lab_oget lab_rget lab_now lab_sleep trials
        ((arrive ps w1)\<lparr>lab_plan := plan\<rparr>) = Some ((res', err'), w2) \<and>
      Violations res' = 0 \<and> True \<notin> set (TrialViolations res') \<and>
      (err' = None \<longrightarrow> int (length (TrialViolations res')) = trials)) \<and>
    (\<exists>v v1 v2 r1 r2. fresh_pair ''eventual'' v \<and>
      MeasureCausalChains (lab_put 1) lab_oget lab_rget lab_now lab_sleep 1 v = Some ((r1, None), v1) \<and>
      Violations r1 = 1 \<and>
      MeasureCausalChains (lab_put 1) lab_oget lab_rget lab_now lab_sleep 1
        ((arrive [(0, 5)] v1)\<lparr>lab_plan := lab_plan v\<rparr>) = Some ((r2, None), v2) \<and>
      Violations r2 = 0 \<and>
      Store_GetVersion (chain_keyB 0) (NStore (lab_replica v2)) = Store_GetVersion (chain_keyB 0) (NStore (lab_origin v2)) \<and>
      Store_GetVersion (chain_keyA 0) (NStore (lab_replica v2)) \<noteq> Store_GetVersion (chain_keyA 0) (NStore (lab_origin v2)))"
proof
  let ?K = "{chain_keyA i | i. 0 \<le> i \<and> i < trials}" and ?w = "(arrive ps w1)\<lparr>lab_plan := plan\<rparr>"
  let ?res = "\<lparr>cc_Trials = trials, Violations = 0, TrialViolations = []\<rparr>"
  have n: "0 \<le> trials" using first by (auto simp: MeasureCausalChains_def split: if_splits)
  have bound: "sint (lab_time w) + int (nat trials) * 502000000 \<le> 2 ^ 63" using time n by simp
  from run_pair [OF fresh_pair_ok [OF assms(1)] bound, of j 0 ?res] first n
  have w1: "pair_ok {} w1" "sint (lab_time w1) \<le> sint (lab_time w) + trials * 502000000"
    by (auto simp: MeasureCausalChains_def)
  have "present k (lab_replica (arrive ps w1))" if "k \<in> ?K" for k
    using that shown by (fastforce simp: present_def Node_Get_def Store_Get_def split: option.splits)
  with arrive_pair [OF w1(1), of ps] have w: "pair_ok ?K ?w" "lab_time ?w = lab_time w1"
    by (simp_all add: pair_ok_def)
  have "sint (lab_time ?w) + int (nat trials) * 502000000 \<le> 2 ^ 63" using w(2) w1(2) time n by simp
  from run_pair [OF w(1) this, of j 0 ?res] obtain out w2 where
    run: "chain_loop (lab_put j) lab_oget lab_rget lab_now lab_sleep (nat trials) 0 ?res ?w = Some (out, w2)"
    and "(\<forall>m < nat trials. chain_keyA (0 + int m) \<in> ?K) \<longrightarrow> trials_in_order (nat trials) ?res out" by blast
  moreover have "\<forall>m < nat trials. chain_keyA (0 + int m) \<in> ?K" by auto
  ultimately have "trials_in_order (nat trials) ?res out" by blast
  with run n show "\<exists>res' err' w2. MeasureCausalChains (lab_put j) lab_oget lab_rget lab_now lab_sleep trials ?w =
      Some ((res', err'), w2) \<and> Violations res' = 0 \<and> True \<notin> set (TrialViolations res') \<and>
      (err' = None \<longrightarrow> int (length (TrialViolations res')) = trials)"
    by (cases out) (fastforce simp: MeasureCausalChains_def trials_in_order_def)
next
  have plan: "lab_plan ex_pair = [[(1, 5)]]" by (simp add: ex_pair_def pair_of_def)
  let ?v2 = "pair_of (ex_AB 2 3) \<lparr>clk_l = 1000000, clk_c = 3\<rparr> (ex_AB 0 3)
      \<lparr>clk_l = 1000000, clk_c = 4\<rparr> [buildReplicateRequest (chain_keyA 0) (ex_A 2) []] []"
  have "Store_GetVersion (chain_keyB 0) (NStore (lab_replica ?v2)) = Store_GetVersion (chain_keyB 0) (NStore (lab_origin ?v2))"
    "Store_GetVersion (chain_keyA 0) (NStore (lab_replica ?v2)) \<noteq> Store_GetVersion (chain_keyA 0) (NStore (lab_origin ?v2))"
    by (simp_all add: pair_of_def NewNode_def ex_AB_def ex_A_def ex_B_def Store_GetVersion_def)
  note versions = this and second = ex_second_run [folded ex_between, folded plan]
  have counts: "Violations \<lparr>cc_Trials = 1, Violations = 1, TrialViolations = [True]\<rparr> = 1"
    "Violations \<lparr>cc_Trials = 1, Violations = 0, TrialViolations = [False]\<rparr> = 0" by simp_all
  show "\<exists>v v1 v2 r1 r2. fresh_pair ''eventual'' v \<and>
      MeasureCausalChains (lab_put 1) lab_oget lab_rget lab_now lab_sleep 1 v = Some ((r1, None), v1) \<and>
      Violations r1 = 1 \<and>
      MeasureCausalChains (lab_put 1) lab_oget lab_rget lab_now lab_sleep 1
        ((arrive [(0, 5)] v1)\<lparr>lab_plan := lab_plan v\<rparr>) = Some ((r2, None), v2) \<and>
      Violations r2 = 0 \<and>
      Store_GetVersion (chain_keyB 0) (NStore (lab_replica v2)) = Store_GetVersion (chain_keyB 0) (NStore (lab_origin v2)) \<and>
      Store_GetVersion (chain_keyA 0) (NStore (lab_replica v2)) \<noteq> Store_GetVersion (chain_keyA 0) (NStore (lab_origin v2))"
    by (intro exI conjI) (rule ex_pair_fresh ex_first_run counts(1) second counts(2) versions)+
qed

text \<open>After the violated first run the messages of the second arrive in order or not at all.\<close>

theorem rerun_hides_violation_witness:
  "\<exists>res w1 res' err' w2. MeasureCausalChains (lab_put 1) lab_oget lab_rget lab_now lab_sleep 1 ex_pair =
       Some ((res, None), w1) \<and> Violations res = 1 \<and>
     MeasureCausalChains (lab_put 1) lab_oget lab_rget lab_now lab_sleep 1
       ((arrive [(0, 5)] w1)\<lparr>lab_plan := [[], [(1, 7), (0, 9)]]\<rparr>) = Some ((res', err'), w2) \<and> Violations res' = 0"
proof -
  let ?v1 = "pair_of (ex_AB 0 1) \<lparr>clk_l = 1000000, clk_c = 1\<rparr> \<lparr>store_data = [chain_keyB 0 \<mapsto> ex_B 1]\<rparr>
    \<lparr>clk_l = 1000000, clk_c = 2\<rparr> [buildReplicateRequest (chain_keyA 0) (ex_A 0) []] []"
  have "lab_replica (arrive [(0, 5)] ?v1) =
      lab_replica (pair_of (ex_AB 0 1) \<lparr>clk_l = 1000000, clk_c = 1\<rparr> (ex_AB 0 1) \<lparr>clk_l = 1000000, clk_c = 3\<rparr> [] [[(1, 5)]])"
    unfolding ex_between [symmetric] by simp
  then have shown: "\<forall>i. 0 \<le> i \<and> i < 1 \<longrightarrow>
      getr_Found (fst (Node_Get \<lparr>get_Key = chain_keyA i\<rparr> (lab_replica (arrive [(0, 5)] ?v1))))"
    by (simp add: pair_of_def NewNode_def ex_AB_def ex_A_def Node_Get_def Store_Get_def)
  have time: "sint (lab_time ex_pair) + 1 * 1004000000 \<le> 2 ^ 63" by (simp add: ex_pair_def pair_of_def)
  from rerun_hides_violation [OF ex_pair_fresh ex_first_run shown time] ex_first_run show ?thesis by force
qed

end
