(* ===== verification/Workload.thy ===== *)
theory Workload
  imports GoText Float64
begin

text \<open>
  The workload description of \<open>bench/workload.go\<close>. A \<open>float64\<close> field is a finite double. The YAML
  library is an argument of the loader: the workload it fills in from the bytes of the file, or an
  error. Go's \<open>int\<close> is a HOL integer here: no count is ever increased past one that was read.
\<close>

record Workload =
  wl_Name :: string
  RecordCount :: int
  OperationCount :: int
  ReadProportion :: rat
  UpdateProportion :: rat
  InsertProportion :: rat
  KeyPrefix :: string
  FieldLength :: int
  RequestDistribution :: string
  ZipfianConstant :: rat

definition empty_Workload :: Workload where
  "empty_Workload = \<lparr>wl_Name = [], RecordCount = 0, OperationCount = 0, ReadProportion = 0,
     UpdateProportion = 0, InsertProportion = 0, KeyPrefix = [], FieldLength = 0,
     RequestDistribution = [], ZipfianConstant = 0\<rparr>"

datatype 'e workload_error =
    ReadFailed 'e
  | YamlFailed 'e
  | RecordCountNotPositive
  | OperationCountNotPositive
  | BadProportions rat
  | FieldLengthNotPositive
  | DistributionMissing
  | DistributionUnsupported string

text \<open>The method has a value receiver: its assignment of the default prefix is lost on return.\<close>

definition Validate :: "Workload \<Rightarrow> 'e workload_error option" where
  "Validate w =
     (if RecordCount w \<le> 0 then Some RecordCountNotPositive
      else if OperationCount w \<le> 0 then Some OperationCountNotPositive
      else
        let w' = (if KeyPrefix w = [] then w\<lparr>KeyPrefix := ''user''\<rparr> else w);
            sum = round64 (round64 (ReadProportion w' + UpdateProportion w') + InsertProportion w')
        in if sum < round64 (99 / 100) \<or> sum > round64 (101 / 100) then Some (BadProportions sum)
           else if FieldLength w' \<le> 0 then Some FieldLengthNotPositive
           else if RequestDistribution w' = [] then Some DistributionMissing
           else if RequestDistribution w' = ''uniform'' \<or> RequestDistribution w' = ''zipfian'' then None
           else Some (DistributionUnsupported (RequestDistribution w')))"

text \<open>\<open>file\<close> is what \<open>os.ReadFile\<close> returns. The loader returns a workload beside every error.\<close>

definition LoadWorkload ::
  "('b \<Rightarrow> 'e + Workload) \<Rightarrow> 'e + 'b \<Rightarrow> Workload \<times> 'e workload_error option" where
  "LoadWorkload unmarshal file =
     (case file of
        Inl e \<Rightarrow> (empty_Workload, Some (ReadFailed e))
      | Inr data \<Rightarrow>
          (case unmarshal data of
             Inl e \<Rightarrow> (empty_Workload, Some (YamlFailed e))
           | Inr w \<Rightarrow>
               (let w1 = (if KeyPrefix w = [] then w\<lparr>KeyPrefix := ''user''\<rparr> else w);
                    w2 = (if RequestDistribution w1 = ''zipfian'' \<and> ZipfianConstant w1 = 0
                          then w1\<lparr>ZipfianConstant := round64 (99 / 100)\<rparr> else w1)
                in (w2, Validate w2))))"

definition KeyFor :: "Workload \<Rightarrow> int \<Rightarrow> string" where
  "KeyFor w i = KeyPrefix w @ show_int i"

lemma KeyFor_inj: "KeyFor w i = KeyFor w j \<longleftrightarrow> i = j"
  by (auto simp: KeyFor_def dest: show_int_inj)

lemma KeyFor_inj_on: "inj_on (KeyFor w) A"
  by (simp add: inj_on_def KeyFor_inj)

text \<open>The conditions of a valid workload; the sum of the proportions is the computed one.\<close>

definition proportion_sum :: "Workload \<Rightarrow> rat" where
  "proportion_sum w = round64 (round64 (ReadProportion w + UpdateProportion w) + InsertProportion w)"

lemma Validate_None:
  "Validate w = None \<longleftrightarrow>
     0 < RecordCount w \<and> 0 < OperationCount w \<and> 0 < FieldLength w \<and>
     round64 (99 / 100) \<le> proportion_sum w \<and> proportion_sum w \<le> round64 (101 / 100) \<and>
     RequestDistribution w \<in> {''uniform'', ''zipfian''}"
  by (auto simp: Validate_def proportion_sum_def Let_def not_le not_less)

lemma LoadWorkload_valid: "LoadWorkload unmarshal file = (w, None) \<Longrightarrow> Validate w = (None :: 'e workload_error option)"
  for unmarshal :: "'b \<Rightarrow> 'e + Workload"
  by (auto simp: LoadWorkload_def Let_def split: sum.splits)

text \<open>The two bounds, as doubles: 0.99 becomes a little less and 1.01 a little more.\<close>

lemma round64_constants:
  "round64 (99 / 100) = 8917127262193582 / 2 ^ 53"
  "round64 (101 / 100) = 4548635623644201 / 2 ^ 52"
  by (simp_all add: round64_eval exp_up.simps exp_down.simps [of "99 / 100"] exp_down.simps [of "99 / 50"])

section \<open>Properties\<close>

text \<open>
  C28: A workload that loads without an error can be run: its counts and field length are positive,
  its distribution is one of the two, its keys have a non-empty prefix and differ for different
  indices, and where the file gave it no Zipfian constant it has the default one.
\<close>

theorem LoadWorkload_ok:
  assumes "LoadWorkload unmarshal file = (w, None)"
  shows "0 < RecordCount w \<and> 0 < OperationCount w \<and> 0 < FieldLength w \<and>
    RequestDistribution w \<in> {''uniform'', ''zipfian''} \<and> KeyPrefix w \<noteq> [] \<and>
    (RequestDistribution w = ''zipfian'' \<longrightarrow> ZipfianConstant w \<noteq> 0) \<and>
    (KeyFor w i = KeyFor w j \<longleftrightarrow> i = j)"
proof -
  obtain data v where load: "file = Inr data" "unmarshal data = Inr v"
    using assms by (auto simp: LoadWorkload_def split: sum.splits)
  have "round64 (99 / 100) \<noteq> 0" by (simp add: round64_constants)
  with assms load show ?thesis
    by (auto simp: LoadWorkload_def Let_def Validate_None KeyFor_inj split: if_splits)
qed

definition ex_workload :: Workload where
  "ex_workload = empty_Workload\<lparr>RecordCount := 1000, OperationCount := 100, ReadProportion := 1 / 2,
     UpdateProportion := 1 / 2, FieldLength := 64, RequestDistribution := ''zipfian''\<rparr>"

lemma round64_one: "round64 1 = 1"
  using round64_int [of 1] by simp

lemma ex_workload_valid: "Validate (ex_workload\<lparr>KeyPrefix := p, ZipfianConstant := z\<rparr>) = None"
  by (simp add: Validate_None proportion_sum_def ex_workload_def empty_Workload_def round64_one
      round64_constants)

lemma ex_load:
  "LoadWorkload (\<lambda>_. Inr ex_workload) (Inr ()) =
     (ex_workload\<lparr>KeyPrefix := ''user'', ZipfianConstant := round64 (99 / 100)\<rparr>, None)"
  using ex_workload_valid
  by (simp add: LoadWorkload_def Let_def) (simp add: ex_workload_def empty_Workload_def)

theorem LoadWorkload_ok_witness:
  "KeyPrefix (fst (LoadWorkload (\<lambda>_. Inr ex_workload :: unit + Workload) (Inr ()))) \<noteq> [] \<and>
   ZipfianConstant (fst (LoadWorkload (\<lambda>_. Inr ex_workload :: unit + Workload) (Inr ()))) \<noteq> 0"
proof -
  note load = ex_load [where 'a = unit]
  from LoadWorkload_ok [OF load] show ?thesis
    unfolding load by (simp add: ex_workload_def)
qed

end
