(* ===== verification/Driver.thy ===== *)
theory Driver
  imports Workload Proto "HOL-Library.Signed_Division"
begin

text \<open>
  The benchmark driver of \<open>bench/ycsb_driver.go\<close>. The random source, the client's RPCs, the clock and
  \<open>math.Pow\<close> are arguments: a random source is a state with \<open>f64\<close> and \<open>intn\<close>; RPCs and clock
  readings act on the state of the world. The field length and the counts of a workload are not
  negative, as \<open>LoadWorkload\<close> has it; on others \<open>make\<close> would panic. Writing the CSV file is in
  \<open>ResultFiles\<close>.
\<close>

section \<open>Data\<close>

text \<open>The quotient that \<open>Throughput\<close> holds can leave the finite doubles.\<close>

datatype float64 = Finite rat | PosInf | NaN

record Result =
  res_Mode :: string
  res_Workload :: string
  res_Seed :: int64
  PeerDelayMs :: int
  Operations :: int
  Reads :: int
  Writes :: int
  Errors :: int
  Duration :: int64
  Throughput :: float64
  LatencyP50NS :: int64
  LatencyP95NS :: int64
  LatencyP99NS :: int64
  LatencyAvgNS :: int64

record 'r Driver =
  drv_Workload :: Workload
  drv_Mode :: string
  drv_Seed :: int64
  Rand :: 'r

definition NewDriver :: "int64 \<Rightarrow> (int64 \<Rightarrow> 'r) \<Rightarrow> Workload \<Rightarrow> string \<Rightarrow> int64 \<Rightarrow> 'r Driver" where
  "NewDriver now new_rand w mode seed =
     (let seed' = (if seed = 0 then now else seed)
      in \<lparr>drv_Workload = w, drv_Mode = mode, drv_Seed = seed', Rand = new_rand seed'\<rparr>)"

section \<open>Load\<close>

text \<open>The bytes \<open>first + ((offset + i) % 26)\<close> for the indices of the field.\<close>

definition field_bytes :: "nat \<Rightarrow> nat \<Rightarrow> int \<Rightarrow> bytes" where
  "field_bytes first offset len = map (\<lambda>i. of_nat (first + (offset + i) mod 26)) [0..<nat len]"

fun load_loop ::
  "(PutRequest \<Rightarrow> 'w \<Rightarrow> ('e + PutResponse) \<times> 'w) \<Rightarrow> Workload \<Rightarrow> bytes \<Rightarrow> nat \<Rightarrow> int \<Rightarrow> 'w \<Rightarrow>
   (key \<times> 'e) option \<times> 'w" where
  "load_loop put w value 0 i wd = (None, wd)"
| "load_loop put w value (Suc n) i wd =
     (let key = KeyFor w i in
      case put \<lparr>put_Key = key, put_Value = value\<rparr> wd of
        (Inl e, wd') \<Rightarrow> (Some (key, e), wd')
      | (Inr _, wd') \<Rightarrow> load_loop put w value n (i + 1) wd')"

definition Load ::
  "(PutRequest \<Rightarrow> 'w \<Rightarrow> ('e + PutResponse) \<times> 'w) \<Rightarrow> Workload \<Rightarrow> 'w \<Rightarrow> (key \<times> 'e) option \<times> 'w" where
  "Load put w wd = load_loop put w (field_bytes 97 0 (FieldLength w)) (nat (RecordCount w)) 0 wd"

section \<open>Choice of operation and key\<close>

definition pickOperation :: "('r \<Rightarrow> rat \<times> 'r) \<Rightarrow> Workload \<Rightarrow> 'r \<Rightarrow> string \<times> 'r" where
  "pickOperation f64 w rand =
     (case f64 rand of (r, rand') \<Rightarrow>
        if r < ReadProportion w then (''read'', rand')
        else
          let r' = round64 (r - ReadProportion w)
          in if r' < UpdateProportion w then (''update'', rand') else (''insert'', rand'))"

definition zipfianIndex ::
  "('r \<Rightarrow> rat \<times> 'r) \<Rightarrow> (rat \<Rightarrow> rat \<Rightarrow> rat) \<Rightarrow> 'r \<Rightarrow> int \<Rightarrow> rat \<Rightarrow> int \<times> 'r" where
  "zipfianIndex f64 pow rand n theta =
     (if n \<le> 1 then (0, rand)
      else
        let theta' = (if theta \<le> 0 then round64 (99 / 100) else theta) in
        case f64 rand of (u, rand') \<Rightarrow>
          let idx = go_int (round64 (round64 (of_int n) * pow u (round64 (1 / theta'))))
          in (if idx \<ge> n then n - 1 else idx, rand'))"

fun fnv_loop :: "nat \<Rightarrow> int64 \<Rightarrow> uint64 \<Rightarrow> uint64" where
  "fnv_loop 0 val hash = hash"
| "fnv_loop (Suc k) val hash =
     fnv_loop k (signed_drop_bit 8 val) (xor hash (and val 255) * 0x100000001b3)"

definition fnvHash64 :: "int64 \<Rightarrow> uint64" where
  "fnvHash64 val = fnv_loop 8 val 0xcbf29ce484222325"

definition scrambledZipfianIndex ::
  "('r \<Rightarrow> rat \<times> 'r) \<Rightarrow> (rat \<Rightarrow> rat \<Rightarrow> rat) \<Rightarrow> 'r \<Rightarrow> int \<Rightarrow> rat \<Rightarrow> int \<times> 'r" where
  "scrambledZipfianIndex f64 pow rand n theta =
     (if n \<le> 1 then (0, rand)
      else
        (case zipfianIndex f64 pow rand n theta of (raw, rand') \<Rightarrow>
           (uint (fnvHash64 (of_int raw)) mod n, rand')))"

definition pickKey ::
  "('r \<Rightarrow> rat \<times> 'r) \<Rightarrow> (int \<Rightarrow> 'r \<Rightarrow> int \<times> 'r) \<Rightarrow> (rat \<Rightarrow> rat \<Rightarrow> rat) \<Rightarrow> Workload \<Rightarrow> 'r \<Rightarrow> string \<times> 'r" where
  "pickKey f64 intn pow w rand =
     (let n = RecordCount w in
      case (if RequestDistribution w = ''zipfian''
            then scrambledZipfianIndex f64 pow rand n (ZipfianConstant w)
            else if RequestDistribution w = ''uniform'' then intn n rand
            else intn n rand) of
        (idx, rand') \<Rightarrow> (KeyFor w idx, rand'))"

section \<open>Summaries\<close>

definition percentile :: "int64 list \<Rightarrow> rat \<Rightarrow> int64" where
  "percentile vals p =
     (if vals = [] then 0
      else vals ! nat (go_int (round64 (round64 (of_int (int (length vals) - 1)) * p))))"

text \<open>\<open>sort.Slice\<close> with \<open><\<close> on the values puts them in ascending order.\<close>

definition summarize :: "int64 list \<Rightarrow> int64 \<times> int64 \<times> int64 \<times> int64" where
  "summarize latencies =
     (if latencies = [] then (0, 0, 0, 0)
      else
        let vals = sort_key sint latencies;
            sum = fold (\<lambda>v sum. sum + v) vals 0;
            avg = word_of_int (sint sum sdiv int (length vals));
            p50 = percentile vals (round64 (50 / 100));
            p95 = percentile vals (round64 (95 / 100));
            p99 = percentile vals (round64 (99 / 100))
        in (p50, p95, p99, avg))"

section \<open>Run\<close>

type_synonym ('e, 'w) kv_client =
  "(GetRequest \<Rightarrow> 'w \<Rightarrow> ('e + GetResponse) \<times> 'w) \<times> (PutRequest \<Rightarrow> 'w \<Rightarrow> ('e + PutResponse) \<times> 'w)"

text \<open>The \<open>switch\<close> on the operation: whether it failed, the counters and the world after it.\<close>

definition run_op :: "('e, 'w) kv_client \<Rightarrow> Workload \<Rightarrow> nat \<Rightarrow> string \<Rightarrow> string \<Rightarrow> Result \<Rightarrow> 'w \<Rightarrow>
  bool \<times> Result \<times> 'w" where
  "run_op client w i op key res wd =
     (if op = ''read'' then
        (case fst client \<lparr>get_Key = key\<rparr> wd of
           (r, wd') \<Rightarrow> (isl r, res\<lparr>Reads := Reads res + 1\<rparr>, wd'))
      else if op = ''update'' \<or> op = ''insert'' then
        (case snd client \<lparr>put_Key = key, put_Value = field_bytes 120 i (FieldLength w)\<rparr> wd of
           (r, wd') \<Rightarrow> (isl r, res\<lparr>Writes := Writes res + 1\<rparr>, wd'))
      else (True, res, wd))"

fun run_loop ::
  "('r \<Rightarrow> rat \<times> 'r) \<Rightarrow> (int \<Rightarrow> 'r \<Rightarrow> int \<times> 'r) \<Rightarrow> (rat \<Rightarrow> rat \<Rightarrow> rat) \<Rightarrow> ('w \<Rightarrow> int64 \<times> 'w) \<Rightarrow>
   ('e, 'w) kv_client \<Rightarrow> Workload \<Rightarrow> nat \<Rightarrow> nat \<Rightarrow> 'r \<Rightarrow> Result \<Rightarrow> int64 list \<Rightarrow> 'w \<Rightarrow>
   Result \<times> int64 list \<times> 'r \<times> 'w" where
  "run_loop f64 intn pow time_now client w 0 i rand res latencies wd = (res, latencies, rand, wd)"
| "run_loop f64 intn pow time_now client w (Suc n) i rand res latencies wd =
     (case pickOperation f64 w rand of (op, rand1) \<Rightarrow>
      case pickKey f64 intn pow w rand1 of (key, rand2) \<Rightarrow>
      case time_now wd of (opStart, wd1) \<Rightarrow>
      case run_op client w i op key res wd1 of (failed, res1, wd2) \<Rightarrow>
      case time_now wd2 of (opEnd, wd3) \<Rightarrow>
        run_loop f64 intn pow time_now client w n (Suc i) rand2
          (res1\<lparr>Operations := Operations res1 + 1,
                Errors := (if failed then Errors res1 + 1 else Errors res1)\<rparr>)
          (latencies @ [opEnd - opStart]) wd3)"

text \<open>\<open>Duration.Seconds\<close>, and the quotient of a count by it.\<close>

definition Seconds :: "int64 \<Rightarrow> rat" where
  "Seconds d = round64 (round64 (of_int (sint d sdiv 1000000000)) +
     round64 (round64 (of_int (sint d smod 1000000000)) / 1000000000))"

definition divide_count :: "int \<Rightarrow> rat \<Rightarrow> float64" where
  "divide_count n secs =
     (if secs = 0 then (if n = 0 then NaN else PosInf) else Finite (round64 (round64 (of_int n) / secs)))"

definition Run ::
  "('r \<Rightarrow> rat \<times> 'r) \<Rightarrow> (int \<Rightarrow> 'r \<Rightarrow> int \<times> 'r) \<Rightarrow> (rat \<Rightarrow> rat \<Rightarrow> rat) \<Rightarrow> ('w \<Rightarrow> int64 \<times> 'w) \<Rightarrow>
   ('e, 'w) kv_client \<Rightarrow> 'r Driver \<Rightarrow> 'w \<Rightarrow> Result \<times> 'r Driver \<times> 'w" where
  "Run f64 intn pow time_now client d wd =
     (let w = drv_Workload d;
          res0 = \<lparr>res_Mode = drv_Mode d, res_Workload = wl_Name w, res_Seed = drv_Seed d,
                  PeerDelayMs = 0, Operations = 0, Reads = 0, Writes = 0, Errors = 0, Duration = 0,
                  Throughput = Finite 0, LatencyP50NS = 0, LatencyP95NS = 0, LatencyP99NS = 0,
                  LatencyAvgNS = 0\<rparr>
      in case time_now wd of (start, wd1) \<Rightarrow>
         case run_loop f64 intn pow time_now client w (nat (OperationCount w)) 0 (Rand d) res0 [] wd1 of
           (res, latencies, rand, wd2) \<Rightarrow>
         case time_now wd2 of (stop, wd3) \<Rightarrow>
         case summarize latencies of (p50, p95, p99, avg) \<Rightarrow>
           (res\<lparr>Duration := stop - start,
                Throughput := divide_count (Operations res) (Seconds (stop - start)),
                LatencyP50NS := p50, LatencyP95NS := p95, LatencyP99NS := p99, LatencyAvgNS := avg\<rparr>,
            d\<lparr>Rand := rand\<rparr>, wd3))"

section \<open>Rows\<close>

definition SummaryHeader :: "string list" where
  "SummaryHeader = [''mode'', ''workload'', ''seed'', ''peer_delay_ms'', ''operations'', ''reads'',
     ''writes'', ''errors'', ''duration_ms'', ''throughput_ops'', ''latency_p50_ns'',
     ''latency_p95_ns'', ''latency_p99_ns'', ''latency_avg_ns'']"

text \<open>The format \<open>%.kf\<close>: the exact decimal value rounded to \<open>k\<close> places, ties to even.\<close>

definition show_fixed :: "nat \<Rightarrow> rat \<Rightarrow> string" where
  "show_fixed k x =
     (let n = nat (half_even (\<bar>x\<bar> * 10 ^ k));
          frac = show_nat (n mod 10 ^ k)
      in (if x < 0 then ''-'' else '''') @ show_nat (n div 10 ^ k) @ ''.'' @
         replicate (k - length frac) (CHR ''0'') @ frac)"

fun show_float :: "nat \<Rightarrow> float64 \<Rightarrow> string" where
  "show_float k (Finite x) = show_fixed k x"
| "show_float k PosInf = ''+Inf''"
| "show_float k NaN = ''NaN''"

definition Row :: "Result \<Rightarrow> string list" where
  "Row r = [res_Mode r, res_Workload r, show_int (sint (res_Seed r)), show_int (PeerDelayMs r),
     show_int (Operations r), show_int (Reads r), show_int (Writes r), show_int (Errors r),
     show_fixed 3 (round64 (Seconds (Duration r) * 1000)), show_float 2 (Throughput r),
     show_int (sint (LatencyP50NS r)), show_int (sint (LatencyP95NS r)),
     show_int (sint (LatencyP99NS r)), show_int (sint (LatencyAvgNS r))]"

fun dir_loop :: "nat \<Rightarrow> string \<Rightarrow> string" where
  "dir_loop 0 path = ''.''"
| "dir_loop (Suc i) path = (if path ! i = CHR ''/'' then take i path else dir_loop i path)"

definition dirOf :: "string \<Rightarrow> string" where
  "dirOf path = dir_loop (length path) path"

section \<open>Ranges\<close>

text \<open>What the documentation of \<open>math/rand\<close> and \<open>math\<close> promises.\<close>

definition rand_ok :: "('r \<Rightarrow> rat \<times> 'r) \<Rightarrow> (int \<Rightarrow> 'r \<Rightarrow> int \<times> 'r) \<Rightarrow> bool" where
  "rand_ok f64 intn \<longleftrightarrow> (\<forall>r. 0 \<le> fst (f64 r) \<and> fst (f64 r) < 1) \<and>
     (\<forall>n r. 0 < n \<longrightarrow> 0 \<le> fst (intn n r) \<and> fst (intn n r) < n)"

definition pow_ok :: "(rat \<Rightarrow> rat \<Rightarrow> rat) \<Rightarrow> bool" where
  "pow_ok pow \<longleftrightarrow> (\<forall>u x. 0 \<le> u \<and> u < 1 \<longrightarrow> 0 \<le> pow u x)"

lemma zipfianIndex_range:
  assumes "rand_ok f64 intn" and "pow_ok pow" and "0 < n"
  shows "0 \<le> fst (zipfianIndex f64 pow rand n theta) \<and> fst (zipfianIndex f64 pow rand n theta) < n"
proof (cases "n \<le> 1")
  case True
  with assms(3) show ?thesis by (simp add: zipfianIndex_def)
next
  case False
  have "0 \<le> pow (fst (f64 rand)) x" for x using assms(1,2) by (simp add: rand_ok_def pow_ok_def)
  then have "0 \<le> go_int (round64 (round64 (of_int n) * pow (fst (f64 rand)) x))" for x
    using assms(3) by (intro go_int_nonneg round64_nonneg mult_nonneg_nonneg) simp_all
  with False show ?thesis by (auto simp: zipfianIndex_def Let_def split_beta)
qed

lemma scrambled_range:
  "0 < n \<Longrightarrow> 0 \<le> fst (scrambledZipfianIndex f64 pow rand n theta) \<and>
     fst (scrambledZipfianIndex f64 pow rand n theta) < n"
  by (simp add: scrambledZipfianIndex_def split_beta)

lemma pickKey_range:
  assumes "rand_ok f64 intn" and "0 < RecordCount w"
  shows "\<exists>i. 0 \<le> i \<and> i < RecordCount w \<and> fst (pickKey f64 intn pow w rand) = KeyFor w i"
proof -
  have "0 \<le> fst (intn (RecordCount w) rand) \<and> fst (intn (RecordCount w) rand) < RecordCount w"
    using assms by (simp add: rand_ok_def)
  with scrambled_range [OF assms(2), of f64 pow rand "ZipfianConstant w"] show ?thesis
    by (cases "RequestDistribution w = ''zipfian''") (auto simp: pickKey_def Let_def split_beta)
qed

lemma percentile_nth: "vals \<noteq> [] \<Longrightarrow> percentile vals p = vals ! percentile_index (length vals) p"
  by (simp add: percentile_def percentile_index_def)

lemma fractions: "0 \<le> round64 (50 / 100)" "round64 (50 / 100) \<le> round64 (95 / 100)"
  "round64 (95 / 100) \<le> round64 (99 / 100)" "round64 (99 / 100) \<le> 1"
proof -
  have "round64 (99 / 100) \<le> round64 1" by (rule round64_mono) simp_all
  then show "round64 (99 / 100) \<le> 1" by (simp add: round64_one)
qed (auto intro: round64_mono round64_nonneg)

section \<open>The hash\<close>

text \<open>The prime is odd, so multiplying by it can be undone.\<close>

lemma prime_inverse: "(0x100000001b3 :: uint64) * 14886173955864302971 = 1"
  by simp

lemma times_prime_inj: "(a :: uint64) * 0x100000001b3 = b * 0x100000001b3 \<Longrightarrow> a = b"
proof -
  assume "a * 0x100000001b3 = b * 0x100000001b3"
  then have "a * (0x100000001b3 * 14886173955864302971) = b * (0x100000001b3 * 14886173955864302971)"
    by (simp only: mult.assoc [symmetric])
  then show "a = b" by (simp only: prime_inverse mult_1_right)
qed

lemma xor_right_inj: "xor a c = xor b c \<Longrightarrow> a = (b :: 'a::len word)"
  by (metis xor.assoc xor_self_eq xor.right_neutral)

lemma xor_left_inj: "xor c a = xor c b \<Longrightarrow> a = (b :: 'a::len word)"
  by (metis xor.commute xor_right_inj)

lemma fnv_loop_inj: "fnv_loop k val h = fnv_loop k val h' \<Longrightarrow> h = h'"
proof (induction k arbitrary: val h h')
  case 0
  then show ?case by simp
next
  case (Suc k)
  then have "xor h (and val 255) * 0x100000001b3 = xor h' (and val 255) * 0x100000001b3" by simp
  then show ?case by (blast dest: times_prime_inj xor_right_inj)
qed

lemma split_low_byte:
  assumes "and a 255 = and b (255 :: int64)" and "signed_drop_bit 8 a = signed_drop_bit 8 b"
  shows "a = b"
proof (rule bit_word_eqI)
  fix n
  assume n: "n < LENGTH(64)"
  have m: "(255 :: int64) = mask 8" by (simp add: mask_eq_exp_minus_1)
  show "bit a n = bit b n"
  proof (cases "n < 8")
    case True
    have "bit (and a (mask 8)) n = bit (and b (mask 8)) n" using assms(1) by (simp only: m)
    with True n show ?thesis by (simp add: bit_simps)
  next
    case False
    have "bit (signed_drop_bit 8 a) (n - 8) = bit (signed_drop_bit 8 b) (n - 8)" using assms(2) by simp
    with False n show ?thesis by (auto simp: bit_simps split: if_splits)
  qed
qed

section \<open>The loops\<close>

fun put_all ::
  "(PutRequest \<Rightarrow> 'w \<Rightarrow> ('e + PutResponse) \<times> 'w) \<Rightarrow> PutRequest list \<Rightarrow> 'w \<Rightarrow> (key \<times> 'e) option \<times> 'w" where
  "put_all put [] wd = (None, wd)"
| "put_all put (req # reqs) wd =
     (case put req wd of
        (Inl e, wd') \<Rightarrow> (Some (put_Key req, e), wd')
      | (Inr _, wd') \<Rightarrow> put_all put reqs wd')"

definition load_requests :: "Workload \<Rightarrow> PutRequest list" where
  "load_requests w = map (\<lambda>i. \<lparr>put_Key = KeyFor w (int i), put_Value = field_bytes 97 0 (FieldLength w)\<rparr>)
     [0..<nat (RecordCount w)]"

lemma load_loop_put_all:
  "load_loop put w value n (int i) wd =
     put_all put (map (\<lambda>i. \<lparr>put_Key = KeyFor w (int i), put_Value = value\<rparr>) [i..<i + n]) wd"
proof (induction n arbitrary: i wd)
  case 0
  then show ?case by simp
next
  case (Suc n)
  have "[i..<i + Suc n] = i # [Suc i..<Suc i + n]" by (simp add: upt_rec)
  moreover have "int i + 1 = int (Suc i)" by simp
  ultimately show ?case using Suc.IH [of "Suc i"]
    by (simp only: load_loop.simps Let_def list.map put_all.simps) (auto split: prod.splits sum.splits)
qed

lemma Load_put_all: "Load put w wd = put_all put (load_requests w) wd"
  using load_loop_put_all [of put w _ _ 0] by (simp add: Load_def load_requests_def)

lemma load_requests_keys: "put_Key ` set (load_requests w) = KeyFor w ` {0..<RecordCount w}"
proof -
  have "put_Key ` set (load_requests w) = KeyFor w ` int ` {0..<nat (RecordCount w)}"
    by (simp add: load_requests_def image_image)
  also have "int ` {0..<nat (RecordCount w)} = {0..<RecordCount w}"
    by (simp add: image_int_atLeastLessThan)
  finally show ?thesis .
qed

lemma run_op_counts:
  assumes "run_op client w i op key res wd = (failed, res', wd')" and "op \<in> {''read'', ''update'', ''insert''}"
  shows "Reads res' + Writes res' = Reads res + Writes res + 1 \<and> Errors res' = Errors res \<and>
    Operations res' = Operations res"
  using assms by (auto simp: run_op_def split: if_splits prod.splits)

lemma pickOperation_known: "fst (pickOperation f64 w rand) \<in> {''read'', ''update'', ''insert''}"
  by (simp add: pickOperation_def split_beta Let_def)

lemma run_loop_counts:
  assumes "run_loop f64 intn pow time_now client w n i rand res lats wd = (res', lats', rand', wd')"
  shows "Operations res' = Operations res + int n \<and>
    Reads res' + Writes res' = Reads res + Writes res + int n \<and>
    Errors res \<le> Errors res' \<and> Errors res' \<le> Errors res + int n \<and>
    length lats' = length lats + n"
  using assms
proof (induction n arbitrary: i rand res lats wd)
  case 0
  then show ?case by simp
next
  case (Suc n)
  obtain op rand1 where op: "pickOperation f64 w rand = (op, rand1)" by (rule prod.exhaust)
  obtain key rand2 where key: "pickKey f64 intn pow w rand1 = (key, rand2)" by (rule prod.exhaust)
  obtain t wd1 where t: "time_now wd = (t, wd1)" by (rule prod.exhaust)
  obtain failed res1 wd2 where run: "run_op client w i op key res wd1 = (failed, res1, wd2)"
    by (rule prod_cases3)
  obtain t' wd3 where t': "time_now wd2 = (t', wd3)" by (rule prod.exhaust)
  have "op \<in> {''read'', ''update'', ''insert''}" using pickOperation_known [of f64 w rand] op by simp
  note counts = run_op_counts [OF run this]
  from Suc.prems op key t run t'
  have "run_loop f64 intn pow time_now client w n (Suc i) rand2
      (res1\<lparr>Operations := Operations res1 + 1, Errors := (if failed then Errors res1 + 1 else Errors res1)\<rparr>)
      (lats @ [t' - t]) wd3 = (res', lats', rand', wd')" by simp
  from Suc.IH [OF this] counts show ?case by (auto split: if_splits)
qed

lemma Run_totals:
  assumes "Run f64 intn pow time_now client d wd = (res, d', wd')"
    and "0 \<le> OperationCount (drv_Workload d)"
  shows "Operations res = OperationCount (drv_Workload d)" "Reads res + Writes res = Operations res"
    "0 \<le> Errors res" "Errors res \<le> Operations res"
  using assms by (auto simp: Run_def Let_def split: prod.splits dest!: run_loop_counts)

lemma dir_loop_Suc: "path ! i \<noteq> CHR ''/'' \<Longrightarrow> dir_loop (Suc i) path = dir_loop i path"
  by simp

lemma dir_loop_split:
  assumes base: "CHR ''/'' \<notin> set base" and "k \<le> length base"
  shows "dir_loop (length d + 1 + k) (d @ CHR ''/'' # base) = d"
  using assms(2)
proof (induction k)
  case 0
  then show ?case by (simp add: nth_append)
next
  case (Suc k)
  have "(d @ CHR ''/'' # base) ! (length d + 1 + k) = base ! k" by (simp add: nth_append)
  moreover have "base ! k \<noteq> CHR ''/''" using base Suc.prems nth_mem [of k base] by (metis Suc_le_lessD)
  ultimately have "dir_loop (Suc (length d + 1 + k)) (d @ CHR ''/'' # base) =
      dir_loop (length d + 1 + k) (d @ CHR ''/'' # base)" by (intro dir_loop_Suc) simp
  with Suc show ?case by simp
qed

lemma dir_loop_none: "i \<le> length path \<Longrightarrow> CHR ''/'' \<notin> set path \<Longrightarrow> dir_loop i path = ''.''"
proof (induction i)
  case (Suc i)
  have "path ! i \<noteq> CHR ''/''" using Suc.prems nth_mem [of i path] by (metis Suc_le_lessD)
  with Suc show ?case by simp
qed simp

section \<open>Properties\<close>

text \<open>
  Loading writes every record exactly once, in order, with one value of the configured length,
  and stops at the first failed \<open>Put\<close> with that key's error.
\<close>

theorem Load_puts_every_record:
  "Load put w wd = put_all put (load_requests w) wd \<and> distinct (map put_Key (load_requests w)) \<and>
   length (load_requests w) = nat (RecordCount w) \<and>
   put_Key ` set (load_requests w) = KeyFor w ` {0..<RecordCount w}"
proof -
  have "distinct (map put_Key (load_requests w))"
    by (simp add: load_requests_def comp_def distinct_map inj_on_def KeyFor_inj)
  then show ?thesis by (simp add: Load_put_all load_requests_keys) (simp add: load_requests_def)
qed

text \<open>
  Every key that the run picks, under either distribution, is one of the loaded keys, whatever
  the random source and \<open>math.Pow\<close> return within their documented ranges.
\<close>

theorem pickKey_loaded:
  assumes "rand_ok f64 intn" and "0 < RecordCount w"
  shows "fst (pickKey f64 intn pow w rand) \<in> put_Key ` set (load_requests w)"
  using pickKey_range [OF assms, of pow rand] by (auto simp: load_requests_keys)

definition ex_f64 :: "rat \<Rightarrow> rat \<times> rat" where
  "ex_f64 r = (if 0 \<le> r \<and> r < 1 then r else 0, r)"

definition ex_intn :: "int \<Rightarrow> rat \<Rightarrow> int \<times> rat" where
  "ex_intn n r = (0, r)"

lemma ex_rand_ok: "rand_ok ex_f64 ex_intn"
  by (simp add: rand_ok_def ex_f64_def ex_intn_def)

theorem pickKey_loaded_witness:
  "fst (pickKey ex_f64 ex_intn (\<lambda>u x. u) ex_workload (1 / 2)) \<in> put_Key ` set (load_requests ex_workload)"
  by (rule pickKey_loaded [OF ex_rand_ok]) (simp add: ex_workload_def)

text \<open>
  The counters of a run add up: as many operations as configured, each counted once as a read or
  a write and at most once as an error; the branch for an unknown operation is never taken.
\<close>

theorem Run_counts:
  assumes "Run f64 intn pow time_now client d wd = (res, d', wd')"
    and "0 \<le> OperationCount (drv_Workload d)"
  shows "Operations res = OperationCount (drv_Workload d) \<and> Reads res + Writes res = Operations res \<and>
    0 \<le> Errors res \<and> Errors res \<le> Operations res \<and>
    fst (pickOperation f64 (drv_Workload d) rand) \<in> {''read'', ''update'', ''insert''}"
  using Run_totals [OF assms] pickOperation_known [of f64 "drv_Workload d" rand] by simp

definition ex_client :: "(unit, int64) kv_client" where
  "ex_client = (\<lambda>req wd. (Inl (), wd + 1),
     \<lambda>req wd. (Inr \<lparr>putr_Timestamp = None\<rparr>, wd + 1))"

definition ex_driver :: "rat Driver" where
  "ex_driver = NewDriver 7 (\<lambda>_. 1 / 4) (ex_workload\<lparr>OperationCount := 3\<rparr>) ''eventual'' 0"

theorem Run_counts_witness:
  "Operations (fst (Run ex_f64 ex_intn (\<lambda>u x. u) (\<lambda>wd. (wd, wd)) ex_client ex_driver 0)) = 3"
proof -
  obtain res d' wd' where run:
    "Run ex_f64 ex_intn (\<lambda>u x. u) (\<lambda>wd. (wd, wd)) ex_client ex_driver 0 = (res, d', wd')"
    by (rule prod_cases3)
  have "OperationCount (drv_Workload ex_driver) = 3" by (simp add: ex_driver_def NewDriver_def Let_def)
  with Run_counts [OF run] show ?thesis by (simp add: run)
qed

text \<open>
  The reported percentiles are latencies that were measured, in ascending order, for any
  number of measurements below \<open>2 ^ 53\<close>; the index arithmetic in floating point never leaves the
  list.
\<close>

theorem summarize_percentiles:
  assumes "summarize lats = (p50, p95, p99, avg)" and "lats \<noteq> []" and "length lats < 2 ^ 53"
  shows "{p50, p95, p99} \<subseteq> set lats \<and> sint p50 \<le> sint p95 \<and> sint p95 \<le> sint p99"
proof -
  let ?s = "sort_key sint lats"
  let ?i = "percentile_index (length ?s)"
  have s: "?s \<noteq> []" "set ?s = set lats" "0 < length ?s" "length ?s < 2 ^ 53"
    using assms(2,3) by (auto simp: set_empty [symmetric] simp del: set_empty)
  have ps: "p50 = ?s ! ?i (round64 (50 / 100))" "p95 = ?s ! ?i (round64 (95 / 100))"
    "p99 = ?s ! ?i (round64 (99 / 100))"
    using assms(1,2) s(1) by (auto simp: summarize_def Let_def percentile_nth)
  note f = fractions
  have le: "round64 (50 / 100) \<le> 1" "round64 (95 / 100) \<le> 1" "0 \<le> round64 (95 / 100)" "0 \<le> round64 (99 / 100)"
    using f by linarith+
  have bound: "?i (round64 (50 / 100)) < length ?s" "?i (round64 (95 / 100)) < length ?s"
    "?i (round64 (99 / 100)) < length ?s"
    using percentile_index_bound [OF s(3,4)] f le by auto
  have mono: "?i (round64 (50 / 100)) \<le> ?i (round64 (95 / 100))"
    "?i (round64 (95 / 100)) \<le> ?i (round64 (99 / 100))"
    using percentile_index_mono [OF s(3)] f le by auto
  have "sint (?s ! a) \<le> sint (?s ! b)" if "a \<le> b" "b < length ?s" for a b
    using sorted_nth_mono [of "map sint ?s" a b] that by simp
  with mono bound have "sint p50 \<le> sint p95" "sint p95 \<le> sint p99" unfolding ps by blast+
  moreover have "{p50, p95, p99} \<subseteq> set ?s" using bound unfolding ps by (simp only: nth_mem insert_subset) simp
  ultimately show ?thesis using s(2) by simp
qed

theorem summarize_percentiles_witness:
  "(case summarize [30, 10, 20] of (p50, p95, p99, avg) \<Rightarrow>
      {p50, p95, p99} \<subseteq> {10, 20, 30} \<and> sint p50 \<le> sint p99)"
proof -
  obtain p50 p95 p99 avg where sum: "summarize [30, 10, 20] = (p50, p95, p99, avg)" by (rule prod_cases4)
  from summarize_percentiles [OF sum] show ?thesis unfolding sum by auto
qed

text \<open>
  The hash separates neighbouring ranks: two numbers that differ in their lowest byte only never
  have the same 64-bit hash.
\<close>

theorem fnv_separates_low_byte:
  assumes "signed_drop_bit 8 a = signed_drop_bit 8 b"
  shows "fnvHash64 a = fnvHash64 b \<longleftrightarrow> a = b"
proof
  assume "fnvHash64 a = fnvHash64 b"
  then have "fnv_loop 7 (signed_drop_bit 8 a) (xor 0xcbf29ce484222325 (and a 255) * 0x100000001b3) =
      fnv_loop 7 (signed_drop_bit 8 b) (xor 0xcbf29ce484222325 (and b 255) * 0x100000001b3)"
    by (simp add: fnvHash64_def eval_nat_numeral)
  then have "and a 255 = and b 255"
    unfolding assms by (blast dest: fnv_loop_inj times_prime_inj xor_left_inj)
  then show "a = b" using assms by (rule split_low_byte)
qed simp

theorem fnv_separates_low_byte_witness:
  "fnvHash64 17 \<noteq> fnvHash64 42"
proof -
  have "signed_drop_bit 8 (17 :: int64) = signed_drop_bit 8 42" by code_simp
  from fnv_separates_low_byte [OF this] show ?thesis by simp
qed

text \<open>
  Hashing the rank is not a permutation of the keys, as the comment of \<open>scrambledZipfianIndex\<close>
  says: with three records the third is never picked, whatever the random source returns.
\<close>

theorem scramble_skips_a_key:
  assumes "rand_ok f64 intn" and "pow_ok pow"
  shows "fst (scrambledZipfianIndex f64 pow rand 3 theta) \<noteq> 2"
proof -
  obtain raw rand' where raw: "zipfianIndex f64 pow rand 3 theta = (raw, rand')" by (rule prod.exhaust)
  have "raw \<in> {0, 1, 2}" using zipfianIndex_range [OF assms, of 3 rand theta] raw by auto
  moreover have "uint (fnvHash64 0) mod 3 \<noteq> 2" "uint (fnvHash64 1) mod 3 \<noteq> 2"
    "uint (fnvHash64 2) mod 3 \<noteq> 2" by code_simp+
  ultimately show ?thesis by (auto simp: scrambledZipfianIndex_def raw)
qed

theorem scramble_skips_a_key_witness:
  "fst (scrambledZipfianIndex ex_f64 (\<lambda>u x. u) (1 / 2) 3 1) \<noteq> 2"
  by (rule scramble_skips_a_key [OF ex_rand_ok]) (simp add: pow_ok_def)

text \<open>
  The index is not Zipfian as the comment of \<open>zipfianIndex\<close> says: for the constant 1, where a
  Zipfian generator would make the rank \<open>i\<close> come up in proportion to \<open>1 / (i + 1)\<close>, the index is
  that of the uniform distribution, the random number scaled by the number of records.
\<close>

theorem zipfian_constant_one_is_uniform:
  assumes "1 < n" "n < 2 ^ 53" and "\<And>u. pow u 1 = u" and "f64 rand = (u, rand')" "0 \<le> u" "u < 1"
  shows "zipfianIndex f64 pow rand n 1 = (min (go_int (round64 (of_int n * u))) (n - 1), rand')"
proof -
  have "round64 (of_int n) = of_int n" using assms(1,2) by (intro round64_int) simp_all
  then show ?thesis using assms(1,3,4) by (auto simp: zipfianIndex_def Let_def round64_one)
qed

theorem zipfian_constant_one_is_uniform_witness:
  "fst (zipfianIndex ex_f64 (\<lambda>u x. u) (1 / 2) 1000 1) = 500"
proof -
  have "ex_f64 (1 / 2) = (1 / 2, 1 / 2)" by (simp add: ex_f64_def)
  from zipfian_constant_one_is_uniform [of 1000 "\<lambda>u x. u" ex_f64 "1 / 2" "1 / 2" "1 / 2",
      OF _ _ _ this] round64_int [of 500] go_int_of_int [of 500]
  show ?thesis by simp
qed

text \<open>
  The directory of a path is what precedes its last slash, and "." where there is none. For a
  file directly under the root it is the empty string, not the root.
\<close>

theorem dirOf_splits:
  assumes "CHR ''/'' \<notin> set base"
  shows "dirOf (d @ CHR ''/'' # base) = d \<and> dirOf base = ''.'' \<and> dirOf (CHR ''/'' # base) = ''''"
  using dir_loop_split [OF assms, of "length base" d] dir_loop_split [OF assms, of "length base" "''''"]
    dir_loop_none [of "length base" base] assms
  by (simp add: dirOf_def)

theorem dirOf_splits_witness:
  "dirOf ''bench/results/summary.csv'' = ''bench/results'' \<and> dirOf ''/summary.csv'' = ''''"
proof -
  have base: "CHR ''/'' \<notin> set ''summary.csv''" by simp
  from dirOf_splits [OF base, of "''bench/results''"] show ?thesis by simp
qed

text \<open>
  A row has one field per column of the header, the columns have different names, and the
  fields stand under their names.
\<close>

theorem Row_matches_header:
  "length (Row r) = length SummaryHeader \<and> distinct SummaryHeader \<and>
   map (map_of (zip SummaryHeader (Row r)))
     [''mode'', ''seed'', ''operations'', ''errors'', ''throughput_ops'', ''latency_p99_ns''] =
   map Some [res_Mode r, show_int (sint (res_Seed r)), show_int (Operations r), show_int (Errors r),
     show_float 2 (Throughput r), show_int (sint (LatencyP99NS r))]"
  by (simp add: Row_def SummaryHeader_def)

end
