(* ===== verification/Bench.thy ===== *)
theory Bench
  imports Driver Server
begin

text \<open>
  The benchmark driver of \<open>bench/ycsb_driver.go\<close> in front of a modelled node: its requests go to the
  node's handlers, in any mode and with any replies of the peers.
\<close>

section \<open>A node as the world of the driver\<close>

text \<open>
  The readings of the physical clock, one after the other, and the responses that the driver's
  reads have got.
\<close>

record bench_world =
  bw_node :: "nat Node"
  bw_clock :: "nat \<Rightarrow> int64"
  bw_tick :: nat
  bw_log :: "GetResponse list"

definition bench_now :: "bench_world \<Rightarrow> int64 \<times> bench_world" where
  "bench_now w = (bw_clock w (bw_tick w), w\<lparr>bw_tick := Suc (bw_tick w)\<rparr>)"

definition bench_put ::
  "(nat \<Rightarrow> ReplicateRequest \<Rightarrow> rpc_reply) \<Rightarrow> PutRequest \<Rightarrow> bench_world \<Rightarrow>
   (node_error + PutResponse) \<times> bench_world" where
  "bench_put call req w =
     (case bench_now w of (now, w1) \<Rightarrow>
        case Node_Put now call req (bw_node w1) of (r, n, _) \<Rightarrow> (r, w1\<lparr>bw_node := n\<rparr>))"

definition bench_get :: "GetRequest \<Rightarrow> bench_world \<Rightarrow> (node_error + GetResponse) \<times> bench_world" where
  "bench_get req w =
     (case Node_Get req (bw_node w) of (resp, n) \<Rightarrow> (Inr resp, w\<lparr>bw_node := n, bw_log := bw_log w @ [resp]\<rparr>))"

section \<open>Records stay\<close>

definition visible_keys :: "string set \<Rightarrow> bench_world \<Rightarrow> bool" where
  "visible_keys K w \<longleftrightarrow> (\<forall>k \<in> K. Store_Get k (NStore (bw_node w)) \<noteq> None)"

lemma Node_Put_store:
  assumes "Node_Put now call req n = (r, n', rpcs)"
  shows "NStore n' = NStore n \<and> isl r \<or>
    (\<exists>v. \<not> Deleted v \<and> Data v = put_Value req \<and> NStore n' = Store_Put (put_Key req) v (NStore n))"
proof -
  obtain x clk where send: "Clock_Send now (NClock n) = (x, clk)" by (rule prod.exhaust)
  obtain deps n1 where take: "take_deps (n\<lparr>NClock := clk\<rparr>) = (deps, n1)" by (rule prod.exhaust)
  have "NStore n1 = NStore n" using take_deps_frame(2) [of "n\<lparr>NClock := clk\<rparr>"] take by simp
  then have "NStore n' = NStore n \<and> isl r \<or>
      NStore n' = Store_Put (put_Key req) \<lparr>Data = put_Value req, ValTS = projr x, Deps = deps, Deleted = False\<rparr> (NStore n)"
    using assms send take
    by (cases x) (auto simp: Node_Put_def write_through_def Let_def split: prod.splits option.splits if_splits)
  then show ?thesis
    by (elim disjE) (blast, rule disjI2, rule exI [of _
        "\<lparr>Data = put_Value req, ValTS = projr x, Deps = deps, Deleted = False\<rparr>"], simp)
qed

lemma bench_put_visible:
  assumes "visible_keys K w" and "bench_put call req w = (r, w')"
  shows "visible_keys K w'" "\<not> isl r \<Longrightarrow> visible_keys (insert (put_Key req) K) w'" "bw_log w' = bw_log w"
proof -
  obtain n rpcs where put: "Node_Put (bw_clock w (bw_tick w)) call req (bw_node w) = (r, n, rpcs)"
    "bw_node w' = n" "bw_log w' = bw_log w"
    using assms(2) by (auto simp: bench_put_def bench_now_def split: prod.splits)
  show "bw_log w' = bw_log w" by (rule put(3))
  have "visible_keys K w' \<and> (\<not> isl r \<longrightarrow> visible_keys (insert (put_Key req) K) w')"
    using Node_Put_store [OF put(1)] assms(1) put(2)
    by (auto simp: visible_keys_def Store_Get_def store_simps split: option.splits if_splits)
  then show "visible_keys K w'" "\<not> isl r \<Longrightarrow> visible_keys (insert (put_Key req) K) w'" by blast+
qed

lemma put_all_visible:
  "put_all (bench_put call) reqs w = (None, w') \<Longrightarrow> visible_keys K w \<Longrightarrow>
     visible_keys (put_Key ` set reqs \<union> K) w' \<and> bw_log w' = bw_log w"
proof (induction reqs arbitrary: w K)
  case Nil
  then show ?case by simp
next
  case (Cons req reqs)
  obtain r w1 where put: "bench_put call req w = (r, w1)" by (rule prod.exhaust)
  from Cons.prems put have r: "\<not> isl r" "put_all (bench_put call) reqs w1 = (None, w')" by (cases r; simp)+
  note vis = bench_put_visible [OF Cons.prems(2) put]
  from Cons.IH [OF r(2) vis(2) [OF r(1)]] vis(3) show ?case by (simp add: insert_is_Un [symmetric] Un_assoc)
qed

lemma bench_get_visible:
  assumes "visible_keys K w" and "bench_get req w = (r, w')"
  shows "visible_keys K w'" "\<not> isl r"
    "\<exists>resp. bw_log w' = bw_log w @ [resp] \<and> (get_Key req \<in> K \<longrightarrow> getr_Found resp)"
proof -
  obtain resp n where get: "Node_Get req (bw_node w) = (resp, n)" by (rule prod.exhaust)
  have w': "w' = w\<lparr>bw_node := n, bw_log := bw_log w @ [resp]\<rparr>" and r: "r = Inr resp"
    using assms(2) get by (auto simp: bench_get_def)
  have n: "NStore n = NStore (bw_node w)" "getr_Found resp = (Store_Get (get_Key req) (NStore (bw_node w)) \<noteq> None)"
    using get by (auto simp: Node_Get_def Let_def split: option.splits)
  show "visible_keys K w'" "\<not> isl r" using assms(1) n(1) by (simp_all add: w' r visible_keys_def)
  show "\<exists>resp. bw_log w' = bw_log w @ [resp] \<and> (get_Key req \<in> K \<longrightarrow> getr_Found resp)"
    using assms(1) n(2) by (simp add: w' visible_keys_def)
qed

text \<open>Every read of a run finds its record, and only writes can fail.\<close>

definition hits :: "string set \<Rightarrow> Result \<Rightarrow> bench_world \<Rightarrow> bool" where
  "hits K res w \<longleftrightarrow> visible_keys K w \<and> int (length (bw_log w)) = Reads res \<and>
     (\<forall>resp \<in> set (bw_log w). getr_Found resp) \<and> Errors res \<le> Writes res"

lemma run_op_hits:
  assumes "hits K res w" and "key \<in> K" and "op \<in> {''read'', ''update'', ''insert''}"
    and "run_op (bench_get, bench_put call) wl i op key res w = (failed, res', w')"
  shows "hits K (if failed then res'\<lparr>Errors := Errors res' + 1\<rparr> else res') w'"
proof (cases "op = ''read''")
  case True
  obtain r w1 where get: "bench_get \<lparr>get_Key = key\<rparr> w = (r, w1)" by (rule prod.exhaust)
  note vis = bench_get_visible [OF _ get, of K]
  from assms True get have "failed = isl r" "res' = res\<lparr>Reads := Reads res + 1\<rparr>" "w' = w1"
    by (auto simp: run_op_def)
  with vis assms(1,2) show ?thesis by (auto simp: hits_def)
next
  case False
  obtain r w1 where put: "bench_put call \<lparr>put_Key = key, put_Value = field_bytes 120 i (FieldLength wl)\<rparr> w = (r, w1)"
    by (rule prod.exhaust)
  note vis = bench_put_visible [OF _ put, of K]
  from assms False put have "failed = isl r" "res' = res\<lparr>Writes := Writes res + 1\<rparr>" "w' = w1"
    by (auto simp: run_op_def)
  with vis assms(1) show ?thesis by (auto simp: hits_def)
qed


lemma run_loop_hits:
  assumes "rand_ok f64 intn" and "0 < RecordCount wl" and "KeyFor wl ` {0..<RecordCount wl} \<subseteq> K"
  shows "run_loop f64 intn pow bench_now (bench_get, bench_put call) wl n i rand res lats w = (res', lats', rand', w') \<Longrightarrow>
    hits K res w \<Longrightarrow> hits K res' w'"
proof (induction n arbitrary: i rand res lats w)
  case 0
  then show ?case by simp
next
  case (Suc n)
  obtain op rand1 where op: "pickOperation f64 wl rand = (op, rand1)" by (rule prod.exhaust)
  obtain key rand2 where key: "pickKey f64 intn pow wl rand1 = (key, rand2)" by (rule prod.exhaust)
  obtain t w1 where t: "bench_now w = (t, w1)" by (rule prod.exhaust)
  obtain failed res1 w2 where run: "run_op (bench_get, bench_put call) wl i op key res w1 = (failed, res1, w2)"
    by (rule prod_cases3)
  obtain t' w3 where t': "bench_now w2 = (t', w3)" by (rule prod.exhaust)
  have "key \<in> K" using pickKey_range [OF assms(1,2), of pow rand1] key assms(3) by force
  moreover have "op \<in> {''read'', ''update'', ''insert''}" using pickOperation_known [of f64 wl rand] op by simp
  moreover have "hits K res w1" using Suc.prems(2) t by (auto simp: bench_now_def hits_def visible_keys_def)
  ultimately have "hits K (if failed then res1\<lparr>Errors := Errors res1 + 1\<rparr> else res1) w2"
    using run_op_hits run by blast
  then have "hits K (res1\<lparr>Operations := Operations res1 + 1,
      Errors := (if failed then Errors res1 + 1 else Errors res1)\<rparr>) w3"
    using t' by (auto simp: bench_now_def hits_def visible_keys_def split: if_splits)
  moreover from Suc.prems(1) op key run t t'
  have "run_loop f64 intn pow bench_now (bench_get, bench_put call) wl n (Suc i) rand2
      (res1\<lparr>Operations := Operations res1 + 1, Errors := (if failed then Errors res1 + 1 else Errors res1)\<rparr>)
      (lats @ [t' - t]) w3 = (res', lats', rand', w')" by simp
  ultimately show ?case using Suc.IH by blast
qed

section \<open>Properties\<close>

text \<open>
  C26: A benchmark that has loaded its records reads no missing one: against the modelled node, in
  every mode, with whatever the peers answer, every \<open>Get\<close> of the run finds its key and none fails,
  so every error that the run counts is a write.
\<close>

theorem bench_reads_hit:
  assumes "rand_ok f64 intn" and "0 < RecordCount (drv_Workload d)"
    and "Load (bench_put call) (drv_Workload d) w = (None, w1)" and "bw_log w = []"
    and "Run f64 intn pow bench_now (bench_get, bench_put call) d w1 = (res, d', w2)"
  shows "(\<forall>resp \<in> set (bw_log w2). getr_Found resp) \<and> int (length (bw_log w2)) = Reads res \<and>
    Errors res \<le> Writes res"
proof -
  let ?K = "KeyFor (drv_Workload d) ` {0..<RecordCount (drv_Workload d)}"
  have "visible_keys ?K w1 \<and> bw_log w1 = []"
    using put_all_visible [of call "load_requests (drv_Workload d)" w w1 "{}"] assms(3,4)
    by (simp add: Load_put_all load_requests_keys visible_keys_def)
  then have start: "hits ?K res0 (snd (bench_now w1))" if "Reads res0 = 0" "Writes res0 = 0" "Errors res0 = 0" for res0
    using that by (simp add: hits_def visible_keys_def bench_now_def)
  obtain res1 lats rand w3 where loop: "hits ?K res1 w3" "Reads res = Reads res1" "Writes res = Writes res1"
    "Errors res = Errors res1" "bw_log w2 = bw_log w3"
    using assms(5) run_loop_hits [OF assms(1,2) subset_refl _ start]
    by (fastforce simp: Run_def Let_def bench_now_def split: prod.splits)
  then show ?thesis by (simp add: hits_def)
qed


text \<open>An eventual node with one record, under a standing clock, whose peers do not answer.\<close>

definition ex_bench_workload :: Workload where
  "ex_bench_workload = ex_workload\<lparr>RecordCount := 1, OperationCount := 5, FieldLength := 1, KeyPrefix := ''user''\<rparr>"

definition ex_bench_driver :: "rat Driver" where
  "ex_bench_driver = NewDriver 7 (\<lambda>_. 1 / 4) ex_bench_workload ''eventual'' 1"

definition ex_bench_world :: bench_world where
  "ex_bench_world = \<lparr>bw_node = ex_eventual, bw_clock = \<lambda>_. 300, bw_tick = 0, bw_log = []\<rparr>"

lemma ex_bench_load:
  "\<exists>w1. Load (bench_put (\<lambda>_ _. RPCError)) (drv_Workload ex_bench_driver) ex_bench_world = (None, w1)"
  by (simp add: Load_def ex_bench_driver_def ex_bench_workload_def NewDriver_def Let_def bench_put_def
      bench_now_def ex_bench_world_def handler_defs node_eval Clock_Send_cases EventualHandler_OnWrite_def
      ex_workload_def)

theorem bench_reads_hit_witness:
  "\<exists>w1 res d' w2. Load (bench_put (\<lambda>_ _. RPCError)) (drv_Workload ex_bench_driver) ex_bench_world = (None, w1) \<and>
     Run ex_f64 ex_intn (\<lambda>u x. u) bench_now (bench_get, bench_put (\<lambda>_ _. RPCError)) ex_bench_driver w1 =
       (res, d', w2) \<and>
     (\<forall>resp \<in> set (bw_log w2). getr_Found resp) \<and> int (length (bw_log w2)) = Reads res \<and> Errors res \<le> Writes res"
proof -
  obtain w1 where load: "Load (bench_put (\<lambda>_ _. RPCError)) (drv_Workload ex_bench_driver) ex_bench_world = (None, w1)"
    using ex_bench_load by blast
  obtain res d' w2 where run: "Run ex_f64 ex_intn (\<lambda>u x. u) bench_now
      (bench_get, bench_put (\<lambda>_ _. RPCError)) ex_bench_driver w1 = (res, d', w2)" by (rule prod_cases3)
  have "0 < RecordCount (drv_Workload ex_bench_driver)" "bw_log ex_bench_world = []"
    by (simp_all add: ex_bench_driver_def ex_bench_workload_def NewDriver_def Let_def ex_bench_world_def)
  from bench_reads_hit [OF ex_rand_ok this(1) load this(2) run] load run show ?thesis by blast
qed

end
