(* ===== verification/Smoke.thy ===== *)
theory Smoke
  imports Bench Experiments
begin

text \<open>
  The smoke test \<open>scripts/test_client.go\<close> that the end-to-end script runs against a started node:
  one key is put, read, deleted and read again. Here against a modelled node, in any mode.
\<close>

section \<open>The test\<close>

text \<open>
  How the command ends: exit status 0 in the last case only. \<open>new\<close> is \<open>NewKVStoreClient\<close>, the stubs
  \<open>Put\<close>, \<open>Get\<close> and \<open>Delete\<close> on a connection; the deadline of the context is part of them. Only a test
  that passes closes its connection, since \<open>os.Exit\<close> runs no deferred call.
\<close>

datatype ('d, 'e) smoke_exit =
    SmokeDial 'd
  | SmokePut 'e
  | SmokeGet 'e
  | UnexpectedGet bool bytes
  | SmokeDelete 'e
  | GetAfterDelete 'e
  | NotDeleted
  | SmokePassed

type_synonym ('e, 'w) smoke_client =
  "(PutRequest \<Rightarrow> 'w \<Rightarrow> ('e + PutResponse) \<times> 'w) \<times> (GetRequest \<Rightarrow> 'w \<Rightarrow> ('e + GetResponse) \<times> 'w) \<times>
   (DeleteRequest \<Rightarrow> 'w \<Rightarrow> ('e + DeleteResponse) \<times> 'w)"

definition smoke_addr :: "string list \<Rightarrow> string" where
  "smoke_addr args = (if length args > 1 then args ! 1 else ''localhost:50051'')"

definition smoke_key :: key where
  "smoke_key = ''e2e-smoke-key''"

definition smoke_main ::
  "(string \<Rightarrow> 'd + 'n) \<Rightarrow> ('n \<Rightarrow> ('e, 'w) smoke_client) \<Rightarrow> ('n \<Rightarrow> 'w \<Rightarrow> 'w) \<Rightarrow> string list \<Rightarrow> 'w \<Rightarrow>
   ('d, 'e) smoke_exit \<times> 'w" where
  "smoke_main dial new close args w =
     (case dial (smoke_addr args) of
        Inl e \<Rightarrow> (SmokeDial e, w)
      | Inr conn \<Rightarrow>
          (case new conn of (put, get, delete) \<Rightarrow>
           case put \<lparr>put_Key = smoke_key, put_Value = bytes_of ''hello''\<rparr> w of
             (Inl e, w1) \<Rightarrow> (SmokePut e, w1)
           | (Inr _, w1) \<Rightarrow>
               (case get \<lparr>get_Key = smoke_key\<rparr> w1 of
                  (Inl e, w2) \<Rightarrow> (SmokeGet e, w2)
                | (Inr resp, w2) \<Rightarrow>
                    if \<not> getr_Found resp \<or> getr_Value resp \<noteq> bytes_of ''hello''
                    then (UnexpectedGet (getr_Found resp) (getr_Value resp), w2)
                    else
                      (case delete \<lparr>del_Key = smoke_key\<rparr> w2 of
                         (Inl e, w3) \<Rightarrow> (SmokeDelete e, w3)
                       | (Inr _, w3) \<Rightarrow>
                           (case get \<lparr>get_Key = smoke_key\<rparr> w3 of
                              (Inl e, w4) \<Rightarrow> (GetAfterDelete e, w4)
                            | (Inr resp, w4) \<Rightarrow>
                                if getr_Found resp then (NotDeleted, w4) else (SmokePassed, close conn w4))))))"

section \<open>A node as the world of the test\<close>

definition bench_delete ::
  "(nat \<Rightarrow> ReplicateRequest \<Rightarrow> rpc_reply) \<Rightarrow> DeleteRequest \<Rightarrow> bench_world \<Rightarrow>
   (node_error + DeleteResponse) \<times> bench_world" where
  "bench_delete call req w =
     (case bench_now w of (now, w1) \<Rightarrow>
        case Node_Delete now call req (bw_node w1) of (r, n, _) \<Rightarrow> (r, w1\<lparr>bw_node := n\<rparr>))"

abbreviation node_client :: "(nat \<Rightarrow> ReplicateRequest \<Rightarrow> rpc_reply) \<Rightarrow> (node_error, bench_world) smoke_client" where
  "node_client call \<equiv> (bench_put call, bench_get, bench_delete call)"

text \<open>A node in the eventual or causal mode whose clock can be stamped \<open>k\<close> more times.\<close>

definition async_node :: "nat \<Rightarrow> nat Node \<Rightarrow> bool" where
  "async_node k n \<longleftrightarrow> Mode n \<noteq> ''strong'' \<and>
     (case NHandler n of StrongHandler peers q opts \<Rightarrow> False | _ \<Rightarrow> True) \<and>
     max 0 (sint (clk_c (NClock n))) + int k \<le> sint maxLogical"

lemma Clock_Send_room:
  assumes "max 0 (sint (clk_c clk)) + int (Suc k) \<le> sint maxLogical"
  shows "\<exists>ts clk'. Clock_Send now clk = (Inr ts, clk') \<and> max 0 (sint (clk_c clk')) + int k \<le> sint maxLogical"
  using assms by (auto simp: Clock_Send_cases sint_maxLogical sint_succ32 logical_below_top max_def split: if_splits)

lemma async_write:
  assumes "async_node (Suc k) n"
  shows "\<exists>resp n' rpcs. Node_Put now call req n = (Inr resp, n', rpcs) \<and> async_node k n'"
    and "\<exists>resp n' rpcs. Node_Delete now call dreq n = (Inr resp, n', rpcs) \<and> async_node k n'"
proof -
  obtain ts clk where send: "Clock_Send now (NClock n) = (Inr ts, clk)"
    "max 0 (sint (clk_c clk)) + int k \<le> sint maxLogical"
    using Clock_Send_room assms unfolding async_node_def by blast
  obtain deps n1 where take: "take_deps (n\<lparr>NClock := clk\<rparr>) = (deps, n1)" by (rule prod.exhaust)
  have n1: "Mode n1 = Mode n" "NClock n1 = clk" "NHandler n1 = NHandler n"
    using take_deps_frame [of "n\<lparr>NClock := clk\<rparr>"] take by simp_all
  have silent: "fst (Handler_OnWrite call (NHandler n) key v) = None" for key v
    using assms by (cases "NHandler n") (auto simp: async_node_def EventualHandler_OnWrite_def CausalHandler_OnWrite_def Let_def)
  have written: "\<exists>n' rpcs. write_through call key v upd n1 = (None, n', rpcs) \<and> async_node k n'" for key v upd
    using silent [of key v] n1 send(2) assms
    by (auto simp: write_through_def async_node_def Let_def split: prod.split)
  let ?v = "\<lparr>Data = put_Value req, ValTS = ts, Deps = deps, Deleted = False\<rparr>"
  let ?d = "\<lparr>Data = [], ValTS = ts, Deps = deps, Deleted = True\<rparr>"
  obtain n' rpcs where "write_through call (put_Key req) ?v (Store_Put (put_Key req) ?v) n1 = (None, n', rpcs)"
    "async_node k n'" using written by blast
  with send(1) take show "\<exists>resp n' rpcs. Node_Put now call req n = (Inr resp, n', rpcs) \<and> async_node k n'"
    by (simp add: Node_Put_def Let_def)
  obtain n' rpcs where "write_through call (del_Key dreq) ?d (Store_Delete (del_Key dreq) ts) n1 = (None, n', rpcs)"
    "async_node k n'" using written by blast
  with send(1) take show "\<exists>resp n' rpcs. Node_Delete now call dreq n = (Inr resp, n', rpcs) \<and> async_node k n'"
    by (simp add: Node_Delete_def Let_def)
qed

lemma async_get: "Node_Get req n = (resp, n') \<Longrightarrow> async_node k n' = async_node k n"
  by (auto simp: Node_Get_def async_node_def Let_def split: option.splits if_splits)

text \<open>The steps of the test on the node.\<close>

lemma put_step:
  assumes "bench_put call req w = (r, w')"
  shows "\<not> isl r \<Longrightarrow> \<exists>v. Store_Get (put_Key req) (NStore (bw_node w')) = Some v \<and> Data v = put_Value req"
    and "async_node (Suc k) (bw_node w) \<Longrightarrow> \<not> isl r \<and> async_node k (bw_node w')"
proof -
  obtain n rpcs where put: "Node_Put (bw_clock w (bw_tick w)) call req (bw_node w) = (r, n, rpcs)" "bw_node w' = n"
    using assms by (auto simp: bench_put_def bench_now_def split: prod.splits)
  show "\<exists>v. Store_Get (put_Key req) (NStore (bw_node w')) = Some v \<and> Data v = put_Value req" if "\<not> isl r"
  proof -
    from that obtain resp where "r = Inr resp" by (cases r) simp_all
    with put(1) have ok: "Node_Put (bw_clock w (bw_tick w)) call req (bw_node w) = (Inr resp, n, rpcs)" by simp
    obtain ts deps where "store_data (NStore n) = (store_data (NStore (bw_node w)))(put_Key req \<mapsto>
        \<lparr>Data = put_Value req, ValTS = ts, Deps = deps, Deleted = False\<rparr>)"
      by (rule Put_success [OF ok])
    with put(2) show ?thesis by (simp add: Store_Get_def)
  qed
  show "\<not> isl r \<and> async_node k (bw_node w')" if "async_node (Suc k) (bw_node w)"
    using async_write(1) [OF that, of "bw_clock w (bw_tick w)" call req] put by auto
qed

lemma delete_step:
  assumes "bench_delete call req w = (r, w')"
  shows "\<not> isl r \<Longrightarrow> Store_Get (del_Key req) (NStore (bw_node w')) = None"
    and "isl r \<Longrightarrow> Mode (bw_node w') = ''strong'' \<Longrightarrow> NStore (bw_node w') = NStore (bw_node w)"
    and "async_node (Suc k) (bw_node w) \<Longrightarrow> \<not> isl r \<and> async_node k (bw_node w')"
proof -
  obtain n rpcs where del: "Node_Delete (bw_clock w (bw_tick w)) call req (bw_node w) = (r, n, rpcs)" "bw_node w' = n"
    using assms by (auto simp: bench_delete_def bench_now_def split: prod.splits)
  show "Store_Get (del_Key req) (NStore (bw_node w')) = None" if "\<not> isl r"
  proof -
    from that obtain resp where "r = Inr resp" by (cases r) simp_all
    with del(1) have ok: "Node_Delete (bw_clock w (bw_tick w)) call req (bw_node w) = (Inr resp, n, rpcs)" by simp
    obtain ts where "store_data (NStore n) = (store_data (NStore (bw_node w)))(del_Key req \<mapsto> tombstone ts)"
      by (rule Delete_success [OF ok])
    with del(2) show ?thesis by (simp add: Store_Get_def tombstone_def)
  qed
  show "NStore (bw_node w') = NStore (bw_node w)" if "isl r" "Mode (bw_node w') = ''strong''"
  proof -
    obtain x clk where send: "Clock_Send (bw_clock w (bw_tick w)) (NClock (bw_node w)) = (x, clk)" by (rule prod.exhaust)
    obtain deps n1 where take: "take_deps ((bw_node w)\<lparr>NClock := clk\<rparr>) = (deps, n1)" by (rule prod.exhaust)
    have "NStore n1 = NStore (bw_node w)" using take_deps_frame(2) [of "(bw_node w)\<lparr>NClock := clk\<rparr>"] take by simp
    moreover have "Mode n = ''strong''" using that(2) del(2) by simp
    ultimately have "NStore n = NStore (bw_node w)"
      using del(1) send take that(1)
      by (cases x) (auto simp: Node_Delete_def write_through_def Let_def split: prod.splits option.splits if_splits)
    with del(2) show ?thesis by simp
  qed
  show "\<not> isl r \<and> async_node k (bw_node w')" if "async_node (Suc k) (bw_node w)"
    using async_write(2) [OF that, of "bw_clock w (bw_tick w)" call req] del by auto
qed

lemma get_step:
  assumes "bench_get req w = (r, w')"
  shows "\<exists>resp. r = Inr resp \<and> getr_Found resp = (Store_Get (get_Key req) (NStore (bw_node w)) \<noteq> None) \<and>
      (\<forall>v. Store_Get (get_Key req) (NStore (bw_node w)) = Some v \<longrightarrow> getr_Value resp = Data v)"
    and "NStore (bw_node w') = NStore (bw_node w)" and "async_node k (bw_node w') = async_node k (bw_node w)"
proof -
  obtain resp n where get: "Node_Get req (bw_node w) = (resp, n)" by (rule prod.exhaust)
  have w': "r = Inr resp" "bw_node w' = n" using assms get by (auto simp: bench_get_def)
  show "async_node k (bw_node w') = async_node k (bw_node w)" unfolding w' by (rule async_get [OF get])
  have "NStore n = NStore (bw_node w)" using get by (auto simp: Node_Get_def Let_def split: option.splits if_splits)
  then show "NStore (bw_node w') = NStore (bw_node w)" by (simp add: w')
  show "\<exists>resp. r = Inr resp \<and> getr_Found resp = (Store_Get (get_Key req) (NStore (bw_node w)) \<noteq> None) \<and>
      (\<forall>v. Store_Get (get_Key req) (NStore (bw_node w)) = Some v \<longrightarrow> getr_Value resp = Data v)"
    using get w'(1) by (auto simp: Node_Get_def Let_def split: option.splits)
qed

section \<open>Properties\<close>

text \<open>
  C27: The smoke test is sound and, on a node that does not wait for its peers, complete. On a node
  without other clients, whatever its mode and the peers' answers, a test that does not pass has a
  dial, a \<open>Put\<close> or a \<open>Delete\<close> that failed: no read fails or disagrees with the writes; a strong node
  that fails the \<open>Delete\<close> still has the key, and a test that passes leaves it deleted and closes its
  connection. A node in the eventual or causal mode passes as soon as it can be dialled and its clock
  has two stamps left.
\<close>

theorem smoke_test_verdict:
  assumes run: "smoke_main dial (\<lambda>_. node_client call) close args w = (fin, w')"
  shows "(case fin of
       SmokeDial e \<Rightarrow> dial (smoke_addr args) = Inl e \<and> w' = w
     | SmokePut e \<Rightarrow> \<not> async_node 1 (bw_node w)
     | SmokeDelete e \<Rightarrow> Mode (bw_node w') = ''strong'' \<longrightarrow> Store_Get smoke_key (NStore (bw_node w')) \<noteq> None
     | SmokePassed \<Rightarrow> (\<exists>conn w1. dial (smoke_addr args) = Inr conn \<and> w' = close conn w1 \<and>
         Store_Get smoke_key (NStore (bw_node w1)) = None)
     | _ \<Rightarrow> False) \<and>
    (async_node 2 (bw_node w) \<and> \<not> isl (dial (smoke_addr args)) \<longrightarrow> fin = SmokePassed)"
proof (cases "dial (smoke_addr args)")
  case (Inl e)
  with run have "fin = SmokeDial e" "w' = w" by (simp_all add: smoke_main_def)
  with Inl show ?thesis by simp
next
  case (Inr conn)
  let ?preq = "\<lparr>put_Key = smoke_key, put_Value = bytes_of ''hello''\<rparr>" and ?greq = "\<lparr>get_Key = smoke_key\<rparr>"
    and ?dreq = "\<lparr>del_Key = smoke_key\<rparr>"
  obtain r1 w1 where 1: "bench_put call ?preq w = (r1, w1)" by (rule prod.exhaust)
  obtain r2 w2 where 2: "bench_get ?greq w1 = (r2, w2)" by (rule prod.exhaust)
  obtain r3 w3 where 3: "bench_delete call ?dreq w2 = (r3, w3)" by (rule prod.exhaust)
  obtain r4 w4 where 4: "bench_get ?greq w3 = (r4, w4)" by (rule prod.exhaust)
  note put = put_step [OF 1] and got = get_step [OF 2] and del = delete_step [OF 3] and gone = get_step [OF 4]
  show ?thesis
  proof (cases r1)
    case Inl1: (Inl e)
    have "\<not> async_node 1 (bw_node w)" "\<not> async_node 2 (bw_node w)"
      using put(2) [of 0] put(2) [of 1] Inl1 by (auto simp: numeral_2_eq_2)
    moreover have "fin = SmokePut e" using run Inr 1 Inl1 by (simp add: smoke_main_def)
    ultimately show ?thesis by simp
  next
    case Inr1: (Inr resp1)
    then obtain v where v: "Store_Get smoke_key (NStore (bw_node w1)) = Some v" "Data v = bytes_of ''hello''"
      using put(1) by auto
    with got(1) obtain resp2 where r2: "r2 = Inr resp2" "getr_Found resp2" "getr_Value resp2 = bytes_of ''hello''" by auto
    have two: "async_node 1 (bw_node w2)" if "async_node 2 (bw_node w)"
      using put(2) [of 1] got(3) [of 1] that by (simp add: numeral_2_eq_2)
    show ?thesis
    proof (cases r3)
      case Inl3: (Inl e)
      have "\<not> async_node 2 (bw_node w)" using two del(3) [of 0] Inl3 by auto
      moreover have "Store_Get smoke_key (NStore (bw_node w3)) \<noteq> None" if "Mode (bw_node w3) = ''strong''"
        using del(2) [OF _ that] Inl3 got(2) v(1) by simp
      ultimately show ?thesis using run Inr 1 2 3 Inr1 r2 Inl3 by (auto simp: smoke_main_def)
    next
      case Inr3: (Inr resp3)
      then have none: "Store_Get smoke_key (NStore (bw_node w3)) = None" using del(1) by simp
      with gone(1) obtain resp4 where r4: "r4 = Inr resp4" "\<not> getr_Found resp4" by auto
      have "fin = SmokePassed" "w' = close conn w4"
        using run Inr 1 2 3 4 Inr1 r2 Inr3 r4 by (simp_all add: smoke_main_def)
      with none gone(2) Inr show ?thesis by auto
    qed
  qed
qed

text \<open>The eventual node of the benchmark, its peers silent.\<close>

theorem smoke_test_verdict_witness:
  "\<exists>w1. smoke_main (\<lambda>_. Inr () :: unit + unit) (\<lambda>_. node_client (\<lambda>_ _. RPCError)) (\<lambda>_ w. w) [] ex_bench_world =
     (SmokePassed, w1) \<and> Store_Get smoke_key (NStore (bw_node w1)) = None"
proof -
  obtain fin w' where run: "smoke_main (\<lambda>_. Inr () :: unit + unit) (\<lambda>_. node_client (\<lambda>_ _. RPCError)) (\<lambda>_ w. w) []
    ex_bench_world = (fin, w')" by (rule prod.exhaust)
  have "async_node 2 (bw_node ex_bench_world)"
    by (simp add: async_node_def ex_bench_world_def ex_eventual_def NewNode_def maxLogical_def)
  with smoke_test_verdict [OF run] have "fin = SmokePassed" by simp
  with smoke_test_verdict [OF run] run show ?thesis by simp
qed

end
