(* ===== verification/Checker.thy ===== *)
theory Checker
  imports Server GoText
begin

text \<open>
  The consistency checker of \<open>internal/checker/checker.go\<close>. A client's \<open>Get\<close> is an argument: it takes
  the client, the request and the state of the world and returns a response or an error with the
  world after. Time is read from the world and passes in it. The quoting of bytes by the format \<open>%q\<close>,
  which depends on Unicode tables, is an argument of \<open>Report_String\<close>.
\<close>

section \<open>Reports\<close>

record NodeValue =
  nv_Address :: string
  nv_Value :: bytes
  nv_Found :: bool

record KeyReport =
  kr_Key :: key
  kr_Consistent :: bool
  kr_Nodes :: "NodeValue list"

record Report =
  KeysChecked :: nat
  rep_Consistent :: bool
  rep_Keys :: "KeyReport list"

record 'c NamedClient =
  nc_Address :: string
  nc_Client :: 'c

type_synonym ('c, 'e, 'w) get_rpc = "'c \<Rightarrow> GetRequest \<Rightarrow> 'w \<Rightarrow> ('e + GetResponse) \<times> 'w"

function bytes_loop :: "nat \<Rightarrow> bytes \<Rightarrow> bytes \<Rightarrow> bool" where
  "bytes_loop i a b =
     (if i < length a then (if a ! i \<noteq> b ! i then False else bytes_loop (Suc i) a b) else True)"
  by pat_completeness auto
termination
  by (relation "measure (\<lambda>(i, a, b). length a - i)") auto

declare bytes_loop.simps [simp del]

definition bytesEqual :: "bytes \<Rightarrow> bytes \<Rightarrow> bool" where
  "bytesEqual a b = (if length a \<noteq> length b then False else bytes_loop 0 a b)"

text \<open>
  The inner loop of \<open>CheckKeys\<close>: the reference value (\<^const>\<open>None\<close> while \<open>haveRef\<close> is false), the
  report of the key and the verdict of the whole report.
\<close>

fun check_clients ::
  "('c, 'e, 'w) get_rpc \<Rightarrow> key \<Rightarrow> 'c NamedClient list \<Rightarrow> (bytes \<times> bool) option \<Rightarrow> KeyReport \<Rightarrow> bool \<Rightarrow>
   'w \<Rightarrow> KeyReport \<times> bool \<times> 'w" where
  "check_clients get key [] ref kr rc w = (kr, rc, w)"
| "check_clients get key (nc # ncs) ref kr rc w =
     (case get (nc_Client nc) \<lparr>get_Key = key\<rparr> w of
        (Inl e, w') \<Rightarrow>
          let nv = \<lparr>nv_Address = nc_Address nc, nv_Value = [], nv_Found = False\<rparr>
          in check_clients get key ncs ref
               (kr\<lparr>kr_Consistent := False, kr_Nodes := kr_Nodes kr @ [nv]\<rparr>) False w'
      | (Inr resp, w') \<Rightarrow>
          let nv = \<lparr>nv_Address = nc_Address nc, nv_Value = getr_Value resp, nv_Found = getr_Found resp\<rparr>;
              kr' = kr\<lparr>kr_Nodes := kr_Nodes kr @ [nv]\<rparr>
          in (case ref of
                None \<Rightarrow> check_clients get key ncs (Some (nv_Value nv, nv_Found nv)) kr' rc w'
              | Some (refValue, refFound) \<Rightarrow>
                  if nv_Found nv \<noteq> refFound \<or> \<not> bytesEqual (nv_Value nv) refValue
                  then check_clients get key ncs ref (kr'\<lparr>kr_Consistent := False\<rparr>) False w'
                  else check_clients get key ncs ref kr' rc w'))"

fun check_keys ::
  "('c, 'e, 'w) get_rpc \<Rightarrow> 'c NamedClient list \<Rightarrow> key list \<Rightarrow> Report \<Rightarrow> 'w \<Rightarrow> Report \<times> 'w" where
  "check_keys get clients [] report w = (report, w)"
| "check_keys get clients (key # keys) report w =
     (case check_clients get key clients None
        \<lparr>kr_Key = key, kr_Consistent = True, kr_Nodes = []\<rparr> (rep_Consistent report) w of
        (kr, rc, w') \<Rightarrow>
          check_keys get clients keys
            (report\<lparr>rep_Consistent := rc, rep_Keys := rep_Keys report @ [kr]\<rparr>) w')"

definition CheckKeys ::
  "('c, 'e, 'w) get_rpc \<Rightarrow> 'c NamedClient list \<Rightarrow> key list \<Rightarrow> 'w \<Rightarrow> Report \<times> 'w" where
  "CheckKeys get clients keys w =
     check_keys get clients keys
       \<lparr>KeysChecked = length keys, rep_Consistent = True, rep_Keys = []\<rparr> w"

text \<open>
  The polling loop. \<open>time_now\<close> reads the clock; \<open>pause\<close> is the \<open>select\<close>: it says whether the context
  was done before 100 milliseconds had passed. A loop that polls for ever has the value \<^const>\<open>None\<close>.
\<close>

datatype wait_error = NotConverged int | ContextDone

partial_function (option) wait_loop ::
  "('c, 'e, 'w) get_rpc \<Rightarrow> ('w \<Rightarrow> int \<times> 'w) \<Rightarrow> ('w \<Rightarrow> bool \<times> 'w) \<Rightarrow> 'c NamedClient list \<Rightarrow> key list \<Rightarrow>
   int \<Rightarrow> int \<Rightarrow> 'w \<Rightarrow> ((Report \<times> wait_error option) \<times> 'w) option" where
  "wait_loop get time_now pause clients keys settle deadline w =
     (case CheckKeys get clients keys w of (report, w1) \<Rightarrow>
        if rep_Consistent report then Some ((report, None), w1)
        else
          (case time_now w1 of (t, w2) \<Rightarrow>
             if t > deadline then Some ((report, Some (NotConverged settle)), w2)
             else
               (case pause w2 of (cancelled, w3) \<Rightarrow>
                  if cancelled then Some ((report, Some ContextDone), w3)
                  else wait_loop get time_now pause clients keys settle deadline w3)))"

definition WaitForConvergence ::
  "('c, 'e, 'w) get_rpc \<Rightarrow> ('w \<Rightarrow> int \<times> 'w) \<Rightarrow> ('w \<Rightarrow> bool \<times> 'w) \<Rightarrow> 'c NamedClient list \<Rightarrow> key list \<Rightarrow>
   int \<Rightarrow> 'w \<Rightarrow> ((Report \<times> wait_error option) \<times> 'w) option" where
  "WaitForConvergence get time_now pause clients keys settle w =
     (case time_now w of (t, w') \<Rightarrow>
        wait_loop get time_now pause clients keys settle (t + settle) w')"

section \<open>The printed report\<close>

definition show_bool :: "bool \<Rightarrow> string" where
  "show_bool b = (if b then ''true'' else ''false'')"

definition newline :: string where
  "newline = [CHR 0x0A]"

fun report_lines :: "(bytes \<Rightarrow> string) \<Rightarrow> KeyReport list \<Rightarrow> string \<Rightarrow> string" where
  "report_lines quote [] out = out"
| "report_lines quote (key # keys) out =
     (if kr_Consistent key then report_lines quote keys out
      else report_lines quote keys
        (fold (\<lambda>node out. out @ ''    '' @ nv_Address node @ '' found='' @ show_bool (nv_Found node) @
             '' value='' @ quote (nv_Value node) @ newline)
           (kr_Nodes key) (out @ ''  key '' @ kr_Key key @ '':'' @ newline)))"

definition Report_String :: "(bytes \<Rightarrow> string) \<Rightarrow> Report \<Rightarrow> string" where
  "Report_String quote r =
     (let status = (if \<not> rep_Consistent r then ''INCONSISTENT'' else ''CONSISTENT'')
      in report_lines quote (rep_Keys r)
           (status @ '': checked '' @ show_int (int (KeysChecked r)) @ '' keys'' @ newline))"

text \<open>A report in which every key is consistent is one line.\<close>

lemma Report_String_consistent:
  assumes "list_all kr_Consistent (rep_Keys r)" and "rep_Consistent r"
  shows "Report_String quote r = ''CONSISTENT: checked '' @ show_int (int (KeysChecked r)) @ '' keys'' @ newline"
proof -
  have "report_lines quote keys out = out" if "list_all kr_Consistent keys" for keys out
    using that by (induction keys) simp_all
  with assms show ?thesis by (simp add: Report_String_def)
qed

section \<open>What the loops compute\<close>

lemma bytes_loop_drop:
  assumes "length a = length b"
  shows "bytes_loop i a b \<longleftrightarrow> drop i a = drop i b"
  using assms
proof (induction i a b rule: bytes_loop.induct)
  case (1 i a b)
  show ?case
  proof (cases "i < length a")
    case True
    with 1(2) have "drop i a = a ! i # drop (Suc i) a" "drop i b = b ! i # drop (Suc i) b"
      by (simp_all add: Cons_nth_drop_Suc)
    with 1 True show ?thesis by (simp add: bytes_loop.simps [of i])
  next
    case False
    with 1(2) show ?thesis by (simp add: bytes_loop.simps [of i])
  qed
qed

lemma bytesEqual_iff: "bytesEqual a b \<longleftrightarrow> a = b"
  by (auto simp: bytesEqual_def bytes_loop_drop)

text \<open>The responses of one pass over the clients, and the verdict on them.\<close>

fun read_all :: "('c, 'e, 'w) get_rpc \<Rightarrow> key \<Rightarrow> 'c NamedClient list \<Rightarrow> 'w \<Rightarrow> ('e + GetResponse) list \<times> 'w" where
  "read_all get key [] w = ([], w)"
| "read_all get key (nc # ncs) w =
     (case get (nc_Client nc) \<lparr>get_Key = key\<rparr> w of (r, w') \<Rightarrow>
        (case read_all get key ncs w' of (rs, w'') \<Rightarrow> (r # rs, w'')))"

definition content :: "GetResponse \<Rightarrow> bytes \<times> bool" where
  "content resp = (getr_Value resp, getr_Found resp)"

fun agrees :: "(bytes \<times> bool) option \<Rightarrow> ('e + GetResponse) list \<Rightarrow> bool" where
  "agrees ref [] = True"
| "agrees ref (Inl e # rs) = False"
| "agrees None (Inr r # rs) = agrees (Some (content r)) rs"
| "agrees (Some x) (Inr r # rs) = (content r = x \<and> agrees (Some x) rs)"

definition unanimous :: "('e + GetResponse) list \<Rightarrow> bool" where
  "unanimous rs \<longleftrightarrow> (\<exists>x. \<forall>r \<in> set rs. \<exists>resp. r = Inr resp \<and> content resp = x)"

lemma agrees_Some: "agrees (Some x) rs \<longleftrightarrow> (\<forall>r \<in> set rs. \<exists>resp. r = Inr resp \<and> content resp = x)"
  by (induction "Some x" rs rule: agrees.induct) auto

lemma agrees_None: "agrees None rs \<longleftrightarrow> unanimous rs"
proof (cases rs)
  case Nil
  then show ?thesis by (simp add: unanimous_def)
next
  case (Cons r rs')
  then show ?thesis by (cases r) (auto simp: agrees_Some unanimous_def)
qed

definition node_value :: "'c NamedClient \<Rightarrow> 'e + GetResponse \<Rightarrow> NodeValue" where
  "node_value nc r = \<lparr>nv_Address = nc_Address nc,
     nv_Value = (case r of Inl _ \<Rightarrow> [] | Inr resp \<Rightarrow> getr_Value resp),
     nv_Found = (case r of Inl _ \<Rightarrow> False | Inr resp \<Rightarrow> getr_Found resp)\<rparr>"

lemma check_clients_reads:
  "check_clients get key ncs ref kr rc w =
     (case read_all get key ncs w of (rs, w') \<Rightarrow>
        (kr\<lparr>kr_Consistent := kr_Consistent kr \<and> agrees ref rs,
            kr_Nodes := kr_Nodes kr @ map2 node_value ncs rs\<rparr>, rc \<and> agrees ref rs, w'))"
proof (induction ncs arbitrary: ref kr rc w)
  case Nil
  show ?case by simp
next
  case (Cons nc ncs)
  obtain r w' where get: "get (nc_Client nc) \<lparr>get_Key = key\<rparr> w = (r, w')" by fastforce
  show ?case
  proof (cases r)
    case (Inl e)
    with get show ?thesis
      by (simp add: Cons.IH node_value_def split_beta Let_def)
  next
    case (Inr resp)
    show ?thesis
    proof (cases ref)
      case None
      with get Inr show ?thesis
        by (simp add: Cons.IH node_value_def content_def split_beta Let_def)
    next
      case (Some x)
      with get Inr show ?thesis
        by (cases x) (auto simp: Cons.IH node_value_def content_def bytesEqual_iff split_beta Let_def)
    qed
  qed
qed

text \<open>All reads of a check, key after key.\<close>

fun read_keys :: "('c, 'e, 'w) get_rpc \<Rightarrow> 'c NamedClient list \<Rightarrow> key list \<Rightarrow> 'w \<Rightarrow>
  (key \<times> ('e + GetResponse) list) list \<times> 'w" where
  "read_keys get clients [] w = ([], w)"
| "read_keys get clients (key # keys) w =
     (case read_all get key clients w of (rs, w') \<Rightarrow>
        (case read_keys get clients keys w' of (rest, w'') \<Rightarrow> ((key, rs) # rest, w'')))"

definition key_report :: "'c NamedClient list \<Rightarrow> key \<times> ('e + GetResponse) list \<Rightarrow> KeyReport" where
  "key_report clients x = \<lparr>kr_Key = fst x, kr_Consistent = unanimous (snd x),
     kr_Nodes = map2 node_value clients (snd x)\<rparr>"

lemma key_report_sel:
  "kr_Key (key_report clients x) = fst x" "kr_Consistent (key_report clients x) = unanimous (snd x)"
  by (simp_all add: key_report_def)

lemma key_report_facts:
  assumes "length (snd x) = length clients"
  shows "map nv_Address (kr_Nodes (key_report clients x)) = map nc_Address clients"
    and "kr_Consistent (key_report clients x) \<Longrightarrow>
      \<exists>y. \<forall>nv \<in> set (kr_Nodes (key_report clients x)). (nv_Value nv, nv_Found nv) = y"
proof -
  have "map nv_Address (map2 node_value ncs qs) = map nc_Address ncs"
    if "length qs = length ncs" for qs :: "('a + GetResponse) list" and ncs :: "'b NamedClient list"
    using that by (induction ncs qs rule: list_induct2') (simp_all add: node_value_def)
  with assms show "map nv_Address (kr_Nodes (key_report clients x)) = map nc_Address clients"
    by (simp add: key_report_def)
  assume "kr_Consistent (key_report clients x)"
  then obtain y where y: "\<forall>r \<in> set (snd x). \<exists>resp. r = Inr resp \<and> content resp = y"
    by (auto simp: key_report_def unanimous_def)
  have "(nv_Value nv, nv_Found nv) = y" if nv: "nv \<in> set (kr_Nodes (key_report clients x))" for nv
  proof -
    obtain z where z: "z \<in> set (zip clients (snd x))" "nv = node_value (fst z) (snd z)"
      using nv by (auto simp: key_report_def split_beta)
    moreover have "snd z \<in> set (snd x)" using z(1) set_zip_rightD [of "fst z" "snd z"] by simp
    ultimately show ?thesis using y by (fastforce simp: node_value_def content_def)
  qed
  then show "\<exists>y. \<forall>nv \<in> set (kr_Nodes (key_report clients x)). (nv_Value nv, nv_Found nv) = y" by blast
qed

lemma check_keys_reads:
  "check_keys get clients keys report w =
     (case read_keys get clients keys w of (rs, w') \<Rightarrow>
        (report\<lparr>rep_Consistent := rep_Consistent report \<and> (\<forall>x \<in> set rs. unanimous (snd x)),
           rep_Keys := rep_Keys report @ map (key_report clients) rs\<rparr>, w'))"
  by (induction keys arbitrary: report w)
    (simp_all add: check_clients_reads agrees_None key_report_def split_beta conj_assoc)

lemma CheckKeys_reads:
  "CheckKeys get clients keys w =
     (case read_keys get clients keys w of (rs, w') \<Rightarrow>
        (\<lparr>KeysChecked = length keys, rep_Consistent = (\<forall>x \<in> set rs. unanimous (snd x)),
          rep_Keys = map (key_report clients) rs\<rparr>, w'))"
  by (simp add: CheckKeys_def check_keys_reads split_beta)

lemma read_keys_shape:
  "map fst (fst (read_keys get clients keys w)) = keys"
  "x \<in> set (fst (read_keys get clients keys w)) \<Longrightarrow> length (snd x) = length clients"
proof -
  have len: "length (fst (read_all get key ncs v)) = length ncs" for key ncs v
    by (induction ncs arbitrary: v) (simp_all add: split_beta)
  have "map fst (fst (read_keys get clients keys w)) = keys \<and>
      (\<forall>x \<in> set (fst (read_keys get clients keys w)). length (snd x) = length clients)"
    by (induction keys arbitrary: w) (simp_all add: split_beta len)
  then show "map fst (fst (read_keys get clients keys w)) = keys"
    "x \<in> set (fst (read_keys get clients keys w)) \<Longrightarrow> length (snd x) = length clients" by blast+
qed

lemma CheckKeys_keys: "map kr_Key (rep_Keys (fst (CheckKeys get clients keys w))) = keys"
  using read_keys_shape(1) [of get clients keys w]
  by (simp add: CheckKeys_reads split_beta comp_def key_report_sel)

section \<open>Reading a system at rest\<close>

text \<open>What the checker's verdict rests on: a read changes no answer.\<close>

locale stable_reads =
  fixes get :: "('c, 'e, 'w) get_rpc"
  assumes stable: "fst (get c r (snd (get c' r' w))) = fst (get c r w)"
begin

definition answers :: "key \<Rightarrow> 'c NamedClient list \<Rightarrow> 'w \<Rightarrow> ('e + GetResponse) list" where
  "answers key ncs w = map (\<lambda>nc. fst (get (nc_Client nc) \<lparr>get_Key = key\<rparr> w)) ncs"

lemma read_all_stable:
  "fst (read_all get key ncs w) = answers key ncs w \<and>
   (\<forall>c r. fst (get c r (snd (read_all get key ncs w))) = fst (get c r w))"
  by (induction ncs arbitrary: w) (simp_all add: answers_def split_beta stable)

lemma read_keys_stable:
  "fst (read_keys get clients keys w) = map (\<lambda>key. (key, answers key clients w)) keys"
proof (induction keys arbitrary: w)
  case Nil
  show ?case by simp
next
  case (Cons key keys)
  have "answers k clients (snd (read_all get key clients w)) = answers k clients w" for k
    using read_all_stable [of key clients w] by (simp add: answers_def)
  with Cons read_all_stable [of key clients w] show ?case by (simp add: split_beta)
qed

lemma verdict:
  "rep_Consistent (fst (CheckKeys get clients keys w)) \<longleftrightarrow>
     (\<forall>key \<in> set keys. unanimous (answers key clients w))"
  by (simp add: CheckKeys_reads read_keys_stable split_beta)

end

section \<open>Polling\<close>

text \<open>
  What ends the polling loop: time does not run backwards, the clock never lags behind it, and
  a pause that is not cancelled takes 100 milliseconds at least.
\<close>

locale polling =
  fixes get :: "('c, 'e, 'w) get_rpc"
    and time_now :: "'w \<Rightarrow> int \<times> 'w" and pause :: "'w \<Rightarrow> bool \<times> 'w" and time :: "'w \<Rightarrow> int"
  assumes get_time: "time w \<le> time (snd (get c r w))"
    and now_time: "time w \<le> fst (time_now w)" "time w \<le> time (snd (time_now w))"
    and pause_time: "\<not> fst (pause w) \<Longrightarrow> time w + 100000000 \<le> time (snd (pause w))"
begin

lemma read_all_time: "time w \<le> time (snd (read_all get key ncs w))"
proof (induction ncs arbitrary: w)
  case (Cons nc ncs)
  then show ?case
    using get_time [of w "nc_Client nc" "\<lparr>get_Key = key\<rparr>"] order_trans
    by (fastforce simp: split_beta)
qed simp

lemma read_keys_time: "time w \<le> time (snd (read_keys get clients keys w))"
proof (induction keys arbitrary: w)
  case (Cons key keys)
  then show ?case
    using read_all_time [of w key clients] order_trans by (fastforce simp: split_beta)
qed simp

lemma check_time: "time w \<le> time (snd (CheckKeys get clients keys w))"
  using read_keys_time [of w clients keys] by (simp add: CheckKeys_reads split_beta)

text \<open>The loop returns; it returns no error exactly with a consistent report.\<close>

lemma wait_loop_returns:
  "\<exists>report err w'. wait_loop get time_now pause clients keys settle deadline w = Some ((report, err), w') \<and>
     (err = None \<longleftrightarrow> rep_Consistent report) \<and> map kr_Key (rep_Keys report) = keys"
proof (induction "nat (deadline + 100000000 - time w)" arbitrary: w rule: less_induct)
  case less
  obtain report w1 where check: "CheckKeys get clients keys w = (report, w1)" by fastforce
  obtain t w2 where now: "time_now w1 = (t, w2)" by fastforce
  obtain cancelled w3 where pause: "pause w2 = (cancelled, w3)" by fastforce
  note unfold = wait_loop.simps [of get time_now pause clients keys settle deadline w]
  show ?case
  proof (cases "rep_Consistent report \<or> t > deadline \<or> cancelled")
    case True
    with check now pause CheckKeys_keys [of get clients keys w] show ?thesis unfolding unfold by auto
  next
    case False
    have "time w \<le> time w1" using check_time [of w clients keys] check by simp
    moreover have "time w1 \<le> t" "time w1 \<le> time w2" using now_time [of w1] now by simp_all
    moreover have "time w2 + 100000000 \<le> time w3" using pause_time [of w2] pause False by simp
    ultimately have "nat (deadline + 100000000 - time w3) < nat (deadline + 100000000 - time w)"
      using False by linarith
    from less.hyps [OF this] False check now pause show ?thesis unfolding unfold by simp
  qed
qed

lemma WaitForConvergence_returns:
  "\<exists>report err w'. WaitForConvergence get time_now pause clients keys settle w = Some ((report, err), w') \<and>
     (err = None \<longleftrightarrow> rep_Consistent report) \<and> map kr_Key (rep_Keys report) = keys"
proof -
  obtain t w' where "time_now w = (t, w')" by (rule prod.exhaust)
  then show ?thesis unfolding WaitForConvergence_def using wait_loop_returns [of clients keys settle "t + settle" w'] by simp
qed

end

section \<open>Checking the modelled nodes\<close>

text \<open>
  A time and the nodes by number; a \<open>Get\<close> is the node's handler; between two polls the nodes
  change in whatever way \<open>env\<close> says.
\<close>

type_synonym nodes_world = "int \<times> (nat \<Rightarrow> nat Node)"

fun node_get :: "(nat, node_error, nodes_world) get_rpc" where
  "node_get i req (t, ns) =
     (case Node_Get req (ns i) of (resp, n) \<Rightarrow> (Inr resp, (t, ns(i := n))))"

fun node_time :: "nodes_world \<Rightarrow> int \<times> nodes_world" where
  "node_time (t, ns) = (t, (t, ns))"

fun node_pause :: "(int \<Rightarrow> (nat \<Rightarrow> nat Node) \<Rightarrow> nat \<Rightarrow> nat Node) \<Rightarrow> nodes_world \<Rightarrow> bool \<times> nodes_world" where
  "node_pause env (t, ns) = (False, (t + 100000000, env t ns))"

lemma Node_Get_store: "NStore (snd (Node_Get req n)) = NStore n"
  by (auto simp: Node_Get_def Let_def split: option.splits)

lemma Node_Get_response:
  "fst (Node_Get req n) =
     (case Store_Get (get_Key req) (NStore n) of
        None \<Rightarrow> \<lparr>getr_Value = [], getr_Timestamp = None, getr_Found = False\<rparr>
      | Some v \<Rightarrow> \<lparr>getr_Value = Data v, getr_Timestamp = Some (toProtoTS (ValTS v)), getr_Found = True\<rparr>)"
  by (auto simp: Node_Get_def Let_def split: option.splits)

lemma node_get_stable:
  "fst (node_get c r (snd (node_get c' r' w))) = fst (node_get c r w)"
  by (cases w) (simp add: split_beta Node_Get_response Node_Get_store)

interpretation nodes: stable_reads node_get
  by unfold_locales (rule node_get_stable)

interpretation nodes_poll: polling node_get node_time "node_pause env" fst for env
  by unfold_locales (auto simp: split_beta)

definition visible :: "nat Node \<Rightarrow> key \<Rightarrow> bytes option" where
  "visible n k = map_option Data (Store_Get k (NStore n))"

lemma content_visible:
  "content (fst (Node_Get \<lparr>get_Key = k\<rparr> n)) = content (fst (Node_Get \<lparr>get_Key = k\<rparr> n')) \<longleftrightarrow>
     visible n k = visible n' k"
  by (auto simp: Node_Get_response content_def visible_def split: option.splits)

lemma unanimous_nodes:
  "unanimous (nodes.answers k clients (t, ns)) \<longleftrightarrow>
     (\<forall>a \<in> set clients. \<forall>b \<in> set clients. visible (ns (nc_Client a)) k = visible (ns (nc_Client b)) k)"
proof -
  have "unanimous (nodes.answers k clients (t, ns)) \<longleftrightarrow>
      (\<exists>x. \<forall>a \<in> set clients. content (fst (Node_Get \<lparr>get_Key = k\<rparr> (ns (nc_Client a)))) = x)"
    by (simp add: unanimous_def nodes.answers_def split_beta)
  also have "\<dots> \<longleftrightarrow> (\<forall>a \<in> set clients. \<forall>b \<in> set clients.
      content (fst (Node_Get \<lparr>get_Key = k\<rparr> (ns (nc_Client a)))) =
      content (fst (Node_Get \<lparr>get_Key = k\<rparr> (ns (nc_Client b)))))"
    by (rule all_same_iff)
  finally show ?thesis by (simp add: content_visible)
qed

section \<open>Properties\<close>

text \<open>
  C20: The checker is exact on nodes at rest: its report is consistent if and only if, for every
  key it was given, all nodes it was given show the same data or all show none. Its own reads do
  not change the outcome.
\<close>

theorem CheckKeys_exact:
  "rep_Consistent (fst (CheckKeys node_get clients keys (t, ns))) \<longleftrightarrow>
     (\<forall>k \<in> set keys. \<forall>a \<in> set clients. \<forall>b \<in> set clients.
        visible (ns (nc_Client a)) k = visible (ns (nc_Client b)) k)"
  by (simp add: nodes.verdict unanimous_nodes)

definition ex_clients :: "nat NamedClient list" where
  "ex_clients = [\<lparr>nc_Address = ''a'', nc_Client = 0\<rparr>, \<lparr>nc_Address = ''b'', nc_Client = 1\<rparr>]"

definition ex_nodes :: "nat \<Rightarrow> nat Node" where
  "ex_nodes i = ex_causal\<lparr>NStore := if i = 0 then \<lparr>store_data = [''x'' \<mapsto> ex_x]\<rparr> else Store_New\<rparr>"

theorem CheckKeys_exact_witness:
  "\<not> rep_Consistent (fst (CheckKeys node_get ex_clients [''x''] (0, ex_nodes))) \<and>
   rep_Consistent (fst (CheckKeys node_get ex_clients [''y''] (0, ex_nodes)))"
  unfolding CheckKeys_exact
  by (simp add: ex_clients_def ex_nodes_def visible_def Store_Get_def Store_New_def ex_x_def)

text \<open>
  The report lists every key once, in order, and under it every node once, in order, whatever
  the clients answer; it is consistent exactly when each of its keys is; and where a key is, all
  its nodes have one value and one presence flag.
\<close>

theorem CheckKeys_report:
  assumes "CheckKeys get clients keys w = (report, w')"
  shows "KeysChecked report = length keys \<and> map kr_Key (rep_Keys report) = keys \<and>
    rep_Consistent report = list_all kr_Consistent (rep_Keys report) \<and>
    (\<forall>kr \<in> set (rep_Keys report). map nv_Address (kr_Nodes kr) = map nc_Address clients \<and>
       (kr_Consistent kr \<longrightarrow> (\<exists>x. \<forall>nv \<in> set (kr_Nodes kr). (nv_Value nv, nv_Found nv) = x)))"
proof -
  obtain rs where rs: "read_keys get clients keys w = (rs, w')"
    and report: "report = \<lparr>KeysChecked = length keys, rep_Consistent = (\<forall>x \<in> set rs. unanimous (snd x)),
          rep_Keys = map (key_report clients) rs\<rparr>"
    using assms by (auto simp: CheckKeys_reads split_beta prod_eq_iff)
  note keys = read_keys_shape(1) [of get clients keys w] read_keys_shape(2) [of _ get clients keys w]
  have "map nv_Address (kr_Nodes kr) = map nc_Address clients \<and>
      (kr_Consistent kr \<longrightarrow> (\<exists>x. \<forall>nv \<in> set (kr_Nodes kr). (nv_Value nv, nv_Found nv) = x))"
    if "kr \<in> set (rep_Keys report)" for kr
  proof -
    from that obtain x where x: "x \<in> set rs" "kr = key_report clients x" by (auto simp: report)
    have "length (snd x) = length clients" using keys(2) [of x] rs x(1) by simp
    from key_report_facts [OF this] x(2) show ?thesis by blast
  qed
  moreover have "map fst rs = keys" using keys(1) rs by simp
  ultimately show ?thesis by (simp add: report list_all_iff comp_def key_report_sel)
qed

theorem CheckKeys_report_witness:
  "\<exists>report w'. CheckKeys node_get ex_clients [''x'', ''y''] (0, ex_nodes) = (report, w') \<and>
     map kr_Key (rep_Keys report) = [''x'', ''y''] \<and>
     (\<forall>kr \<in> set (rep_Keys report). map nv_Address (kr_Nodes kr) = [''a'', ''b''])"
proof -
  obtain report w' where run: "CheckKeys node_get ex_clients [''x'', ''y''] (0, ex_nodes) = (report, w')"
    by (rule prod.exhaust)
  from CheckKeys_report [OF run] have facts: "map kr_Key (rep_Keys report) = [''x'', ''y'']"
    "\<forall>kr \<in> set (rep_Keys report). map nv_Address (kr_Nodes kr) = [''a'', ''b'']"
    by (simp_all add: ex_clients_def)
  show ?thesis by (intro exI [of _ report] exI [of _ w'] conjI run facts)
qed

text \<open>
  Waiting for convergence always returns, whatever the nodes do between the polls and however
  long the settle time; it returns without an error exactly when its last report is consistent, and that
  report is on the keys asked for.
\<close>

theorem WaitForConvergence_terminates:
  "\<exists>report err w'. WaitForConvergence node_get node_time (node_pause env) clients keys settle (t, ns) =
       Some ((report, err), w') \<and> (err = None) = rep_Consistent report \<and>
     map kr_Key (rep_Keys report) = keys"
  by (rule nodes_poll.WaitForConvergence_returns)

end
