(* ===== verification/ResultFiles.thy ===== *)
theory ResultFiles
  imports Driver
begin

text \<open>
  The CSV files that the benchmark and the experiments append to: \<open>WriteSummaryCSV\<close> of
  \<open>bench/ycsb_driver.go\<close> and \<open>appendTrialRow\<close> of \<open>cmd/experiments/main.go\<close>. A file is the list of its
  records; the encoding of a record is the \<open>encoding/csv\<close> library's.
\<close>

section \<open>Files\<close>

text \<open>
  The files by path, and what the system calls do: whether a directory can be made, whether a file
  can be opened for appending, and how much of the buffered records a flush brings to the disk.
\<close>

record disk =
  disk_files :: "string \<Rightarrow> string list list option"
  mkdir_ok :: "string \<Rightarrow> bool"
  open_ok :: "string \<Rightarrow> bool"
  flushed :: "string \<Rightarrow> string list list \<Rightarrow> string list list"

datatype file_error = MkdirFailed | OpenFailed | FlushFailed

definition fileExists :: "string \<Rightarrow> disk \<Rightarrow> bool" where
  "fileExists path d \<longleftrightarrow> disk_files d path \<noteq> None"

text \<open>What arrives at the end of a file that has been opened with \<open>O_CREATE\<close> and \<open>O_APPEND\<close>.\<close>

definition append_to :: "string \<Rightarrow> string list list \<Rightarrow> disk \<Rightarrow> disk" where
  "append_to path recs d =
     d\<lparr>disk_files := (disk_files d)(path \<mapsto>
        (case disk_files d path of None \<Rightarrow> [] | Some old \<Rightarrow> old) @ recs)\<rparr>"

definition WriteSummaryCSV :: "string \<Rightarrow> Result \<Rightarrow> disk \<Rightarrow> file_error option \<times> disk" where
  "WriteSummaryCSV path res d =
     (if \<not> mkdir_ok d (dirOf path) then (Some MkdirFailed, d)
      else
        let exists = fileExists path d in
        if \<not> open_ok d path then (Some OpenFailed, d)
        else
          let recs = (if \<not> exists then [SummaryHeader] else []) @ [Row res];
              got = flushed d path recs;
              d' = append_to path got d
          in (if got = recs then None else Some FlushFailed, d'))"

text \<open>\<open>cmd/experiments/main.go\<close> has its own copy of \<open>dirOf\<close>, with the same loop.\<close>

definition trial_dirOf :: "string \<Rightarrow> string" where
  "trial_dirOf path = dir_loop (length path) path"

definition TrialHeader :: "string list" where
  "TrialHeader = [''mode'', ''test'', ''trial'', ''staleness_ms'', ''violation'']"

text \<open>The errors here are those of \<open>log.Fatal\<close>; those of the CSV writer are ignored.\<close>

definition appendTrialRow :: "string \<Rightarrow> string list \<Rightarrow> disk \<Rightarrow> file_error option \<times> disk" where
  "appendTrialRow path row d =
     (if \<not> mkdir_ok d (trial_dirOf path) then (Some MkdirFailed, d)
      else
        let exists = fileExists path d in
        if \<not> open_ok d path then (Some OpenFailed, d)
        else
          let recs = (if \<not> exists then [TrialHeader] else []) @ [row]
          in (None, append_to path (flushed d path recs) d))"

section \<open>Appending under a header\<close>

text \<open>
  What both writers rely on and promise: on a path that can be written, a call returns no error,
  appends its row, below the header if the file is new, and leaves the rest of the disk alone.
\<close>

definition writable :: "(string \<Rightarrow> string) \<Rightarrow> string \<Rightarrow> disk \<Rightarrow> bool" where
  "writable dir path d \<longleftrightarrow> mkdir_ok d (dir path) \<and> open_ok d path \<and> flushed d path = (\<lambda>recs. recs)"

definition under_header :: "string list \<Rightarrow> string list list \<Rightarrow> string list list option \<Rightarrow> string list list" where
  "under_header header rows old = (case old of None \<Rightarrow> [header] | Some xs \<Rightarrow> xs) @ rows"

definition appended :: "string list \<Rightarrow> string \<Rightarrow> string list list \<Rightarrow> disk \<Rightarrow> disk" where
  "appended header path rows d =
     d\<lparr>disk_files := (disk_files d)(path \<mapsto> under_header header rows (disk_files d path))\<rparr>"

lemma appended_append: "appended h path rs' (appended h path rs d) = appended h path (rs @ rs') d"
  by (simp add: appended_def under_header_def)

lemma appended_writable [simp]: "writable dir path (appended h path rs d) = writable dir path d"
  by (simp add: writable_def appended_def)

locale row_writer =
  fixes dir :: "string \<Rightarrow> string" and header :: "string list" and row_of :: "'r \<Rightarrow> string list"
    and put_row :: "string \<Rightarrow> 'r \<Rightarrow> disk \<Rightarrow> file_error option \<times> disk"
  assumes writes: "writable dir path d \<Longrightarrow> put_row path r d = (None, appended header path [row_of r] d)"
begin

fun write_all :: "string \<Rightarrow> 'r list \<Rightarrow> disk \<Rightarrow> file_error option \<times> disk" where
  "write_all path [] d = (None, d)"
| "write_all path (r # rs) d =
     (case put_row path r d of (Some e, d') \<Rightarrow> (Some e, d') | (None, d') \<Rightarrow> write_all path rs d')"

lemma write_all_appends:
  "writable dir path d \<Longrightarrow> rs \<noteq> [] \<Longrightarrow>
     write_all path rs d = (None, appended header path (map row_of rs) d)"
proof (induction rs arbitrary: d)
  case (Cons r rs)
  then show ?case
    by (cases "rs = []") (simp_all add: writes appended_append)
qed simp

end

lemma WriteSummaryCSV_writes:
  "writable dirOf path d \<Longrightarrow> WriteSummaryCSV path res d = (None, appended SummaryHeader path [Row res] d)"
  by (auto simp: WriteSummaryCSV_def writable_def appended_def append_to_def under_header_def
      fileExists_def Let_def split: option.splits)

lemma appendTrialRow_writes:
  "writable trial_dirOf path d \<Longrightarrow> appendTrialRow path row d = (None, appended TrialHeader path [row] d)"
  by (auto simp: appendTrialRow_def writable_def appended_def append_to_def under_header_def
      fileExists_def Let_def split: option.splits)

interpretation summary: row_writer dirOf SummaryHeader Row WriteSummaryCSV
  by unfold_locales (rule WriteSummaryCSV_writes)

interpretation trial: row_writer trial_dirOf TrialHeader "\<lambda>row. row" appendTrialRow
  by unfold_locales (rule appendTrialRow_writes)

text \<open>What a call does to a path that cannot be written, errors included.\<close>

lemma WriteSummaryCSV_error:
  assumes "WriteSummaryCSV path res d = (err, d')"
  shows "err \<in> {Some MkdirFailed, Some OpenFailed} \<Longrightarrow> d' = d"
    and "p \<noteq> path \<Longrightarrow> disk_files d' p = disk_files d p"
  using assms by (auto simp: WriteSummaryCSV_def append_to_def Let_def split: if_splits)

section \<open>Properties\<close>

text \<open>
  C25: The summary file stays a table: whatever runs write to it, one after the other, it holds one
  header, first, and then one row per run in their order, below what an earlier session left there.
\<close>

theorem summary_file_is_a_table:
  assumes "writable dirOf path d" and "results \<noteq> []"
  shows "\<exists>d'. summary.write_all path results d = (None, d') \<and>
    disk_files d' path = Some ((case disk_files d path of None \<Rightarrow> [SummaryHeader] | Some old \<Rightarrow> old) @
      map Row results) \<and>
    (\<forall>p. p \<noteq> path \<longrightarrow> disk_files d' p = disk_files d p)"
  using summary.write_all_appends [OF assms] by (simp add: appended_def under_header_def)

definition ex_disk :: disk where
  "ex_disk = \<lparr>disk_files = (\<lambda>_. None), mkdir_ok = (\<lambda>_. True), open_ok = (\<lambda>_. True),
     flushed = (\<lambda>_ recs. recs)\<rparr>"

theorem summary_file_is_a_table_witness:
  "\<forall>r r'. \<exists>d'. summary.write_all ''out.csv'' [r, r'] ex_disk = (None, d') \<and>
     disk_files d' ''out.csv'' = Some [SummaryHeader, Row r, Row r']"
proof -
  have "writable dirOf ''out.csv'' ex_disk" by (simp add: writable_def ex_disk_def)
  from summary_file_is_a_table [OF this] show ?thesis by (fastforce simp: ex_disk_def)
qed

end
