(* ===== verification/Commands.thy ===== *)
theory Commands
  imports Checker ResultFiles Experiments
begin

text \<open>
  The commands \<open>checker\<close>, \<open>experiments\<close> and \<open>bench\<close>: the \<open>main\<close> functions of \<open>cmd/checker\<close>,
  \<open>cmd/experiments\<close> and \<open>cmd/bench\<close> from their parsed flags to the way they end. Dialling and closing
  a connection are arguments; the deadline of the context is part of the RPCs and the pause that
  take it. Text that is only printed is represented by what it is printed from. Connections are
  closed by deferred calls, which \<open>log.Fatal\<close> and \<open>os.Exit\<close> skip and a panic runs.
\<close>

section \<open>The checker\<close>

definition parseList :: "string \<Rightarrow> string list" where
  "parseList raw = parse_parts (Split (CHR '','') raw) []"

record checker_flags =
  ck_nodes :: string
  ck_keyPrefix :: string
  ck_keyCount :: int
  ck_settle :: int
  ck_timeout :: int

definition default_checker_flags :: checker_flags where
  "default_checker_flags = \<lparr>ck_nodes = ''localhost:50051,localhost:50052,localhost:50053'',
     ck_keyPrefix = ''user'', ck_keyCount = 100, ck_settle = 3 * 1000000000, ck_timeout = 30 * 1000000000\<rparr>"

text \<open>\<open>client\<close> is \<open>NewKVStoreClient\<close>: the client on a connection.\<close>

fun dial_all :: "(string \<Rightarrow> 'e + 'n) \<Rightarrow> ('n \<Rightarrow> 'c) \<Rightarrow> string list \<Rightarrow> 'c NamedClient list \<Rightarrow> 'n list \<Rightarrow>
  (string \<times> 'e) + ('c NamedClient list \<times> 'n list)" where
  "dial_all dial client [] clients conns = Inr (clients, conns)"
| "dial_all dial client (addr # addrs) clients conns =
     (case dial addr of
        Inl e \<Rightarrow> Inl (addr, e)
      | Inr conn \<Rightarrow>
          dial_all dial client addrs (clients @ [\<lparr>nc_Address = addr, nc_Client = client conn\<rparr>]) (conns @ [conn]))"

definition key_names :: "string \<Rightarrow> int \<Rightarrow> string list" where
  "key_names pre keyCount = map (\<lambda>i. pre @ show_int (int i)) [0..<nat keyCount]"

text \<open>
  How the command ends. \<open>KeyCountPanic\<close>: \<open>make\<close> refuses a negative length. The report is printed in
  the last three cases; only the last is exit status 0.
\<close>

datatype 'e checker_exit =
    NoNodes
  | DialFailed string 'e
  | KeyCountPanic
  | CheckFailed Report wait_error
  | Inconsistent Report
  | Passed Report

definition checker_main ::
  "(string \<Rightarrow> 'd + 'n) \<Rightarrow> ('n \<Rightarrow> 'c) \<Rightarrow> ('n \<Rightarrow> 'w \<Rightarrow> 'w) \<Rightarrow> ('c, 'e, 'w) get_rpc \<Rightarrow> ('w \<Rightarrow> int \<times> 'w) \<Rightarrow>
   ('w \<Rightarrow> bool \<times> 'w) \<Rightarrow> checker_flags \<Rightarrow> 'w \<Rightarrow> ('d checker_exit \<times> 'w) option" where
  "checker_main dial client close get time_now pause flags w =
     (let nodeList = parseList (ck_nodes flags) in
      if length nodeList = 0 then Some (NoNodes, w)
      else
        (case dial_all dial client nodeList [] [] of
           Inl (addr, e) \<Rightarrow> Some (DialFailed addr e, w)
         | Inr (clients, conns) \<Rightarrow>
             if ck_keyCount flags < 0 then Some (KeyCountPanic, closeConns close conns w)
             else
               (case WaitForConvergence get time_now pause clients
                       (key_names (ck_keyPrefix flags) (ck_keyCount flags)) (ck_settle flags) w of
                  None \<Rightarrow> None
                | Some ((report, Some err), w') \<Rightarrow> Some (CheckFailed report err, w')
                | Some ((report, None), w') \<Rightarrow>
                    if \<not> rep_Consistent report then Some (Inconsistent report, w')
                    else Some (Passed report, closeConns close conns w'))))"

section \<open>The experiments\<close>

definition staleness_rows :: "string \<Rightarrow> int \<Rightarrow> StalenessResult \<Rightarrow> string list list" where
  "staleness_rows mode trials res =
     map (\<lambda>i. [mode, ''staleness'', show_int (int i), show_fixed 2 (SamplesMs res ! i), ''''])
       [0..<length (SamplesMs res)] @
     map (\<lambda>i. [mode, ''staleness'', show_int (int i), '''', ''timeout''])
       [length (SamplesMs res)..<nat trials]"

definition causal_rows :: "string \<Rightarrow> CausalChainResult \<Rightarrow> string list list" where
  "causal_rows mode res =
     map (\<lambda>i. [mode, ''causal_chain'', show_int (int i), '''',
         if TrialViolations res ! i then ''1'' else ''0''])
       [0..<length (TrialViolations res)]"

definition violation_rate :: "CausalChainResult \<Rightarrow> int \<Rightarrow> rat" where
  "violation_rate res trials =
     (if trials > 0
      then round64 (round64 (round64 (of_int (Violations res)) / round64 (of_int trials)) * 100)
      else 0)"

text \<open>One test: what stops the command, or what its summary line is printed from.\<close>

datatype 'e test_error = MeasureFailed 'e | RowFailed file_error | UnknownTest string

definition runStaleness ::
  "('e, 'w) put_call \<Rightarrow> ('e, 'w) get_call \<Rightarrow> 'w clock_call \<Rightarrow> ('w \<Rightarrow> 'w) \<Rightarrow> string \<Rightarrow> int \<Rightarrow> string \<Rightarrow>
   'w \<times> disk \<Rightarrow> (('e test_error + StalenessResult) \<times> 'w \<times> disk) option" where
  "runStaleness put get time_now sleep mode trials output wd =
     (case MeasureStaleness put get time_now sleep trials (fst wd) of
        None \<Rightarrow> None
      | Some ((res, Some e), w') \<Rightarrow> Some (Inl (MeasureFailed e), w', snd wd)
      | Some ((res, None), w') \<Rightarrow>
          (case trial.write_all output (staleness_rows mode trials res) (snd wd) of
             (Some e, d') \<Rightarrow> Some (Inl (RowFailed e), w', d')
           | (None, d') \<Rightarrow> Some (Inr res, w', d')))"

definition runCausal ::
  "('e, 'w) put_call \<Rightarrow> ('e, 'w) get_call \<Rightarrow> ('e, 'w) get_call \<Rightarrow> 'w clock_call \<Rightarrow> ('w \<Rightarrow> 'w) \<Rightarrow>
   string \<Rightarrow> int \<Rightarrow> string \<Rightarrow> 'w \<times> disk \<Rightarrow>
   (('e test_error + CausalChainResult \<times> rat) \<times> 'w \<times> disk) option" where
  "runCausal put oget rget time_now sleep mode trials output wd =
     (case MeasureCausalChains put oget rget time_now sleep trials (fst wd) of
        None \<Rightarrow> None
      | Some ((res, Some e), w') \<Rightarrow> Some (Inl (MeasureFailed e), w', snd wd)
      | Some ((res, None), w') \<Rightarrow>
          (case trial.write_all output (causal_rows mode res) (snd wd) of
             (Some e, d') \<Rightarrow> Some (Inl (RowFailed e), w', d')
           | (None, d') \<Rightarrow> Some (Inr (res, violation_rate res trials), w', d')))"

definition experiments_main ::
  "('e, 'w) put_call \<Rightarrow> ('e, 'w) get_call \<Rightarrow> ('e, 'w) get_call \<Rightarrow> 'w clock_call \<Rightarrow> ('w \<Rightarrow> 'w) \<Rightarrow>
   string \<Rightarrow> string \<Rightarrow> int \<Rightarrow> string \<Rightarrow> 'w \<times> disk \<Rightarrow> ('e test_error option \<times> 'w \<times> disk) option" where
  "experiments_main put oget rget time_now sleep test mode trials output wd =
     (let staleness = runStaleness put rget time_now sleep mode trials output;
          causal = runCausal put oget rget time_now sleep mode trials output
      in if test = ''staleness'' then
           (case staleness wd of
              None \<Rightarrow> None | Some (Inl e, wd') \<Rightarrow> Some (Some e, wd') | Some (Inr _, wd') \<Rightarrow> Some (None, wd'))
         else if test = ''causal'' then
           (case causal wd of
              None \<Rightarrow> None | Some (Inl e, wd') \<Rightarrow> Some (Some e, wd') | Some (Inr _, wd') \<Rightarrow> Some (None, wd'))
         else if test = ''all'' then
           (case staleness wd of
              None \<Rightarrow> None
            | Some (Inl e, wd') \<Rightarrow> Some (Some e, wd')
            | Some (Inr _, wd1) \<Rightarrow>
                (case causal wd1 of
                   None \<Rightarrow> None
                 | Some (Inl e, wd') \<Rightarrow> Some (Some e, wd')
                 | Some (Inr _, wd') \<Rightarrow> Some (None, wd')))
         else Some (Some (UnknownTest test), wd))"

record experiments_flags =
  ex_test :: string
  ex_origin :: string
  ex_replica :: string
  ex_mode :: string
  ex_trials :: int
  ex_output :: string

definition default_experiments_flags :: experiments_flags where
  "default_experiments_flags = \<lparr>ex_test = ''all'', ex_origin = ''localhost:50051'',
     ex_replica = ''localhost:50052'', ex_mode = ''eventual'', ex_trials = 30,
     ex_output = ''bench/results/paper/experiments.csv''\<rparr>"

text \<open>
  The client of \<open>internal/experiments\<close>, which keeps the connection it closes; \<open>new\<close> is
  \<open>NewKVStoreClient\<close>.
\<close>

record ('k, 'n) Client =
  cl_Addr :: string
  cl_Client :: 'k
  cl_conn :: "'n option"

definition Dial :: "(string \<Rightarrow> 'd + 'n) \<Rightarrow> ('n \<Rightarrow> 'k) \<Rightarrow> string \<Rightarrow> 'd + ('k, 'n) Client" where
  "Dial dial new addr =
     (case dial addr of
        Inl e \<Rightarrow> Inl e
      | Inr conn \<Rightarrow> Inr \<lparr>cl_Addr = addr, cl_Client = new conn, cl_conn = Some conn\<rparr>)"

definition Client_Close :: "('n \<Rightarrow> 'w \<Rightarrow> 'c option \<times> 'w) \<Rightarrow> ('k, 'n) Client \<Rightarrow> 'w \<Rightarrow> 'c option \<times> 'w" where
  "Client_Close close c w = (case cl_conn c of Some conn \<Rightarrow> close conn w | None \<Rightarrow> (None, w))"

text \<open>
  The whole command: both nodes are dialled, and after a test that did not stop the process the
  replica's connection is closed first.
\<close>

datatype ('e, 'd) experiments_exit = ExpDialFailed 'd | TestFailed "'e test_error" | Completed

definition experiments_command ::
  "(string \<Rightarrow> 'd + 'n) \<Rightarrow> ('n \<Rightarrow> ('e, 'w) put_call \<times> ('e, 'w) get_call) \<Rightarrow> ('n \<Rightarrow> 'w \<Rightarrow> 'c option \<times> 'w) \<Rightarrow>
   'w clock_call \<Rightarrow> ('w \<Rightarrow> 'w) \<Rightarrow> experiments_flags \<Rightarrow> 'w \<times> disk \<Rightarrow>
   (('e, 'd) experiments_exit \<times> 'w \<times> disk) option" where
  "experiments_command dial new close time_now sleep flags wd =
     (case Dial dial new (ex_origin flags) of
        Inl e \<Rightarrow> Some (ExpDialFailed e, wd)
      | Inr originClient \<Rightarrow>
          (case Dial dial new (ex_replica flags) of
             Inl e \<Rightarrow> Some (ExpDialFailed e, wd)
           | Inr replicaClient \<Rightarrow>
               (case experiments_main (fst (cl_Client originClient)) (snd (cl_Client originClient))
                       (snd (cl_Client replicaClient)) time_now sleep (ex_test flags) (ex_mode flags)
                       (ex_trials flags) (ex_output flags) wd of
                  None \<Rightarrow> None
                | Some (Some e, wd') \<Rightarrow> Some (TestFailed e, wd')
                | Some (None, w', d') \<Rightarrow>
                    Some (Completed,
                      snd (Client_Close close originClient (snd (Client_Close close replicaClient w'))), d'))))"

section \<open>The benchmark\<close>

record bench_flags =
  bf_target :: string
  bf_workload :: string
  bf_mode :: string
  bf_output :: string
  bf_seed :: int64
  bf_peerDelayMs :: int
  bf_skipLoad :: bool
  bf_timeout :: int

definition default_bench_flags :: bench_flags where
  "default_bench_flags = \<lparr>bf_target = ''localhost:50051'', bf_workload = ''bench/workloads/workload_a.yaml'',
     bf_mode = ''eventual'', bf_output = ''bench/results/summary.csv'', bf_seed = 0, bf_peerDelayMs = 0,
     bf_skipLoad = False, bf_timeout = 5 * 60 * 1000000000\<rparr>"

text \<open>
  \<open>read_file\<close> is what reading a file returns; the physical clock is read for the seed only if the
  flag is 0.
\<close>

datatype ('e, 'd) bench_error =
    LoadWorkloadFailed "'e workload_error"
  | BenchDialFailed 'd
  | LoadFailed key 'e
  | CsvFailed file_error

definition bench_main ::
  "('r \<Rightarrow> rat \<times> 'r) \<Rightarrow> (int \<Rightarrow> 'r \<Rightarrow> int \<times> 'r) \<Rightarrow> (rat \<Rightarrow> rat \<Rightarrow> rat) \<Rightarrow> (int64 \<Rightarrow> 'r) \<Rightarrow>
   ('w \<Rightarrow> int64 \<times> 'w) \<Rightarrow> ('b \<Rightarrow> 'e + Workload) \<Rightarrow> (string \<Rightarrow> 'e + 'b) \<Rightarrow> (string \<Rightarrow> 'd + 'n) \<Rightarrow>
   ('n \<Rightarrow> ('e, 'w) kv_client) \<Rightarrow> ('n \<Rightarrow> 'w \<Rightarrow> 'w) \<Rightarrow> bench_flags \<Rightarrow> 'w \<Rightarrow> disk \<Rightarrow>
   (('e, 'd) bench_error + Result) \<times> 'w \<times> disk" where
  "bench_main f64 intn pow new_rand time_now unmarshal read_file dial new close flags w d =
     (case LoadWorkload unmarshal (read_file (bf_workload flags)) of
        (workload, Some e) \<Rightarrow> (Inl (LoadWorkloadFailed e), w, d)
      | (workload, None) \<Rightarrow>
          (case dial (bf_target flags) of
             Inl e \<Rightarrow> (Inl (BenchDialFailed e), w, d)
           | Inr conn \<Rightarrow>
               (case (if bf_seed flags = 0 then time_now w else (0, w)) of (now, w1) \<Rightarrow>
                let client = new conn;
                    driver = NewDriver now new_rand workload (bf_mode flags) (bf_seed flags) in
                case (if \<not> bf_skipLoad flags then Load (snd client) workload w1 else (None, w1)) of
                  (Some (key, e), w2) \<Rightarrow> (Inl (LoadFailed key e), w2, d)
                | (None, w2) \<Rightarrow>
                    (case Run f64 intn pow time_now client driver w2 of (result, driver', w3) \<Rightarrow>
                     let result' = result\<lparr>PeerDelayMs := bf_peerDelayMs flags\<rparr> in
                     case WriteSummaryCSV (bf_output flags) result' d of
                       (Some e, d') \<Rightarrow> (Inl (CsvFailed e), w3, d')
                     | (None, d') \<Rightarrow> (Inr result', close conn w3, d')))))"

section \<open>Waiting for a server\<close>

text \<open>
  The script \<open>wait_grpc.go\<close>: the arguments include the program's name; dialling has a timeout in
  nanoseconds. The result is the exit status and the lines printed.
\<close>

definition wait_grpc :: "(string \<Rightarrow> int \<Rightarrow> 'w \<Rightarrow> ('e + 'n) \<times> 'w) \<Rightarrow> ('n \<Rightarrow> 'w \<Rightarrow> 'w) \<Rightarrow> string list \<Rightarrow> 'w \<Rightarrow>
  nat \<times> string list \<times> 'w" where
  "wait_grpc dial close args w =
     (let addr = (if length args > 1 then args ! 1 else ''localhost:50051'') in
      case dial addr (2 * 1000000000) w of
        (Inl e, w1) \<Rightarrow> (1, [], w1)
      | (Inr conn, w1) \<Rightarrow> (0, [''ready''], close conn w1))"

section \<open>What the commands do\<close>

lemma parseList_is_parsePeers: "parseList = parsePeers"
  by (simp add: fun_eq_iff parseList_def parsePeers_def)

lemma dial_all_error:
  "dial_all dial client addrs clients conns = Inl (a, e) \<Longrightarrow> a \<in> set addrs \<and> dial a = Inl e"
  by (induction dial client addrs clients conns rule: dial_all.induct) (auto split: sum.splits)

lemma dial_all_ok: "\<forall>a \<in> set addrs. dial a = Inr (f a) \<Longrightarrow>
   dial_all dial client addrs clients conns =
     Inr (clients @ map (\<lambda>a. \<lparr>nc_Address = a, nc_Client = client (f a)\<rparr>) addrs, conns @ map f addrs)"
  by (induction dial client addrs clients conns rule: dial_all.induct) simp_all

section \<open>Properties\<close>

text \<open>
  C21: The checker command always ends, and tells the truth when it does, whatever the nodes do
  between its polls: it passes only with a consistent report on all the keys that were asked for,
  it fails the check only with an inconsistent one, and the exit for an inconsistent report
  without an error is never taken. The other ends are those of bad flags and failed dials.
\<close>

theorem checker_main_verdict:
  "\<exists>fin w'. checker_main dial client close node_get node_time (node_pause env) flags (t, ns) = Some (fin, w') \<and>
     (case fin of
        NoNodes \<Rightarrow> parsePeers (ck_nodes flags) = []
      | DialFailed a e \<Rightarrow> a \<in> set (parsePeers (ck_nodes flags)) \<and> dial a = Inl e
      | KeyCountPanic \<Rightarrow> ck_keyCount flags < 0
      | CheckFailed r e \<Rightarrow> \<not> rep_Consistent r
      | Inconsistent r \<Rightarrow> False
      | Passed r \<Rightarrow> rep_Consistent r \<and>
          map kr_Key (rep_Keys r) = key_names (ck_keyPrefix flags) (ck_keyCount flags))"
proof -
  let ?addrs = "parsePeers (ck_nodes flags)" and ?n = "ck_keyCount flags"
  let ?dialled = "dial_all dial client ?addrs [] []" and ?keys = "key_names (ck_keyPrefix flags) ?n"
  consider "?addrs = []" | a e where "?addrs \<noteq> []" "?dialled = Inl (a, e)"
    | cs conns where "?addrs \<noteq> []" "?dialled = Inr (cs, conns)" "?n < 0"
    | cs conns where "?addrs \<noteq> []" "?dialled = Inr (cs, conns)" "0 \<le> ?n"
    by (cases ?dialled) force+
  then show ?thesis
  proof cases
    case 4
    obtain r err w' where "WaitForConvergence node_get node_time (node_pause env) cs ?keys
        (ck_settle flags) (t, ns) = Some ((r, err), w')"
      "err = None \<longleftrightarrow> rep_Consistent r" "map kr_Key (rep_Keys r) = ?keys"
      using nodes_poll.WaitForConvergence_returns [of env cs ?keys "ck_settle flags" "(t, ns)"] by blast
    with 4 show ?thesis by (cases err) (simp_all add: checker_main_def parseList_is_parsePeers Let_def)
  qed (use dial_all_error in \<open>force simp: checker_main_def parseList_is_parsePeers Let_def\<close>)+
qed

lemma upt_join: "i \<le> j \<Longrightarrow> [0..<i] @ [i..<j] = [0..<j]"
  using upt_add_eq_append [of 0 i "j - i"] by simp

lemma staleness_rows_columns:
  assumes "length (SamplesMs res) \<le> nat trials"
  shows "map (\<lambda>row. row ! 2) (staleness_rows mode trials res) = map (\<lambda>i. show_int (int i)) [0..<nat trials]"
    and "map (\<lambda>row. row ! 4) (staleness_rows mode trials res) =
      replicate (length (SamplesMs res)) [] @ replicate (nat trials - length (SamplesMs res)) ''timeout''"
    and "list_all (\<lambda>row. length row = length TrialHeader) (staleness_rows mode trials res)"
  using upt_join [OF assms]
  by (simp_all add: staleness_rows_def comp_def map_replicate_const list_all_iff TrialHeader_def ball_Un
      flip: upt_join [OF assms])

lemma runStaleness_file:
  assumes "runStaleness put get time_now sleep mode trials output (w, d) = Some (Inr res, w', d')"
    and "writable trial_dirOf output d" and "0 < trials"
  shows "MeasureStaleness put get time_now sleep trials w = Some ((res, None), w') \<and>
    Visible res + Timeouts res = trials \<and> Visible res = int (length (SamplesMs res)) \<and>
    0 \<le> Timeouts res \<and> d' = appended TrialHeader output (staleness_rows mode trials res) d"
proof -
  let ?n = "length (SamplesMs res)"
  have run: "MeasureStaleness put get time_now sleep trials w = Some ((res, None), w')"
    and rows: "trial.write_all output (staleness_rows mode trials res) d = (None, d')"
    using assms(1) by (auto simp: runStaleness_def split: option.splits prod.splits sum.splits)
  obtain res1 samples where loop: "staleness_loop put get time_now sleep (nat trials) 0
      \<lparr>st_Trials = trials, Visible = 0, MeanMs = 0, P95Ms = 0, Timeouts = 0, SamplesMs = []\<rparr> [] w =
      Some ((res1, samples, None), w')"
    and res: "Visible res = Visible res1" "Timeouts res = Timeouts res1" "SamplesMs res = samples"
    using run by (auto simp: MeasureStaleness_def Let_def split: option.splits prod.splits if_splits)
  have counts: "Visible res + Timeouts res = trials" "Visible res = int ?n" "0 \<le> Timeouts res"
    using staleness_loop_counts [OF loop] res assms(3) by auto
  then have "?n \<le> nat trials" by linarith
  from staleness_rows_columns(1) [OF this, of mode] assms(3) have "staleness_rows mode trials res \<noteq> []" by auto
  from trial.write_all_appends [OF assms(2) this] rows counts run show ?thesis by simp
qed

text \<open>
  A staleness test that ends without an error has counted every trial once, as visible or as a
  timeout, and has appended one row of five fields per trial to its file, numbered from 0 without
  a gap: first a row for each sample, then one for each timeout, whichever trials those were.
\<close>

theorem runStaleness_rows:
  assumes "runStaleness put get time_now sleep mode trials output (w, d) = Some (Inr res, w', d')"
    and "writable trial_dirOf output d" and "0 < trials"
  shows "Visible res + Timeouts res = trials \<and> Visible res = int (length (SamplesMs res)) \<and>
    d' = appended TrialHeader output (staleness_rows mode trials res) d \<and>
    map (\<lambda>row. row ! 2) (staleness_rows mode trials res) = map (\<lambda>i. show_int (int i)) [0..<nat trials] \<and>
    map (\<lambda>row. row ! 4) (staleness_rows mode trials res) =
      replicate (nat (Visible res)) '''' @ replicate (nat (Timeouts res)) ''timeout'' \<and>
    list_all (\<lambda>row. length row = length TrialHeader) (staleness_rows mode trials res)"
proof -
  note f = runStaleness_file [OF assms]
  then have n: "length (SamplesMs res) \<le> nat trials" "nat trials - length (SamplesMs res) = nat (Timeouts res)"
    by linarith+
  with f staleness_rows_columns [OF n(1), of mode] show ?thesis by simp
qed

text \<open>A replica that shows at once what was last put, at a standing clock.\<close>

fun echo_put :: "(unit, bytes) put_call" where
  "echo_put req w = (Inr \<lparr>putr_Timestamp = None\<rparr>, put_Value req)"

fun echo_get :: "(unit, bytes) get_call" where
  "echo_get req w = (Inr \<lparr>getr_Value = w, getr_Timestamp = None, getr_Found = True\<rparr>, w)"

lemma echo_run:
  "\<exists>res w' d'. runStaleness echo_put echo_get (\<lambda>w. (0, w)) (\<lambda>w. w) mode 1 ''t.csv'' ([], ex_disk) =
     Some (Inr res, w', d') \<and> Visible res = 1"
proof -
  have disk: "writable trial_dirOf ''t.csv'' ex_disk" by (simp add: writable_def ex_disk_def)
  have poll: "staleness_poll echo_get (\<lambda>w. (0, w)) (\<lambda>w. w) k v 0 5000000000 v =
      Some (Inr (Some (round64 (of_int (Milliseconds 0)))), v)" for k v
    using staleness_poll.simps [of echo_get "\<lambda>w. (0, w)" "\<lambda>w. w" k v 0 5000000000 v] by simp
  obtain res w' where run: "MeasureStaleness echo_put echo_get (\<lambda>w. (0, w)) (\<lambda>w. w) 1 [] = Some ((res, None), w')"
    and vis: "Visible res = 1"
    by (simp add: MeasureStaleness_def Let_def poll)
  have "staleness_rows mode 1 res \<noteq> []" by (simp add: staleness_rows_def)
  from trial.write_all_appends [OF disk this] run vis show ?thesis by (simp add: runStaleness_def)
qed

theorem runStaleness_rows_witness:
  "\<exists>res w' d'. runStaleness echo_put echo_get (\<lambda>w. (0, w)) (\<lambda>w. w) ''causal'' 1 ''t.csv'' ([], ex_disk) =
       Some (Inr res, w', d') \<and>
     map (\<lambda>row. row ! 2) (staleness_rows ''causal'' 1 res) = [show_int 0] \<and>
     map (\<lambda>row. row ! 4) (staleness_rows ''causal'' 1 res) = [''''] \<and> disk_files d' ''t.csv'' \<noteq> None"
proof -
  obtain res w' d' where run: "runStaleness echo_put echo_get (\<lambda>w. (0, w)) (\<lambda>w. w) ''causal'' 1 ''t.csv''
      ([], ex_disk) = Some (Inr res, w', d')" "Visible res = 1"
    using echo_run by blast
  have "writable trial_dirOf ''t.csv'' ex_disk" by (simp add: writable_def ex_disk_def)
  from runStaleness_rows [OF run(1) this] run show ?thesis
    by (intro exI [of _ res] exI [of _ w'] exI [of _ d']) (simp add: appended_def)
qed

lemma WriteSummaryCSV_appended:
  assumes "WriteSummaryCSV path res d = (None, d')"
  shows "d' = appended SummaryHeader path [Row res] d"
  using assms
  by (auto simp: WriteSummaryCSV_def append_to_def appended_def under_header_def fileExists_def Let_def
      split: if_splits option.splits)

text \<open>
  C23: A benchmark that ends without an error has run a valid workload in full: it has read the clock
  for its seed if it had to, loaded every record of the workload on the connection to its target unless
  told not to, run the driver from the world that this left, and closed the connection. Each operation
  is counted once. The summary file is the old one, or the header if there was none, followed by the
  row of the result, and no other file has changed.
\<close>

theorem bench_main_completes:
  assumes "bench_main f64 intn pow new_rand time_now unmarshal read_file dial new close flags w d = (Inr res, w', d')"
  shows "\<exists>workload conn w2 result driver' w3. LoadWorkload unmarshal (read_file (bf_workload flags)) = (workload, None) \<and>
    dial (bf_target flags) = Inr conn \<and>
    (case (if bf_seed flags = 0 then time_now w else (0, w)) of (now, w1) \<Rightarrow>
       (if bf_skipLoad flags then w2 = w1
        else put_all (snd (new conn)) (load_requests workload) w1 = (None, w2)) \<and>
       Run f64 intn pow time_now (new conn) (NewDriver now new_rand workload (bf_mode flags) (bf_seed flags)) w2 =
         (result, driver', w3)) \<and>
    w' = close conn w3 \<and> res = result\<lparr>PeerDelayMs := bf_peerDelayMs flags\<rparr> \<and>
    Operations res = OperationCount workload \<and> 0 < Operations res \<and>
    Reads res + Writes res = Operations res \<and> 0 \<le> Errors res \<and> Errors res \<le> Operations res \<and>
    disk_files d' (bf_output flags) =
      Some ((case disk_files d (bf_output flags) of None \<Rightarrow> [SummaryHeader] | Some old \<Rightarrow> old) @ [Row res]) \<and>
    (\<forall>path. path \<noteq> bf_output flags \<longrightarrow> disk_files d' path = disk_files d path)"
proof -
  obtain workload where load: "LoadWorkload unmarshal (read_file (bf_workload flags)) = (workload, None)"
    using assms by (auto simp: bench_main_def split: prod.splits option.splits)
  obtain conn where conn: "dial (bf_target flags) = Inr conn"
    using assms load by (auto simp: bench_main_def split: sum.splits)
  obtain now w1 where now: "(if bf_seed flags = 0 then time_now w else (0, w)) = (now, w1)" by (rule prod.exhaust)
  let ?driver = "NewDriver now new_rand workload (bf_mode flags) (bf_seed flags)"
  obtain e w2 where records: "(if \<not> bf_skipLoad flags then Load (snd (new conn)) workload w1 else (None, w1)) = (e, w2)"
    by (rule prod.exhaust)
  obtain result driver' w3 where run: "Run f64 intn pow time_now (new conn) ?driver w2 = (result, driver', w3)"
    by (rule prod_cases3)
  have e: "e = None" using assms load conn now records by (cases e) (auto simp: bench_main_def Let_def)
  have csv: "WriteSummaryCSV (bf_output flags) (result\<lparr>PeerDelayMs := bf_peerDelayMs flags\<rparr>) d = (None, d')"
    and res: "res = result\<lparr>PeerDelayMs := bf_peerDelayMs flags\<rparr>" and closed: "w' = close conn w3"
    using assms load conn now records e run
    by (auto simp: bench_main_def Let_def split: prod.splits option.splits)
  have valid: "0 < OperationCount workload" using LoadWorkload_valid [OF load] by (simp add: Validate_None)
  have "drv_Workload ?driver = workload" by (simp add: NewDriver_def Let_def)
  with Run_totals [OF run] valid res have totals: "Operations res = OperationCount workload" "0 < Operations res"
    "Reads res + Writes res = Operations res" "0 \<le> Errors res" "Errors res \<le> Operations res" by simp_all
  have loaded: "if bf_skipLoad flags then w2 = w1 else put_all (snd (new conn)) (load_requests workload) w1 = (None, w2)"
    using records e by (auto simp: Load_put_all split: if_splits)
  have disk: "disk_files d' = (disk_files d)(bf_output flags \<mapsto>
      (case disk_files d (bf_output flags) of None \<Rightarrow> [SummaryHeader] | Some old \<Rightarrow> old) @ [Row res])"
    using WriteSummaryCSV_appended [OF csv] by (simp add: appended_def under_header_def res)
  show ?thesis
    by (rule exI [of _ workload], rule exI [of _ conn], rule exI [of _ w2], rule exI [of _ result],
        rule exI [of _ driver'], rule exI [of _ w3], unfold now disk)
      (simp add: load conn loaded run closed res [symmetric] totals valid totals(5) [unfolded totals(1)])
qed

lemma ex_client_loads: "\<exists>w'. put_all (snd ex_client) reqs w = (None, w')"
  by (induction reqs arbitrary: w) (simp_all add: ex_client_def)

theorem bench_main_completes_witness:
  "\<exists>res w' d'. bench_main ex_f64 ex_intn (\<lambda>u x. u) (\<lambda>_. 1 / 4) (\<lambda>w. (w, w)) (\<lambda>_. Inr ex_workload)
       (\<lambda>_. Inr ()) (\<lambda>a. Inr a :: unit + string) (\<lambda>_. ex_client) (\<lambda>_ w. w)
       (default_bench_flags\<lparr>bf_peerDelayMs := 20\<rparr>) 5 (appended SummaryHeader ''bench/results/summary.csv'' [[]] ex_disk) =
       (Inr res, w', d') \<and> Operations res = 100 \<and> PeerDelayMs res = 20 \<and>
     disk_files d' ''bench/results/summary.csv'' = Some [SummaryHeader, [], Row res]"
proof -
  let ?flags = "default_bench_flags\<lparr>bf_peerDelayMs := 20\<rparr>"
  let ?disk = "appended SummaryHeader ''bench/results/summary.csv'' [[]] ex_disk"
  let ?main = "bench_main ex_f64 ex_intn (\<lambda>u x. u) (\<lambda>_. 1 / 4) (\<lambda>w. (w, w)) (\<lambda>_. Inr ex_workload)
       (\<lambda>_. Inr ()) (\<lambda>a. Inr a :: unit + string) (\<lambda>_. ex_client) (\<lambda>_ w. w) ?flags 5 ?disk"
  let ?workload = "ex_workload\<lparr>KeyPrefix := ''user'', ZipfianConstant := round64 (99 / 100)\<rparr>"
  have "OperationCount ?workload = 100" by (simp add: ex_workload_def)
  with ex_load obtain workload where load: "LoadWorkload (\<lambda>_. Inr ex_workload) (Inr ()) =
      (workload, None :: unit workload_error option)" and ops: "OperationCount workload = 100"
    by blast
  obtain w2 where records: "Load (snd ex_client) workload 5 = (None, w2)"
    using ex_client_loads [of "load_requests workload" 5] by (auto simp: Load_put_all)
  obtain result driver' w3 where run: "Run ex_f64 ex_intn (\<lambda>u x. u) (\<lambda>w. (w, w)) ex_client
      (NewDriver 5 (\<lambda>_. 1 / 4) workload ''eventual'' 0) w2 = (result, driver', w3)"
    by (rule prod_cases3)
  have flags: "bf_output ?flags = ''bench/results/summary.csv''" by (simp add: default_bench_flags_def)
  have "writable dirOf (bf_output ?flags) ?disk" by (simp add: writable_def ex_disk_def appended_def)
  note csv = WriteSummaryCSV_writes [OF this]
  obtain d' where main: "?main = (Inr (result\<lparr>PeerDelayMs := 20\<rparr>), w3, d')"
    using csv by (simp add: bench_main_def default_bench_flags_def load records run Let_def)
  have old: "disk_files ?disk (bf_output ?flags) = Some [SummaryHeader, []]"
    unfolding flags by (simp add: appended_def under_header_def ex_disk_def)
  from bench_main_completes [OF main] obtain workload' where
    "LoadWorkload (\<lambda>_. Inr ex_workload) (Inr ()) = (workload', None :: unit workload_error option)"
    "Operations (result\<lparr>PeerDelayMs := 20\<rparr>) = OperationCount workload'"
    "disk_files d' (bf_output ?flags) = Some [SummaryHeader, [], Row (result\<lparr>PeerDelayMs := 20\<rparr>)]"
    unfolding old by auto
  with main flags load ops show ?thesis by auto
qed

lemma runCausal_file:
  assumes "runCausal put oget rget time_now sleep mode trials output (w, d) = Some (Inr (ca, rate), w', d')"
    and "writable trial_dirOf output d" and "0 < trials"
  shows "MeasureCausalChains put oget rget time_now sleep trials w = Some ((ca, None), w') \<and>
    length (TrialViolations ca) = nat trials \<and> Violations ca = int (length (filter id (TrialViolations ca))) \<and>
    d' = appended TrialHeader output (causal_rows mode ca) d"
proof -
  have run: "MeasureCausalChains put oget rget time_now sleep trials w = Some ((ca, None), w')"
    and rows: "trial.write_all output (causal_rows mode ca) d = (None, d')"
    using assms(1) by (auto simp: runCausal_def split: option.splits prod.splits sum.splits)
  have counts: "length (TrialViolations ca) = nat trials"
    "Violations ca = int (length (filter id (TrialViolations ca)))"
    using run chain_loop_counts [of put oget rget time_now sleep "nat trials" 0
        "\<lparr>cc_Trials = trials, Violations = 0, TrialViolations = []\<rparr>" w ca w'] assms(3)
    by (simp_all add: MeasureCausalChains_def)
  have "causal_rows mode ca \<noteq> []" using counts(1) assms(3) by (auto simp: causal_rows_def)
  from trial.write_all_appends [OF assms(2) this] rows counts run show ?thesis by simp
qed

lemma causal_rows_columns:
  "length (causal_rows mode ca) = length (TrialViolations ca)"
  "list_all (\<lambda>row. length row = length TrialHeader) (causal_rows mode ca)"
  "map (\<lambda>row. row ! 4) (causal_rows mode ca) = map (\<lambda>v. if v then ''1'' else ''0'') (TrialViolations ca)"
  by (auto simp: causal_rows_def list_all_iff TrialHeader_def comp_def intro: nth_equalityI)

text \<open>
  C24: The experiments command asked for all tests measures on the two nodes it has dialled and appends
  both results to one file: if nothing stops it, the staleness test runs first, writing to the origin
  and reading from the replica, and the causal chain test from the world that this left. The file gets
  the rows of what the first has measured, one of five fields per trial, and below them those of the
  second, whose last field says of each trial whether it was violated. The replica's connection is
  closed and then the origin's.
\<close>

theorem experiments_command_rows:
  assumes "experiments_command dial new close time_now sleep flags (w, d) = Some (Completed, w', d')"
    and "ex_test flags = ''all''" and "writable trial_dirOf (ex_output flags) d" and "0 < ex_trials flags"
  shows "\<exists>st ca origin replica w1 w2. dial (ex_origin flags) = Inr origin \<and> dial (ex_replica flags) = Inr replica \<and>
    MeasureStaleness (fst (new origin)) (snd (new replica)) time_now sleep (ex_trials flags) w =
      Some ((st, None), w1) \<and>
    MeasureCausalChains (fst (new origin)) (snd (new origin)) (snd (new replica)) time_now sleep (ex_trials flags) w1 =
      Some ((ca, None), w2) \<and>
    w' = snd (close origin (snd (close replica w2))) \<and>
    d' = appended TrialHeader (ex_output flags)
      (staleness_rows (ex_mode flags) (ex_trials flags) st @ causal_rows (ex_mode flags) ca) d \<and>
    length (staleness_rows (ex_mode flags) (ex_trials flags) st) = nat (ex_trials flags) \<and>
    map (\<lambda>row. row ! 4) (causal_rows (ex_mode flags) ca) =
      map (\<lambda>v. if v then ''1'' else ''0'') (TrialViolations ca) \<and>
    length (TrialViolations ca) = nat (ex_trials flags) \<and>
    list_all (\<lambda>row. length row = length TrialHeader)
      (staleness_rows (ex_mode flags) (ex_trials flags) st @ causal_rows (ex_mode flags) ca)"
proof -
  obtain origin replica where dialled: "dial (ex_origin flags) = Inr origin" "dial (ex_replica flags) = Inr replica"
    using assms(1) by (auto simp: experiments_command_def Dial_def split: sum.splits)
  obtain st w1 d1 ca rate w2 where
    st: "runStaleness (fst (new origin)) (snd (new replica)) time_now sleep (ex_mode flags) (ex_trials flags)
      (ex_output flags) (w, d) = Some (Inr st, w1, d1)" and
    ca: "runCausal (fst (new origin)) (snd (new origin)) (snd (new replica)) time_now sleep (ex_mode flags)
      (ex_trials flags) (ex_output flags) (w1, d1) = Some (Inr (ca, rate), w2, d')" and
    w': "w' = snd (close origin (snd (close replica w2)))"
    using assms(1,2) dialled
    by (auto simp: experiments_command_def Dial_def Client_Close_def experiments_main_def Let_def
        split: option.splits prod.splits sum.splits)
  note f1 = runStaleness_file [OF st assms(3,4)]
  have "writable trial_dirOf (ex_output flags) d1" using f1 assms(3) by simp
  note f2 = runCausal_file [OF ca this assms(4)]
  have n: "length (SamplesMs st) \<le> nat (ex_trials flags)" using f1 by linarith
  note columns = staleness_rows_columns [OF n, of "ex_mode flags"]
  have "length (staleness_rows (ex_mode flags) (ex_trials flags) st) = nat (ex_trials flags)"
    using arg_cong [OF columns(1), of length] by simp
  with dialled w' f1 f2 columns(3) causal_rows_columns [of "ex_mode flags" ca] show ?thesis
    by (intro exI [of _ st] exI [of _ ca] exI [of _ origin] exI [of _ replica] exI [of _ w1] exI [of _ w2])
      (simp add: appended_append)
qed

lemma echo_causal:
  "\<exists>res w' d'. runCausal echo_put echo_get echo_get (\<lambda>w. (0, w)) (\<lambda>w. w) mode 1 ''t.csv'' (w, d) = Some (Inr res, w', d')"
  if "writable trial_dirOf ''t.csv'' d"
proof -
  have poll: "pollCausalViolation echo_get (\<lambda>w. (0, w)) (\<lambda>w. w) ka va kb vb 500000000 vb = Some (vb \<noteq> va, vb)"
    for ka va kb vb
    using poll_loop.simps [of echo_get "\<lambda>w. (0, w)" "\<lambda>w. w" ka va kb vb 500000000 vb]
    by (simp add: pollCausalViolation_def)
  obtain res w' where run: "MeasureCausalChains echo_put echo_get echo_get (\<lambda>w. (0, w)) (\<lambda>w. w) 1 w =
      Some ((res, None), w')" and n: "TrialViolations res \<noteq> []"
    by (simp add: MeasureCausalChains_def Let_def poll)
  have "causal_rows mode res \<noteq> []" using n by (simp add: causal_rows_def)
  from trial.write_all_appends [OF that this] run show ?thesis by (simp add: runCausal_def)
qed

definition ex_echo_flags :: experiments_flags where
  "ex_echo_flags = default_experiments_flags\<lparr>ex_trials := 1, ex_output := ''t.csv''\<rparr>"

theorem experiments_command_rows_witness:
  "\<exists>w' d' st ca. experiments_command (\<lambda>a. Inr a :: unit + string) (\<lambda>_. (echo_put, echo_get)) (\<lambda>_ w. (None :: unit option, w))
       (\<lambda>w. (0, w)) (\<lambda>w. w) ex_echo_flags ([], ex_disk) = Some (Completed, w', d') \<and>
     d' = appended TrialHeader ''t.csv'' (staleness_rows (ex_mode ex_echo_flags) 1 st @
       causal_rows (ex_mode ex_echo_flags) ca) ex_disk \<and> length (TrialViolations ca) = 1"
proof -
  have disk: "writable trial_dirOf ''t.csv'' ex_disk" by (simp add: writable_def ex_disk_def)
  obtain st w1 d1 where st: "runStaleness echo_put echo_get (\<lambda>w. (0, w)) (\<lambda>w. w) ''eventual'' 1 ''t.csv''
      ([], ex_disk) = Some (Inr st, w1, d1)" using echo_run by blast
  have "writable trial_dirOf ''t.csv'' d1" using runStaleness_file [OF st disk] disk by simp
  from echo_causal [OF this] obtain ca w2 d2 where ca: "runCausal echo_put echo_get echo_get (\<lambda>w. (0, w)) (\<lambda>w. w)
      ''eventual'' 1 ''t.csv'' (w1, d1) = Some (Inr ca, w2, d2)" by blast
  have main: "experiments_command (\<lambda>a. Inr a :: unit + string) (\<lambda>_. (echo_put, echo_get))
      (\<lambda>_ w. (None :: unit option, w)) (\<lambda>w. (0, w)) (\<lambda>w. w) ex_echo_flags ([], ex_disk) = Some (Completed, w2, d2)"
    by (simp add: experiments_command_def Dial_def Client_Close_def experiments_main_def Let_def
        ex_echo_flags_def default_experiments_flags_def st ca)
  have flags: "ex_test ex_echo_flags = ''all''" "ex_output ex_echo_flags = ''t.csv''" "ex_trials ex_echo_flags = 1"
    by (simp_all add: ex_echo_flags_def default_experiments_flags_def)
  obtain st' ca' where "d2 = appended TrialHeader ''t.csv'' (staleness_rows (ex_mode ex_echo_flags) 1 st' @
      causal_rows (ex_mode ex_echo_flags) ca') ex_disk" "length (TrialViolations ca') = 1"
    using experiments_command_rows [OF main] disk flags by auto
  with main show ?thesis by blast
qed

end
