(* ===== verification/Spec2Isabelle.thy ===== *)
theory Spec2Isabelle
  imports Drift Simulation StrongConvergence BufferConcurrent Rerun Smoke Commands
begin

text \<open>
  A verification development for a replicated in-memory key-value store written in Go, with
  eventual, causal and quorum-based strong modes, and for the programs that load, measure and
  check it.

  \<^bold>\<open>The program.\<close> A node (\<open>internal/server/node.go\<close>) answers \<open>Put\<close>, \<open>Get\<close> and \<open>Delete\<close> of clients
  and \<open>Replicate\<close> of its peers. It stamps writes with a hybrid logical clock (\<open>internal/hlc\<close>), keeps
  versions in a last-writer-wins store (\<open>internal/store\<close>), hands its writes to a replication handler
  (\<open>internal/replication\<close>) that calls its peers, and in causal mode holds back replicated writes whose
  dependencies are missing (\<open>internal/buffer\<close>). The commands under \<open>cmd/\<close> wire and start a node, load
  and measure a node (\<open>bench/\<close>), check that replicas agree (\<open>internal/checker\<close>) and measure staleness
  and order violations (\<open>internal/experiments\<close>).

  \<^bold>\<open>The theories\<close>, in the order in which they build on each other:
  \<^item> \<open>Prelude\<close>: machine integers as words read with \<open>sint\<close>, fact collections, shared lemmas. \<open>GoText\<close>
    and \<open>Float64\<close>: what the code uses of \<open>strings\<close>, \<open>fmt\<close> and of floating-point numbers. A double is a
    rational, rounded to the nearest double after every operation, ties to even; infinities appear
    only in the one quotient whose divisor can be zero.
  \<^item> \<open>HLC\<close> (\<open>hlc.go\<close>): timestamps with their linear order, \<open>Clock_Send\<close> and \<open>Clock_Receive\<close>; the physical
    clock is an argument, any sequence of readings is allowed.
  \<^item> \<open>Store\<close> (\<open>store.go\<close>): all operations; the locale \<open>lww_register\<close> states what makes replicated writes
    commute, and is interpreted on both replicated operations and on the buffer's.
  \<^item> \<open>Buffer\<close> (\<open>buffer.go\<close>): \<open>Buffer_Receive\<close> and the drain, with the filtering inside the shared array
    as \<open>drain_scan\<close>; the relation \<open>release\<close> is its description without an order.
  \<^item> \<open>Proto\<close>: the messages of the two services. \<open>Replication\<close> (\<open>replication.go\<close>): the three handlers;
    replies of peers are an argument; the locale \<open>majority\<close> is what makes quorums meet.
  \<^item> \<open>Server\<close> (\<open>node.go\<close>): \<open>Node_Put\<close>, \<open>Node_Get\<close>, \<open>Node_Delete\<close>, \<open>Node_Replicate\<close> with all their branches.
    \<open>NodeMain\<close> (\<open>cmd/node/main.go\<close>): flags, mode, peer list, dialling, construction, and the process from
    its start to its exit (\<open>node_main\<close>).
  \<^item> \<open>Cluster\<close>: nodes, handlers in progress and a network. A step (\<open>cstep\<close>) is one locked section of
    one handler, so that handlers interleave as goroutines do; messages are reordered, delayed and
    lost freely. \<open>Scenarios\<close> runs it by a scheduler proved to make steps only.
  \<^item> \<open>BufferConcurrent\<close>: the buffer's \<open>Receive\<close> access by access, with local writes of other handlers
    between its accesses to the store; the locale \<open>polite\<close> states what they may do to the store.
  \<^item> \<open>Causality\<close>, \<open>Convergence\<close>: the invariants of the reachable states. \<open>Drift\<close>: runs together with the
    readings of the physical clocks. \<open>Simulation\<close>: uninterrupted handlers are sequences of steps.
  \<^item> \<open>StrongCluster\<close>: the strong mode as a cluster of its own (\<open>sstep\<close>), where a write waits in \<open>OnWrite\<close>
    for the replies to calls that travel, are handled, fail or time out one by one.
    \<open>StrongSimulation\<close>: an uninterrupted write with its peers' handlers is a sequence of such steps.
    \<open>StrongConvergence\<close>: where each write has arrived, in runs in which no peer refuses a call.
  \<^item> \<open>Checker\<close> (\<open>checker.go\<close>), \<open>Workload\<close> and \<open>Driver\<close> (\<open>bench/\<close>), \<open>ResultFiles\<close> (the CSV files),
    \<open>Experiments\<close> (\<open>experiments.go\<close>), \<open>Commands\<close> (\<open>cmd/checker\<close>, \<open>cmd/experiments\<close>, \<open>cmd/bench\<close>,
    \<open>scripts/wait_grpc.go\<close>).
  \<^item> The client programs on modelled nodes: \<open>Replica\<close> (the polls of the experiments in front of one
    replica), \<open>Lab\<close> (a whole causal-chain experiment on an origin and a replica), \<open>Rerun\<close> (two such
    experiments on one pair of nodes in eventual mode), \<open>Bench\<close> (the driver in front of a node),
    \<open>Smoke\<close> (\<open>scripts/test_client.go\<close> in front of a node).
  \<^item> This theory: properties of the checker on the cluster.

  \<^bold>\<open>What the lemmas show.\<close> In eventual and causal mode, for every interleaving: stores stay causally
  closed in causal mode and every visible dependency is a real write (\<open>causal_safety\<close>); at rest with
  no loss all buffers are empty, every write has arrived everywhere and the replicas agree
  (\<open>quiescent_convergence\<close>, \<open>quiescent_stores_equal\<close>), and the checker command then passes
  (\<open>checker_accepts_converged_cluster\<close>); and no timestamp is ahead of the fastest physical clock
  (\<open>timestamps_within_clocks\<close>). What safety and agreement assume of a run are history variables of the
  cluster that no step reads: \<open>stale\<close>, that a local write replaced a newer version, and \<open>lost\<close>, that an RPC failed. That
  they are needed is shown by runs that break them (\<open>interleaved_put_diverges\<close>, \<open>tied_puts_diverge\<close>).
  In strong mode, for every interleaving, every majority of the nodes has a member that holds each
  acknowledged write or a newer version (\<open>acknowledged_write_on_quorum\<close>), under the same condition
  on local writes, which is needed there too (\<open>strong_write_rolled_back\<close>); and at rest all nodes agree
  if no write has failed and no peer has refused a call (\<open>strong_rest_agreement\<close>).
  For the components: the buffer refines the free release of ready writes, is confluent and
  complete; clocks never repeat, never run ahead of what they were told and their counters stay in range; any
  two strong quorums meet; a node alone is monotone and reads its own writes; the checker is exact on nodes at rest and ends;
  the benchmark counts every operation once, picks loaded keys only, finds each of them on a modelled
  node and reports measured latencies in order; the smoke test fails on a node alone only if a write
  fails; the experiments find no violation on a causal cluster, and none where an earlier run has left its keys
  (\<open>rerun_hides_violation\<close>); the result files stay tables; the
  commands end in the ways the code has and close what they dialled.

  \<^bold>\<open>Loops, bounds and errors.\<close> A loop over a list is structural recursion; index loops have a
  measure; the drain ends because every repeated pass has removed a held write. The three polling
  loops, which can run for ever where the clock stands still, are partial functions with \<^const>\<open>None\<close>
  for that, and are proved to return where time passes between the polls: the locales \<open>polling\<close>,
  \<open>ticking\<close> and \<open>paced_client\<close> state this, and are interpreted on nodes in any mode. No fuel is used. Errors of the code
  are values of sum or option types. \<open>int64\<close>, \<open>int32\<close> and \<open>uint64\<close> wrap around; Go's \<open>int\<close> is a HOL integer
  where it counts iterations or elements.

  \<^bold>\<open>Arguments of the model\<close> that stand for code outside the repository: RPCs (a function of the
  request and the state of the world), the physical clock, sleeping, dialling, the YAML library, the
  random source and \<open>math.Pow\<close>, listening and serving, closing of connections, system calls on files,
  the quoting of bytes by \<open>%q\<close>. Concrete worlds
  made of the modelled nodes instantiate the RPCs, so that the client programs are proved against
  the server.

  \<^bold>\<open>Not modelled:\<close> the generated gRPC stubs and protobuf marshalling; flag parsing (the flags and
  their defaults are records), profiling and log lines; the encoding of CSV records and partial
  records on a full disk; memory effects below the locks, since every access that the code locks is one step
  (the cluster takes \<open>Buffer.Receive\<close> as one step, \<open>BufferConcurrent\<close> its accesses one by one);
  a failure of serving that is reported after the shutdown of \<open>node_main\<close> has begun;
  crashes and restarts of nodes (the store is in memory); the shell scripts and the analysis of results.
\<close>

section \<open>The checker on the cluster\<close>

text \<open>With a consistent first check the polling loop returns at once.\<close>

lemma WaitForConvergence_passes:
  assumes "rep_Consistent (fst (CheckKeys node_get clients keys (t, ns)))"
  shows "\<exists>report w'. WaitForConvergence node_get node_time pause clients keys settle (t, ns) =
    Some ((report, None), w')"
proof -
  obtain report w' where "CheckKeys node_get clients keys (t, ns) = (report, w')" by (rule prod.exhaust)
  with assms show ?thesis
    using wait_loop.simps [of node_get node_time pause clients keys settle "t + settle" "(t, ns)"]
    by (simp add: WaitForConvergence_def)
qed

lemma equal_stores_pass:
  assumes "\<And>i j. i \<in> ids \<Longrightarrow> j \<in> ids \<Longrightarrow> NStore (ns i) = NStore (ns j)"
    and "nc_Client ` set clients \<subseteq> ids"
  shows "rep_Consistent (fst (CheckKeys node_get clients keys (t, ns)))"
proof -
  have "visible (ns (nc_Client a)) k = visible (ns (nc_Client b)) k"
    if "a \<in> set clients" "b \<in> set clients" for a b k
    unfolding visible_def using assms that by (metis image_eqI subsetD)
  then show ?thesis unfolding nodes.verdict unanimous_nodes by blast
qed

section \<open>Properties that span components\<close>

text \<open>
  C6: The checker command accepts a converged cluster: after a run in the eventual or the causal
  mode in which no message was lost and no version overwritten by an older one, at rest, with no
  tied writes and no empty \<open>Put\<close>, it passes, whichever nodes of the cluster and whichever keys it
  is given and however the nodes would go on.
\<close>

theorem checker_accepts_converged_cluster:
  assumes "reachable c s" "async_config c" "\<not> stale s" "\<not> lost s" "quiescent c s"
    and clean: "clean_log (cluster.log s)"
    and dial: "parsePeers (ck_nodes flags) \<noteq> []" "\<forall>a \<in> set (parsePeers (ck_nodes flags)). dial a = Inr (f a) \<and> client (f a) \<in> cfg_ids c"
    and "0 \<le> ck_keyCount flags"
  shows "\<exists>report w'. checker_main dial client close node_get node_time (node_pause env) flags (t, nodes s) =
    Some (Passed report, w')"
proof -
  let ?clients = "map (\<lambda>a. \<lparr>nc_Address = a, nc_Client = client (f a)\<rparr>) (parsePeers (ck_nodes flags))"
  have stores: "NStore (nodes s i) = NStore (nodes s j)" if "i \<in> cfg_ids c" "j \<in> cfg_ids c" for i j
    using clean_stores_eq [OF reachable_base [OF assms(1,2)] clean quiescent_versions [OF assms(1-5) that]] .
  have "nc_Client ` set ?clients \<subseteq> cfg_ids c" using dial(2) by auto
  with stores have verdict: "rep_Consistent (fst (CheckKeys node_get ?clients keys (t, nodes s)))" for keys
    by (intro equal_stores_pass [of "cfg_ids c" "nodes s"]) blast+
  obtain report w' where wait: "WaitForConvergence node_get node_time (node_pause env) ?clients
      (key_names (ck_keyPrefix flags) (ck_keyCount flags)) (ck_settle flags) (t, nodes s) = Some ((report, None), w')"
    using WaitForConvergence_passes [OF verdict] by blast
  then have "rep_Consistent report"
    using nodes_poll.WaitForConvergence_returns [of env ?clients "key_names (ck_keyPrefix flags) (ck_keyCount flags)"
        "ck_settle flags" "(t, nodes s)"]
    by simp
  with wait dial assms(9) dial_all_ok [of "parsePeers (ck_nodes flags)" dial f client "[]" "[]"] show ?thesis
    by (simp add: checker_main_def parseList_is_parsePeers Let_def)
qed

lemma ex_flag: "parsePeers ''a,b'' = [''a'', ''b'']"
proof -
  have "trimmed ''a''" "trimmed ''b''" by (rule trimmed_solid; simp add: solid_def)+
  then show ?thesis by (simp add: parsePeers_def TrimSpace_id Let_def)
qed

theorem checker_accepts_converged_cluster_witness:
  "\<exists>s report w'. reachable (ex_config ''causal'' 3) s \<and> Store_Get ''x'' (NStore (nodes s 0)) \<noteq> None \<and>
     checker_main (\<lambda>a. if a = ''a'' then Inr 0 else if a = ''b'' then Inr 1 else Inl ()) id (\<lambda>_ w. w) node_get node_time
       (node_pause (\<lambda>t ns. ns)) (default_checker_flags\<lparr>ck_nodes := ''a,b''\<rparr>) (0, nodes s) = Some (Passed report, w')"
proof -
  let ?c = "ex_config ''causal'' 3" and ?dial = "\<lambda>a. if a = ''a'' then Inr 0 else if a = ''b'' then Inr 1 else Inl ()"
  let ?flags = "default_checker_flags\<lparr>ck_nodes := ''a,b''\<rparr>"
  obtain s where s: "reachable ?c s" "quiescent ?c s" "\<not> stale s" "\<not> lost s"
    "cluster.log s = [(1, ''y'', ex_y), (0, ''x'', ex_x)]" "NStore (nodes s 0) = ex_both"
    using chain_done by blast
  have clean: "clean_log (cluster.log s)" unfolding s(5) by (simp add: clean_log_def ex_x_def ex_y_def)
  have async: "async_config ?c" by (simp add: ex_async)
  have dial: "parsePeers (ck_nodes ?flags) \<noteq> []" "\<forall>a \<in> set (parsePeers (ck_nodes ?flags)).
      ?dial a = Inr (if a = ''a'' then 0 else 1) \<and> id (if a = ''a'' then 0 else 1) \<in> cfg_ids ?c"
    by (simp_all add: ex_flag ex_config_def)
  have "0 \<le> ck_keyCount ?flags" by (simp add: default_checker_flags_def)
  from checker_accepts_converged_cluster [OF s(1) async s(3,4,2) clean dial this]
  obtain report w' where "checker_main ?dial id (\<lambda>_ w. w) node_get node_time (node_pause (\<lambda>t ns. ns)) ?flags
      (0, nodes s) = Some (Passed report, w')" by blast
  moreover have "Store_Get ''x'' (NStore (nodes s 0)) \<noteq> None"
    unfolding s(6) by (simp add: ex_both_def Store_Get_def ex_x_def)
  ultimately show ?thesis using s(1) by blast
qed

end
